(* ===== verification/Prelude.thy ===== *)
theory Prelude
  imports Complex_Main "HOL-Library.Word" "HOL-Library.AList" "HOL-Library.Sublist"
    "HOL-Library.Char_ord" "HOL-Library.Multiset" "HOL-Library.Code_Target_Nat" "HOL-Library.List_Lexorder"
begin

text \<open>
  Shared ground of the development: the parts of Go's string library the
  sources use, read on byte strings (a Go string is a sequence of bytes, here a
  \<^typ>\<open>string\<close>); Go maps as association lists, whose order is one
  iteration order of the map (Go iterates a map in an unspecified order, so a
  result that matters is proved independent of that order); and two interfaces
  that several components share: a finite map, and a machine whose operations
  keep an invariant.

  Time stamps and durations are integers counting nanoseconds.
\<close>

named_theorems go_string_simps \<open>facts on the string functions of Go\<close>
named_theorems go_map_simps \<open>facts on association lists that stand for Go maps\<close>

section \<open>Time\<close>

type_synonym time = int
type_synonym duration = int

abbreviation (input) second :: duration where "second \<equiv> 1000000000"
abbreviation (input) minute :: duration where "minute \<equiv> 60000000000"
abbreviation (input) hour :: duration where "hour \<equiv> 3600000000000"

text \<open>Integer division of Go truncates toward zero; a conversion to uint32 keeps 32 bits.\<close>

definition go_quot :: "int \<Rightarrow> int \<Rightarrow> int" where
  "go_quot a b = (if a < 0 then - ((- a) div b) else a div b)"

definition to_uint32 :: "int \<Rightarrow> nat" where
  "to_uint32 x = nat (x mod 4294967296)"

lemma go_quot_nonneg [simp]: "0 \<le> a \<Longrightarrow> go_quot a b = a div b"
  by (simp add: go_quot_def)

lemma to_uint32_small [simp]: "0 \<le> x \<Longrightarrow> x < 4294967296 \<Longrightarrow> to_uint32 x = nat x"
  by (simp add: to_uint32_def)

section \<open>Strings\<close>

definition HasPrefix :: "string \<Rightarrow> string \<Rightarrow> bool" where
  "HasPrefix s p \<longleftrightarrow> prefix p s"

definition HasSuffix :: "string \<Rightarrow> string \<Rightarrow> bool" where
  "HasSuffix s p \<longleftrightarrow> suffix p s"

definition TrimSuffix :: "string \<Rightarrow> string \<Rightarrow> string" where
  "TrimSuffix s p = (if HasSuffix s p then take (length s - length p) s else s)"

definition TrimPrefix :: "string \<Rightarrow> string \<Rightarrow> string" where
  "TrimPrefix s p = (if HasPrefix s p then drop (length p) s else s)"

definition ContainsByte :: "string \<Rightarrow> char \<Rightarrow> bool" where
  "ContainsByte s c \<longleftrightarrow> c \<in> set s"

definition ascii_lower :: "char \<Rightarrow> char" where
  "ascii_lower c =
     (if CHR ''A'' \<le> c \<and> c \<le> CHR ''Z'' then char_of (of_char c + 32 :: nat) else c)"

definition ToLower :: "string \<Rightarrow> string" where
  "ToLower s = map ascii_lower s"

definition is_space :: "char \<Rightarrow> bool" where
  "is_space c \<longleftrightarrow> c \<in> {CHR 0x20, CHR 0x09, CHR 0x0A, CHR 0x0B, CHR 0x0C, CHR 0x0D}"

definition TrimSpace :: "string \<Rightarrow> string" where
  "TrimSpace s = rev (dropWhile is_space (rev (dropWhile is_space s)))"

fun TrimLeftByte :: "char \<Rightarrow> string \<Rightarrow> string" where
  "TrimLeftByte c s = dropWhile (\<lambda>x. x = c) s"

fun SplitByte :: "char \<Rightarrow> string \<Rightarrow> string list" where
  "SplitByte c [] = [[]]"
| "SplitByte c (x # xs) =
     (if x = c then [] # SplitByte c xs
      else (case SplitByte c xs of [] \<Rightarrow> [[x]] | w # ws \<Rightarrow> (x # w) # ws))"

fun Join :: "string list \<Rightarrow> string \<Rightarrow> string" where
  "Join [] sep = []"
| "Join [w] sep = w"
| "Join (w # v # ws) sep = w @ sep @ Join (v # ws) sep"

fun fields_aux :: "string \<Rightarrow> string \<Rightarrow> string list" where
  "fields_aux acc [] = (if acc = [] then [] else [rev acc])"
| "fields_aux acc (x # xs) =
     (if is_space x then (if acc = [] then fields_aux [] xs else rev acc # fields_aux [] xs)
      else fields_aux (x # acc) xs)"

definition Fields :: "string \<Rightarrow> string list" where
  "Fields s = fields_aux [] s"

fun LastIndexByte :: "string \<Rightarrow> char \<Rightarrow> nat option" where
  "LastIndexByte [] c = None"
| "LastIndexByte (x # xs) c =
     (case LastIndexByte xs c of Some i \<Rightarrow> Some (Suc i)
      | None \<Rightarrow> (if x = c then Some 0 else None))"

fun IndexByte :: "string \<Rightarrow> char \<Rightarrow> nat option" where
  "IndexByte [] c = None"
| "IndexByte (x # xs) c =
     (if x = c then Some 0 else map_option Suc (IndexByte xs c))"

definition CountByte :: "string \<Rightarrow> char \<Rightarrow> nat" where
  "CountByte s c = length (filter (\<lambda>x. x = c) s)"

subsection \<open>Decimal numbers\<close>

definition digit_char :: "nat \<Rightarrow> char" where
  "digit_char d = char_of (48 + d)"

definition is_digit :: "char \<Rightarrow> bool" where
  "is_digit c \<longleftrightarrow> CHR ''0'' \<le> c \<and> c \<le> CHR ''9''"

definition digit_val :: "char \<Rightarrow> nat" where
  "digit_val c = of_char c - 48"

fun Itoa :: "nat \<Rightarrow> string" where
  "Itoa n = (if n < 10 then [digit_char n] else Itoa (n div 10) @ [digit_char (n mod 10)])"

declare Itoa.simps [simp del]

fun dec_val :: "nat \<Rightarrow> string \<Rightarrow> nat option" where
  "dec_val acc [] = Some acc"
| "dec_val acc (c # cs) = (if is_digit c then dec_val (acc * 10 + digit_val c) cs else None)"

text \<open>Unsigned decimal reading: a non-empty run of digits and nothing else.\<close>

definition AtoiU :: "string \<Rightarrow> nat option" where
  "AtoiU s = (if s = [] then None else dec_val 0 s)"

subsection \<open>Facts on strings\<close>

lemma HasSuffix_refl [simp]: "HasSuffix s s"
  by (simp add: HasSuffix_def)

lemma HasSuffix_Nil [simp]: "HasSuffix s []"
  by (simp add: HasSuffix_def)

lemma HasSuffix_append [simp]: "HasSuffix (xs @ s) s"
  by (simp add: HasSuffix_def suffix_def)

lemma HasSuffix_length: "HasSuffix s p \<Longrightarrow> length p \<le> length s"
  by (auto simp: HasSuffix_def suffix_def)

lemma HasSuffix_trans: "HasSuffix a b \<Longrightarrow> HasSuffix b c \<Longrightarrow> HasSuffix a c"
  unfolding HasSuffix_def by (rule suffix_order.trans)

lemma HasSuffix_same_length:
  "HasSuffix s p \<Longrightarrow> HasSuffix s q \<Longrightarrow> length p = length q \<Longrightarrow> p = q"
  by (auto simp: HasSuffix_def suffix_def)

lemma HasSuffix_comparable:
  "HasSuffix s p \<Longrightarrow> HasSuffix s q \<Longrightarrow> length p \<le> length q \<Longrightarrow> HasSuffix q p"
  unfolding HasSuffix_def by (rule suffix_length_suffix)

lemma TrimSuffix_append [simp]: "TrimSuffix (xs @ s) s = xs"
  by (simp add: TrimSuffix_def)

lemma TrimSuffix_decomp: "HasSuffix s p \<Longrightarrow> s = TrimSuffix s p @ p"
  by (auto simp: TrimSuffix_def HasSuffix_def suffix_def)

lemma TrimSuffix_length_le: "length (TrimSuffix s p) \<le> length s"
  by (simp add: TrimSuffix_def)

lemma TrimSuffix_no [simp]: "\<not> HasSuffix s p \<Longrightarrow> TrimSuffix s p = s"
  by (simp add: TrimSuffix_def)

lemma TrimPrefix_append [simp]: "TrimPrefix (p @ s) p = s"
  by (simp add: TrimPrefix_def HasPrefix_def)

lemmas [go_string_simps] =
  HasSuffix_refl HasSuffix_Nil HasSuffix_append TrimSuffix_append TrimSuffix_no
  TrimPrefix_append

lemma SplitByte_not_Nil [simp]: "SplitByte c s \<noteq> []"
  by (induction s) (auto split: list.splits)

lemma Join_Cons: "Join (w # ws) sep = (if ws = [] then w else w @ sep @ Join ws sep)"
  by (cases ws) auto

lemma Join_SplitByte [simp]: "Join (SplitByte c s) [c] = s"
  by (induction s) (auto simp: Join_Cons split: list.splits)

lemma SplitByte_no_sep: "w \<in> set (SplitByte c s) \<Longrightarrow> c \<notin> set w"
  by (induction s arbitrary: w) (auto split: list.splits if_splits)

lemma SplitByte_plain [simp]: "c \<notin> set w \<Longrightarrow> SplitByte c w = [w]"
  by (induction w) auto

lemma SplitByte_append [simp]:
  "c \<notin> set w \<Longrightarrow> SplitByte c (w @ c # s) = w # SplitByte c s"
  by (induction w) auto

lemma SplitByte_Join:
  "ws \<noteq> [] \<Longrightarrow> (\<And>w. w \<in> set ws \<Longrightarrow> c \<notin> set w) \<Longrightarrow> SplitByte c (Join ws [c]) = ws"
  by (induction ws) (auto simp: Join_Cons)

lemma ToLower_append [simp]: "ToLower (a @ b) = ToLower a @ ToLower b"
  by (simp add: ToLower_def)

lemma ToLower_length [simp]: "length (ToLower s) = length s"
  by (simp add: ToLower_def)

lemma ascii_lower_idem: "ascii_lower (ascii_lower c) = ascii_lower c"
proof (cases "CHR ''A'' \<le> c \<and> c \<le> CHR ''Z''")
  case True
  define n where "n = (of_char c :: nat)"
  have n: "65 \<le> n" "n \<le> 90"
    using True by (simp_all add: n_def less_eq_char_def)
  then have "\<not> char_of (n + 32) \<le> CHR ''Z''"
    by (simp add: less_eq_char_def)
  moreover have "ascii_lower c = char_of (n + 32)"
    using True by (simp add: ascii_lower_def n_def)
  ultimately show ?thesis
    by (simp add: ascii_lower_def)
next
  case False
  then have "ascii_lower c = c"
    by (auto simp: ascii_lower_def)
  then show ?thesis
    by simp
qed

lemma ToLower_idem: "ToLower (ToLower s) = ToLower s"
  by (simp add: ToLower_def ascii_lower_idem)

lemma ToLower_TrimSuffix:
  assumes "ToLower s = s"
  shows "ToLower (TrimSuffix s t) = TrimSuffix s t"
proof -
  have "ToLower (take n s) = take n s" for n
    using arg_cong [OF assms, of "take n"] by (simp add: ToLower_def take_map)
  then show ?thesis
    using assms by (simp add: TrimSuffix_def)
qed

lemma of_char_digit_char [simp]: "d < 10 \<Longrightarrow> of_char (digit_char d) = (48 + d :: nat)"
  by (simp add: digit_char_def)

lemma is_digit_digit_char [simp]: "d < 10 \<Longrightarrow> is_digit (digit_char d)"
  by (simp add: is_digit_def less_eq_char_def)

lemma digit_val_digit_char [simp]: "d < 10 \<Longrightarrow> digit_val (digit_char d) = d"
  by (simp add: digit_val_def)

lemma dec_val_append:
  "dec_val a (s @ t) = (case dec_val a s of None \<Rightarrow> None | Some v \<Rightarrow> dec_val v t)"
  by (induction s arbitrary: a) auto

lemma Itoa_not_Nil [simp]: "Itoa n \<noteq> []"
  by (subst Itoa.simps) auto

lemma Itoa_digits: "c \<in> set (Itoa n) \<Longrightarrow> is_digit c"
proof (induction n rule: Itoa.induct)
  case (1 n)
  then show ?case
    by (subst (asm) (2) Itoa.simps) (auto split: if_splits)
qed

lemma dec_val_Itoa: "dec_val 0 (Itoa n) = Some n"
proof (induction n rule: Itoa.induct)
  case (1 n)
  show ?case
  proof (cases "n < 10")
    case True
    then show ?thesis by (subst Itoa.simps) simp
  next
    case False
    with 1 show ?thesis by (subst Itoa.simps) (simp add: dec_val_append)
  qed
qed

lemma AtoiU_Itoa [simp]: "AtoiU (Itoa n) = Some n"
  by (simp add: AtoiU_def dec_val_Itoa)

lemma Itoa_inj: "Itoa m = Itoa n \<Longrightarrow> m = n"
  by (metis AtoiU_Itoa option.inject)

section \<open>Go maps as association lists\<close>

type_synonym ('k, 'v) gomap = "('k \<times> 'v) list"

abbreviation gm_get :: "('k, 'v) gomap \<Rightarrow> 'k \<Rightarrow> 'v option" where
  "gm_get m k \<equiv> map_of m k"

abbreviation gm_set :: "('k, 'v) gomap \<Rightarrow> 'k \<Rightarrow> 'v \<Rightarrow> ('k, 'v) gomap" where
  "gm_set m k v \<equiv> AList.update k v m"

abbreviation gm_del :: "('k, 'v) gomap \<Rightarrow> 'k \<Rightarrow> ('k, 'v) gomap" where
  "gm_del m k \<equiv> AList.delete k m"

definition gm_ok :: "('k, 'v) gomap \<Rightarrow> bool" where
  "gm_ok m \<longleftrightarrow> distinct (map fst m)"

definition gm_has :: "('k, 'v) gomap \<Rightarrow> 'k \<Rightarrow> bool" where
  "gm_has m k \<longleftrightarrow> map_of m k \<noteq> None"

text \<open>The value a map of lists, or of maps, gives for an absent key: Go's nil slice.\<close>

definition gm_list :: "('k, 'v list) gomap \<Rightarrow> 'k \<Rightarrow> 'v list" where
  "gm_list m k = (case map_of m k of None \<Rightarrow> [] | Some v \<Rightarrow> v)"

text \<open>Two association lists stand for the same Go map.\<close>

definition gm_same :: "('k, 'v) gomap \<Rightarrow> ('k, 'v) gomap \<Rightarrow> bool" where
  "gm_same m m' \<longleftrightarrow> gm_ok m \<and> gm_ok m' \<and> map_of m = map_of m'"

locale finite_map =
  fixes get :: "'m \<Rightarrow> 'k \<Rightarrow> 'v option"
    and put :: "'m \<Rightarrow> 'k \<Rightarrow> 'v \<Rightarrow> 'm"
    and del :: "'m \<Rightarrow> 'k \<Rightarrow> 'm"
    and keys :: "'m \<Rightarrow> 'k list"
    and inv :: "'m \<Rightarrow> bool"
  assumes get_put: "inv m \<Longrightarrow> get (put m k v) k' = (if k' = k then Some v else get m k')"
    and get_del: "inv m \<Longrightarrow> get (del m k) k' = (if k' = k then None else get m k')"
    and keys_get: "inv m \<Longrightarrow> k \<in> set (keys m) \<longleftrightarrow> get m k \<noteq> None"
    and keys_distinct: "inv m \<Longrightarrow> distinct (keys m)"
    and inv_put: "inv m \<Longrightarrow> inv (put m k v)"
    and inv_del: "inv m \<Longrightarrow> inv (del m k)"
begin

lemma put_put: "inv m \<Longrightarrow> get (put (put m k v) k w) = get (put m k w)"
  by (rule ext) (simp add: get_put inv_put)

lemma put_commute:
  "inv m \<Longrightarrow> k \<noteq> l \<Longrightarrow> get (put (put m k v) l w) = get (put (put m l w) k v)"
  by (rule ext) (simp add: get_put inv_put)

lemma del_put: "inv m \<Longrightarrow> get (del (put m k v) k) = get (del m k)"
  by (rule ext) (simp add: get_put get_del inv_put)

lemma keys_put: "inv m \<Longrightarrow> set (keys (put m k v)) = insert k (set (keys m))"
  by (auto simp: keys_get inv_put get_put split: if_splits)

lemma keys_del: "inv m \<Longrightarrow> set (keys (del m k)) = set (keys m) - {k}"
  by (auto simp: keys_get inv_del get_del split: if_splits)

lemma size_put:
  assumes "inv m"
  shows "length (keys (put m k v)) =
    (if get m k = None then Suc (length (keys m)) else length (keys m))"
proof -
  have "length (keys (put m k v)) = card (insert k (set (keys m)))"
    using assms by (metis distinct_card keys_distinct inv_put keys_put)
  then show ?thesis
    using assms by (auto simp: card_insert_if keys_get distinct_card keys_distinct)
qed

lemma size_del:
  assumes "inv m"
  shows "length (keys (del m k)) =
    (if get m k = None then length (keys m) else length (keys m) - 1)"
proof -
  have "length (keys (del m k)) = card (set (keys m) - {k})"
    using assms by (metis distinct_card keys_distinct inv_del keys_del)
  then show ?thesis
    using assms by (auto simp: keys_get distinct_card keys_distinct)
qed

end

lemma gm_ok_set [simp, go_map_simps]: "gm_ok m \<Longrightarrow> gm_ok (gm_set m k v)"
  by (simp add: gm_ok_def distinct_update)

lemma gm_ok_del [simp, go_map_simps]: "gm_ok m \<Longrightarrow> gm_ok (gm_del m k)"
  by (simp add: gm_ok_def distinct_delete)

interpretation gm: finite_map gm_get gm_set gm_del "map fst" gm_ok
proof
  show "gm_get (gm_set m k v) k' = (if k' = k then Some v else gm_get m k')"
    for m :: "('k, 'v) gomap" and k k' v
    by (simp add: update_conv')
  show "gm_get (gm_del m k) k' = (if k' = k then None else gm_get m k')"
    for m :: "('k, 'v) gomap" and k k'
    by (simp add: delete_conv')
  show "(k \<in> set (map fst m)) = (gm_get m k \<noteq> None)"
    for m :: "('k, 'v) gomap" and k
    by (simp add: map_of_eq_None_iff)
qed (simp_all add: gm_ok_def distinct_update distinct_delete)

lemma gm_list_set:
  "gm_list (gm_set m k v) k' = (if k' = k then v else gm_list m k')"
  by (simp add: gm_list_def update_conv')

lemma gm_has_keys: "gm_has m k \<longleftrightarrow> k \<in> fst ` set m"
  by (simp add: gm_has_def map_of_eq_None_iff)

lemma gm_same_set: "gm_same m m' \<Longrightarrow> set m = set m'"
  by (metis gm_ok_def gm_same_def map_of_eqI map_of_inject_set)

lemma gm_same_keys: "gm_same m m' \<Longrightarrow> set (map fst m) = set (map fst m')"
  by (metis gm_same_set list.set_map)

lemma gm_same_mset: "gm_same m m' \<Longrightarrow> mset m = mset m'"
  by (metis distinct_map gm_ok_def gm_same_def gm_same_set set_eq_iff_mset_eq_distinct)

lemma gm_ok_filter: "gm_ok m \<Longrightarrow> gm_ok (filter P m)"
  by (simp add: gm_ok_def distinct_map_filter)

lemma gm_ok_map_vals: "gm_ok m \<Longrightarrow> gm_ok (map (\<lambda>(k, v). (k, f k v)) m)"
  by (simp add: gm_ok_def case_prod_unfold comp_def)

lemma gm_size_set:
  "gm_ok m \<Longrightarrow> length (gm_set m k v) = (if gm_get m k = None then Suc (length m) else length m)"
  using gm.size_put [of m k v] by simp

lemma gm_set_subset: "set (gm_set m k v) \<subseteq> insert (k, v) (set m)"
  by (induction m) auto

lemma gm_get_filter:
  assumes "gm_ok m" "gm_get m k = Some v" "P (k, v)"
  shows "gm_get (filter P m) k = Some v"
proof (rule map_of_is_SomeI)
  show "distinct (map fst (filter P m))"
    using gm_ok_filter [OF assms(1)] by (simp add: gm_ok_def)
  show "(k, v) \<in> set (filter P m)"
    using map_of_SomeD [OF assms(2)] assms(3) by simp
qed

lemma gm_set_vals: "mset (map snd (gm_set m k v)) \<subseteq># add_mset v (mset (map snd m))"
proof (induction m)
  case (Cons x m)
  then show ?case
    using add_mset_commute [of v "snd x"] by (cases x) auto
qed simp

lemma gm_set_new: "gm_get m k = None \<Longrightarrow> gm_set m k v = m @ [(k, v)]"
  by (induction m) (auto split: if_splits)

section \<open>Machines with an invariant\<close>

text \<open>
  A component whose operations each run under its mutex: any interleaving of
  calls is a sequence of operations.  The interface asks that every operation
  keeps the invariant; the client gets it for every sequence.
\<close>

locale op_machine =
  fixes step :: "'op \<Rightarrow> 's \<Rightarrow> 's"
    and inv :: "'s \<Rightarrow> bool"
  assumes step_inv: "inv s \<Longrightarrow> inv (step op s)"
begin

lemma run_inv: "inv s \<Longrightarrow> inv (fold step ops s)"
  by (induction ops arbitrary: s) (simp_all add: step_inv)

end

section \<open>Lists\<close>

lemma filter_eq_self_iff: "filter P xs = xs \<longleftrightarrow> (\<forall>x\<in>set xs. P x)"
  by (simp add: filter_id_conv)

lemma map_filter_set: "y \<in> set (List.map_filter f xs) \<longleftrightarrow> (\<exists>x\<in>set xs. f x = Some y)"
  by (induction xs) (auto simp: map_filter_simps split: option.splits)

lemma map_filter_append [simp]:
  "List.map_filter f (xs @ ys) = List.map_filter f xs @ List.map_filter f ys"
  by (simp add: map_filter_def)

end
