(* ===== verification/Netip.thy ===== *)
theory Netip
  imports Prelude "HOL-Library.Product_Lexorder"
begin

text \<open>
  The parts of Go's standard package \<^verbatim>\<open>net/netip\<close> the sources use: addresses
  (IPv4, IPv6 with an optional zone, and the invalid zero value), their
  classification, prefixes, and the textual forms.  Addresses are kept at their
  width, as words of 32 and 128 bits.
\<close>

unbundle bit_operations_syntax

section \<open>Addresses\<close>

datatype addr = AddrNone | Addr4 "32 word" | Addr6 "128 word" string

definition IsValid :: "addr \<Rightarrow> bool" where
  "IsValid a \<longleftrightarrow> a \<noteq> AddrNone"

fun Is4 :: "addr \<Rightarrow> bool" where
  "Is4 (Addr4 w) = True"
| "Is4 _ = False"

fun Is6 :: "addr \<Rightarrow> bool" where
  "Is6 (Addr6 w z) = True"
| "Is6 _ = False"

fun Is4In6 :: "addr \<Rightarrow> bool" where
  "Is4In6 (Addr6 w z) \<longleftrightarrow> drop_bit 32 w = 0xffff"
| "Is4In6 _ = False"

fun Unmap :: "addr \<Rightarrow> addr" where
  "Unmap (Addr6 w z) = (if drop_bit 32 w = 0xffff then Addr4 (ucast w) else Addr6 w z)"
| "Unmap a = a"

fun hasZone :: "addr \<Rightarrow> bool" where
  "hasZone (Addr6 w z) \<longleftrightarrow> z \<noteq> []"
| "hasZone _ = False"

fun WithZone :: "addr \<Rightarrow> string \<Rightarrow> addr" where
  "WithZone (Addr6 w z) z' = Addr6 w z'"
| "WithZone a z' = a"

fun BitLen :: "addr \<Rightarrow> nat" where
  "BitLen AddrNone = 0"
| "BitLen (Addr4 w) = 32"
| "BitLen (Addr6 w z) = 128"

definition IPv4Unspecified :: addr where
  "IPv4Unspecified = Addr4 0"

definition IPv6Unspecified :: addr where
  "IPv6Unspecified = Addr6 0 []"

fun loopback_un :: "addr \<Rightarrow> bool" where
  "loopback_un (Addr4 w) \<longleftrightarrow> drop_bit 24 w = 127"
| "loopback_un (Addr6 w z) \<longleftrightarrow> w = 1"
| "loopback_un AddrNone \<longleftrightarrow> False"

definition IsLoopback :: "addr \<Rightarrow> bool" where
  "IsLoopback a = loopback_un (Unmap a)"

fun private_un :: "addr \<Rightarrow> bool" where
  "private_un (Addr4 w) \<longleftrightarrow> drop_bit 24 w = 10 \<or> drop_bit 20 w = 0xac1 \<or> drop_bit 16 w = 0xc0a8"
| "private_un (Addr6 w z) \<longleftrightarrow> drop_bit 121 w = 0x7e"
| "private_un AddrNone \<longleftrightarrow> False"

definition IsPrivate :: "addr \<Rightarrow> bool" where
  "IsPrivate a = private_un (Unmap a)"

fun linklocal_un :: "addr \<Rightarrow> bool" where
  "linklocal_un (Addr4 w) \<longleftrightarrow> drop_bit 16 w = 0xa9fe"
| "linklocal_un (Addr6 w z) \<longleftrightarrow> drop_bit 118 w = 0x3fa"
| "linklocal_un AddrNone \<longleftrightarrow> False"

definition IsLinkLocalUnicast :: "addr \<Rightarrow> bool" where
  "IsLinkLocalUnicast a = linklocal_un (Unmap a)"

fun multicast_un :: "addr \<Rightarrow> bool" where
  "multicast_un (Addr4 w) \<longleftrightarrow> drop_bit 28 w = 0xe"
| "multicast_un (Addr6 w z) \<longleftrightarrow> drop_bit 120 w = 0xff"
| "multicast_un AddrNone \<longleftrightarrow> False"

definition IsMulticast :: "addr \<Rightarrow> bool" where
  "IsMulticast a = multicast_un (Unmap a)"

definition IsUnspecified :: "addr \<Rightarrow> bool" where
  "IsUnspecified a \<longleftrightarrow> a = IPv4Unspecified \<or> a = IPv6Unspecified"

definition IsGlobalUnicast :: "addr \<Rightarrow> bool" where
  "IsGlobalUnicast a = (case Unmap a of
      AddrNone \<Rightarrow> False
    | u \<Rightarrow> u \<noteq> IPv4Unspecified \<and> u \<noteq> Addr4 0xffffffff \<and> u \<noteq> IPv6Unspecified \<and>
           \<not> loopback_un u \<and> \<not> multicast_un u \<and> \<not> linklocal_un u)"

section \<open>Prefixes\<close>

text \<open>A valid prefix: an address without zone and a length within its family's width.\<close>

datatype net_prefix = Prefix (pfx_addr: addr) (pfx_bits: nat)

definition prefix_valid :: "net_prefix \<Rightarrow> bool" where
  "prefix_valid p \<longleftrightarrow> IsValid (pfx_addr p) \<and> \<not> hasZone (pfx_addr p) \<and> pfx_bits p \<le> BitLen (pfx_addr p)"

definition mask6 :: "nat \<Rightarrow> 128 word" where
  "mask6 n = NOT (mask (128 - n))"

fun PrefixContains :: "net_prefix \<Rightarrow> addr \<Rightarrow> bool" where
  "PrefixContains (Prefix (Addr4 p) n) (Addr4 a) \<longleftrightarrow> drop_bit (32 - n) (a XOR p) = 0"
| "PrefixContains (Prefix (Addr6 p _) n) (Addr6 a z) \<longleftrightarrow>
     z = [] \<and> (a XOR p) AND mask6 n = 0"
| "PrefixContains _ _ \<longleftrightarrow> False"

fun Masked :: "net_prefix \<Rightarrow> net_prefix" where
  "Masked (Prefix (Addr4 p) n) = Prefix (Addr4 (p AND NOT (mask (32 - n)))) n"
| "Masked (Prefix (Addr6 p z) n) = Prefix (Addr6 (p AND mask6 n) []) n"
| "Masked p = p"

section \<open>Text\<close>

fun p4_loop :: "bool \<Rightarrow> nat \<Rightarrow> nat \<Rightarrow> nat list \<Rightarrow> string \<Rightarrow> nat list option" where
  "p4_loop pd val dl fs [] = (if length fs < 3 then None else Some (fs @ [val]))"
| "p4_loop pd val dl fs (c # cs) =
     (if is_digit c then
        (if dl = 1 \<and> val = 0 then None
         else if val * 10 + digit_val c > 255 then None
         else p4_loop False (val * 10 + digit_val c) (Suc dl) fs cs)
      else if c = CHR ''.'' then
        (if pd \<or> cs = [] then None
         else if length fs = 3 then None
         else p4_loop True 0 0 (fs @ [val]) cs)
      else None)"

definition parseIPv4Fields :: "string \<Rightarrow> nat list option" where
  "parseIPv4Fields s = p4_loop True 0 0 [] s"

definition bytes_val :: "nat list \<Rightarrow> nat" where
  "bytes_val bs = foldl (\<lambda>a b. a * 256 + b) 0 bs"

definition parseIPv4 :: "string \<Rightarrow> addr option" where
  "parseIPv4 s = map_option (\<lambda>bs. Addr4 (word_of_nat (bytes_val bs))) (parseIPv4Fields s)"

definition hex_val :: "char \<Rightarrow> nat option" where
  "hex_val c =
     (if is_digit c then Some (digit_val c)
      else if CHR ''a'' \<le> c \<and> c \<le> CHR ''f'' then Some (of_char c - 87)
      else if CHR ''A'' \<le> c \<and> c \<le> CHR ''F'' then Some (of_char c - 55)
      else None)"

definition is_hex :: "char \<Rightarrow> bool" where
  "is_hex c \<longleftrightarrow> hex_val c \<noteq> None"

definition hex_acc :: "string \<Rightarrow> nat" where
  "hex_acc s = foldl (\<lambda>a c. a * 16 + the (hex_val c)) 0 s"

text \<open>
  The group loop of the IPv6 reader: the bytes read so far, the position of the
  ellipsis, the rest of the text; the first argument counts the groups that
  still fit.  The result is what the loop leaves behind when it stops.
\<close>

fun p6_loop :: "nat \<Rightarrow> nat list \<Rightarrow> nat option \<Rightarrow> string \<Rightarrow> (nat list \<times> nat option \<times> string) option" where
  "p6_loop 0 bs ell s = Some (bs, ell, s)"
| "p6_loop (Suc k) bs ell s =
     (let g = takeWhile is_hex s; rest = dropWhile is_hex s in
      if g = [] \<or> length g > 4 then None
      else if (case rest of c # _ \<Rightarrow> c = CHR ''.'' | [] \<Rightarrow> False) then
        (if (ell = None \<and> length bs \<noteq> 12) \<or> length bs + 4 > 16 then None
         else case parseIPv4Fields s of None \<Rightarrow> None | Some q \<Rightarrow> Some (bs @ q, ell, []))
      else
        (let bs' = bs @ [hex_acc g div 256, hex_acc g mod 256] in
         case rest of
           [] \<Rightarrow> Some (bs', ell, [])
         | c # r1 \<Rightarrow>
             if c \<noteq> CHR '':'' then None
             else (case r1 of
                 [] \<Rightarrow> None
               | d # r2 \<Rightarrow>
                   if d = CHR '':'' then
                     (if ell \<noteq> None then None
                      else if r2 = [] then Some (bs', Some (length bs'), [])
                      else p6_loop k bs' (Some (length bs')) r2)
                   else p6_loop k bs' ell r1)))"

definition expand6 :: "nat list \<Rightarrow> nat option \<Rightarrow> nat list option" where
  "expand6 bs ell =
     (if length bs < 16 then
        (case ell of None \<Rightarrow> None
         | Some e \<Rightarrow> Some (take e bs @ replicate (16 - length bs) 0 @ drop e bs))
      else if ell \<noteq> None then None
      else Some bs)"

definition parseIPv6 :: "string \<Rightarrow> addr option" where
  "parseIPv6 str =
     (let s = takeWhile (\<lambda>c. c \<noteq> CHR ''%'') str;
          zpart = dropWhile (\<lambda>c. c \<noteq> CHR ''%'') str;
          zone = tl zpart in
      if zpart \<noteq> [] \<and> zone = [] then None
      else
        (let lead = HasPrefix s ''::'';
             s1 = (if lead then drop 2 s else s);
             ell = (if lead then Some 0 else None) in
         if lead \<and> s1 = [] then Some (Addr6 0 zone)
         else (case p6_loop 8 [] ell s1 of
             None \<Rightarrow> None
           | Some (bs, ell', rest) \<Rightarrow>
               if rest \<noteq> [] then None
               else map_option (\<lambda>b. Addr6 (word_of_nat (bytes_val b)) zone) (expand6 bs ell'))))"

definition ParseAddr :: "string \<Rightarrow> addr option" where
  "ParseAddr s =
     (case dropWhile (\<lambda>c. c \<notin> {CHR ''.'', CHR '':'', CHR ''%''}) s of
        [] \<Rightarrow> None
      | c # _ \<Rightarrow> if c = CHR ''.'' then parseIPv4 s
                 else if c = CHR '':'' then parseIPv6 s
                 else None)"

definition ParsePrefix :: "string \<Rightarrow> net_prefix option" where
  "ParsePrefix s =
     (case LastIndexByte s (CHR ''/'') of
        None \<Rightarrow> None
      | Some i \<Rightarrow>
          (case ParseAddr (take i s) of
             None \<Rightarrow> None
           | Some ip \<Rightarrow>
               if hasZone ip then None
               else
                 (let b = drop (Suc i) s in
                  if length b > 1 \<and> \<not> (CHR ''1'' \<le> hd b \<and> hd b \<le> CHR ''9'') then None
                  else (case AtoiU b of
                      None \<Rightarrow> None
                    | Some n \<Rightarrow> if n > BitLen ip then None else Some (Prefix ip n)))))"

definition octets4 :: "32 word \<Rightarrow> nat list" where
  "octets4 w = map (\<lambda>k. unat (drop_bit k w) mod 256) [24, 16, 8, 0]"

definition string4 :: "32 word \<Rightarrow> string" where
  "string4 w = Join (map Itoa (octets4 w)) ''.''"

definition groups6 :: "128 word \<Rightarrow> nat list" where
  "groups6 w = map (\<lambda>k. unat (drop_bit k w) mod 65536) [112, 96, 80, 64, 48, 32, 16, 0]"

definition hex_digit :: "nat \<Rightarrow> char" where
  "hex_digit d = (if d < 10 then char_of (48 + d) else char_of (87 + d))"

fun Hex :: "nat \<Rightarrow> string" where
  "Hex n = (if n < 16 then [hex_digit n] else Hex (n div 16) @ [hex_digit (n mod 16)])"

declare Hex.simps [simp del]

text \<open>The first longest run of at least two zero groups: its start and its length.\<close>

definition zero_run :: "nat list \<Rightarrow> nat \<times> nat" where
  "zero_run gs = fold (\<lambda>i (st, ln).
      (let l = length (takeWhile (\<lambda>g. g = 0) (drop i gs)) in
       if l \<ge> 2 \<and> l > ln then (i, l) else (st, ln))) [0 ..< 8] (8, 0)"

definition string6 :: "128 word \<Rightarrow> string" where
  "string6 w =
     (let gs = groups6 w; (st, ln) = zero_run gs in
      if ln = 0 then Join (map Hex gs) '':''
      else Join (map Hex (take st gs)) '':'' @ ''::'' @ Join (map Hex (drop (st + ln) gs)) '':'')"

fun AddrString :: "addr \<Rightarrow> string" where
  "AddrString AddrNone = ''invalid IP''"
| "AddrString (Addr4 w) = string4 w"
| "AddrString (Addr6 w z) =
     (if drop_bit 32 w = 0xffff then ''::ffff:'' @ string4 (ucast w) else string6 w) @
     (if z = [] then [] else CHR ''%'' # z)"

text \<open>Bytes of an interface address: four or sixteen of them make an address.\<close>

definition AddrFromSlice :: "nat list \<Rightarrow> addr option" where
  "AddrFromSlice bs =
     (if length bs = 4 then Some (Addr4 (word_of_nat (bytes_val bs)))
      else if length bs = 16 then Some (Addr6 (word_of_nat (bytes_val bs)) [])
      else None)"

definition AddrPortString :: "addr \<Rightarrow> nat \<Rightarrow> string" where
  "AddrPortString a port =
     (case a of AddrNone \<Rightarrow> ''invalid AddrPort''
      | Addr4 w \<Rightarrow> string4 w @ '':'' @ Itoa port
      | Addr6 w z \<Rightarrow> ''['' @ AddrString a @ '']:'' @ Itoa port)"

text \<open>
  \<^verbatim>\<open>net.SplitHostPort\<close>: the host and the port of an endpoint, None on each of its errors.
\<close>

definition SplitHostPort :: "string \<Rightarrow> (string \<times> string) option" where
  "SplitHostPort hp =
     (case LastIndexByte hp (CHR '':'') of
        None \<Rightarrow> None
      | Some i \<Rightarrow>
          if hd hp = CHR ''['' then
            (case IndexByte hp (CHR '']'') of
               None \<Rightarrow> None
             | Some e \<Rightarrow>
                 if Suc e \<noteq> i then None
                 else if CHR ''['' \<in> set (drop 1 hp) \<or> CHR '']'' \<in> set (drop (Suc e) hp) then None
                 else Some (drop 1 (take e hp), drop (Suc i) hp))
          else if CHR '':'' \<in> set (take i hp) then None
          else if CHR ''['' \<in> set hp \<or> CHR '']'' \<in> set hp then None
          else Some (take i hp, drop (Suc i) hp))"

section \<open>Facts\<close>

lemma word_xor_eq_0: "a XOR b = 0 \<longleftrightarrow> a = (b :: 'a :: len word)"
  by (auto simp: bit_eq_iff bit_simps)

lemma drop_bit_xor_eq_0:
  "drop_bit k (a XOR b) = 0 \<longleftrightarrow> drop_bit k a = drop_bit k (b :: 'a :: len word)"
  by (simp add: word_xor_eq_0)

lemma and_not_mask: "w AND NOT (mask k) = push_bit k (drop_bit k (w :: 'a :: len word))"
  by (rule bit_word_eqI) (auto simp: bit_simps)

lemma and_not_mask_eq_0:
  "w AND NOT (mask k) = 0 \<longleftrightarrow> drop_bit k w = (0 :: 'a :: len word)"
proof
  assume z: "w AND NOT (mask k) = 0"
  show "drop_bit k w = 0"
  proof (rule bit_word_eqI)
    fix n assume "n < LENGTH('a)"
    have "\<not> bit (w AND NOT (mask k)) (k + n)"
      using z by simp
    then show "bit (drop_bit k w) n = bit (0 :: 'a word) n"
      using bit_imp_le_length [of w "k + n"] by (auto simp: bit_simps)
  qed
qed (simp add: and_not_mask)

lemma drop_bit_eq_iff_div:
  "drop_bit k a = drop_bit k (b :: 'a :: len word) \<longleftrightarrow> unat a div 2 ^ k = unat b div 2 ^ k"
  by (metis unat_drop_bit_eq drop_bit_eq_div word_unat_eq_iff)

text \<open>Membership in a prefix is agreement of the leading bits, as a fact on numbers.\<close>

lemma PrefixContains4_div:
  "PrefixContains (Prefix (Addr4 p) n) (Addr4 a) \<longleftrightarrow>
     unat a div 2 ^ (32 - n) = unat p div 2 ^ (32 - n)"
  by (simp add: word_xor_eq_0 drop_bit_eq_iff_div)

lemma PrefixContains6_div:
  "PrefixContains (Prefix (Addr6 p zp) n) (Addr6 a z) \<longleftrightarrow>
     z = [] \<and> unat a div 2 ^ (128 - n) = unat p div 2 ^ (128 - n)"
  by (simp add: mask6_def and_not_mask_eq_0 word_xor_eq_0 drop_bit_eq_iff_div)

lemma hex_digit_inj: "a < 16 \<Longrightarrow> b < 16 \<Longrightarrow> hex_digit a = hex_digit b \<Longrightarrow> a = b"
  by (auto simp: hex_digit_def split: if_splits)

lemma Unmap_idem [simp]: "Unmap (Unmap a) = Unmap a"
  by (cases a) auto

lemma Unmap_valid [simp]: "IsValid (Unmap a) = IsValid a"
  by (cases a) (auto simp: IsValid_def)

lemma Unmap_not_4in6 [simp]: "\<not> Is4In6 (Unmap a)"
  by (cases a) auto

section \<open>The order of addresses\<close>

text \<open>Method \<^verbatim>\<open>Less\<close>: by length, then by value, then by zone.\<close>

fun addr_rank :: "addr \<Rightarrow> nat \<times> nat \<times> string" where
  "addr_rank AddrNone = (0, 0, [])"
| "addr_rank (Addr4 w) = (32, unat w, [])"
| "addr_rank (Addr6 w z) = (128, unat w, z)"

lemma addr_rank_inj: "addr_rank a = addr_rank b \<Longrightarrow> a = b"
  by (cases a; cases b) (auto simp: unsigned_word_eqI word_unat_eq_iff)

instantiation addr :: linorder
begin

definition less_eq_addr :: "addr \<Rightarrow> addr \<Rightarrow> bool" where
  "less_eq_addr a b \<longleftrightarrow> addr_rank a \<le> addr_rank b"

definition less_addr :: "addr \<Rightarrow> addr \<Rightarrow> bool" where
  "less_addr a b \<longleftrightarrow> addr_rank a < addr_rank b"

instance
  by standard (auto simp: less_eq_addr_def less_addr_def intro: addr_rank_inj)

end

end
