(* ===== verification/Dns.thy ===== *)
theory Dns
  imports Netip
begin

text \<open>
  DNS messages as the vendored package \<^verbatim>\<open>github.com/miekg/dns\<close> represents
  them, with the message helpers and name functions the sources call (from
  \<^verbatim>\<open>defaults.go\<close>, \<^verbatim>\<open>edns.go\<close>, \<^verbatim>\<open>msg.go\<close> and the type table of
  \<^verbatim>\<open>ztypes.go\<close>).  16-bit and 32-bit fields are naturals; where the code
  computes on them, the reduction modulo the width is written out.

  The reader of zone-file lines, \<^verbatim>\<open>dns.NewRR\<close>, is a parameter of every
  definition that uses it: a function from the line to a record, to no record,
  or to an error.
\<close>

section \<open>Constants\<close>

abbreviation (input) TypeA :: nat where "TypeA \<equiv> 1"
abbreviation (input) TypeNS :: nat where "TypeNS \<equiv> 2"
abbreviation (input) TypeCNAME :: nat where "TypeCNAME \<equiv> 5"
abbreviation (input) TypeSOA :: nat where "TypeSOA \<equiv> 6"
abbreviation (input) TypePTR :: nat where "TypePTR \<equiv> 12"
abbreviation (input) TypeHINFO :: nat where "TypeHINFO \<equiv> 13"
abbreviation (input) TypeMX :: nat where "TypeMX \<equiv> 15"
abbreviation (input) TypeTXT :: nat where "TypeTXT \<equiv> 16"
abbreviation (input) TypeAAAA :: nat where "TypeAAAA \<equiv> 28"
abbreviation (input) TypeSRV :: nat where "TypeSRV \<equiv> 33"
abbreviation (input) TypeOPT :: nat where "TypeOPT \<equiv> 41"
abbreviation (input) TypeTLSA :: nat where "TypeTLSA \<equiv> 52"
abbreviation (input) TypeSVCB :: nat where "TypeSVCB \<equiv> 64"
abbreviation (input) TypeHTTPS :: nat where "TypeHTTPS \<equiv> 65"
abbreviation (input) TypeCAA :: nat where "TypeCAA \<equiv> 257"
abbreviation (input) TypeANY :: nat where "TypeANY \<equiv> 255"
abbreviation (input) TypeTSIG :: nat where "TypeTSIG \<equiv> 250"

abbreviation (input) ClassINET :: nat where "ClassINET \<equiv> 1"

abbreviation (input) RcodeSuccess :: nat where "RcodeSuccess \<equiv> 0"
abbreviation (input) RcodeFormatError :: nat where "RcodeFormatError \<equiv> 1"
abbreviation (input) RcodeServerFailure :: nat where "RcodeServerFailure \<equiv> 2"
abbreviation (input) RcodeNameError :: nat where "RcodeNameError \<equiv> 3"
abbreviation (input) RcodeNotImplemented :: nat where "RcodeNotImplemented \<equiv> 4"
abbreviation (input) RcodeRefused :: nat where "RcodeRefused \<equiv> 5"

definition TypeToString :: "(nat, string) gomap" where
  "TypeToString =
    [(0, ''None''), (1, ''A''), (2, ''NS''), (3, ''MD''), (4, ''MF''), (5, ''CNAME''),
     (6, ''SOA''), (7, ''MB''), (8, ''MG''), (9, ''MR''), (10, ''NULL''), (12, ''PTR''),
     (13, ''HINFO''), (14, ''MINFO''), (15, ''MX''), (16, ''TXT''), (17, ''RP''),
     (18, ''AFSDB''), (19, ''X25''), (20, ''ISDN''), (21, ''RT''), (23, ''NSAP-PTR''),
     (24, ''SIG''), (25, ''KEY''), (26, ''PX''), (27, ''GPOS''), (28, ''AAAA''), (29, ''LOC''),
     (30, ''NXT''), (31, ''EID''), (32, ''NIMLOC''), (33, ''SRV''), (34, ''ATMA''),
     (35, ''NAPTR''), (36, ''KX''), (37, ''CERT''), (39, ''DNAME''), (41, ''OPT''),
     (42, ''APL''), (43, ''DS''), (44, ''SSHFP''), (45, ''IPSECKEY''), (46, ''RRSIG''),
     (47, ''NSEC''), (48, ''DNSKEY''), (49, ''DHCID''), (50, ''NSEC3''), (51, ''NSEC3PARAM''),
     (52, ''TLSA''), (53, ''SMIMEA''), (55, ''HIP''), (56, ''NINFO''), (57, ''RKEY''),
     (58, ''TALINK''), (59, ''CDS''), (60, ''CDNSKEY''), (61, ''OPENPGPKEY''), (62, ''CSYNC''),
     (63, ''ZONEMD''), (64, ''SVCB''), (65, ''HTTPS''), (99, ''SPF''), (100, ''UINFO''),
     (101, ''UID''), (102, ''GID''), (103, ''UNSPEC''), (104, ''NID''), (105, ''L32''),
     (106, ''L64''), (107, ''LP''), (108, ''EUI48''), (109, ''EUI64''), (128, ''NXNAME''),
     (249, ''TKEY''), (250, ''TSIG''), (251, ''IXFR''), (252, ''AXFR''), (253, ''MAILB''),
     (254, ''MAILA''), (255, ''ANY''), (256, ''URI''), (257, ''CAA''), (258, ''AVC''),
     (260, ''AMTRELAY''), (261, ''RESINFO''), (32768, ''TA''), (32769, ''DLV''),
     (65535, ''Reserved'')]"

definition ClassToString :: "(nat, string) gomap" where
  "ClassToString =
    [(1, ''IN''), (2, ''CS''), (3, ''CH''), (4, ''HS''), (254, ''NONE''), (255, ''ANY'')]"

text \<open>Reading a map of strings at an absent key gives the empty string.\<close>

definition gm_str :: "('k, string) gomap \<Rightarrow> 'k \<Rightarrow> string" where
  "gm_str m k = (case map_of m k of None \<Rightarrow> [] | Some s \<Rightarrow> s)"

section \<open>Records and messages\<close>

text \<open>
  Record data.  An IP field holds a byte slice: four bytes are an
  \<^const>\<open>Addr4\<close>, sixteen an \<^const>\<open>Addr6\<close>, any other length \<^const>\<open>AddrNone\<close>.
  \<open>RD_TSIG\<close> holds the MAC and the fudge of a signature.
  \<open>RD_nil\<close> marks the nil interface value, which a message can hold by mistake.
\<close>

datatype svcb_kv =
    SVCBAlpn "string list"
  | SVCBPort nat
  | SVCBDoHPath string
  | SVCBIPv4Hint "addr list"
  | SVCBIPv6Hint "addr list"

datatype rdata =
    RD_nil
  | RD_A addr
  | RD_AAAA addr
  | RD_CNAME string
  | RD_PTR string
  | RD_SRV nat nat nat string
  | RD_TXT "string list"
  | RD_HINFO string string
  | RD_SOA string string nat nat nat nat nat
  | RD_SVCB nat string "svcb_kv list"
  | RD_OPT "(nat \<times> string) list"
  | RD_TSIG string nat
  | RD_text string

record dns_rr =
  dr_name :: string
  dr_type :: nat
  dr_class :: nat
  dr_ttl :: nat
  dr_data :: rdata

definition nil_rr :: dns_rr where
  "nil_rr = \<lparr>dr_name = [], dr_type = 0, dr_class = 0, dr_ttl = 0, dr_data = RD_nil\<rparr>"

record dns_question =
  q_name :: string
  q_type :: nat
  q_class :: nat

record dns_msg =
  msg_id :: nat
  msg_response :: bool
  msg_opcode :: nat
  msg_aa :: bool
  msg_tc :: bool
  msg_rd :: bool
  msg_ra :: bool
  msg_ad :: bool
  msg_cd :: bool
  msg_rcode :: nat
  msg_question :: "dns_question list"
  msg_answer :: "dns_rr list"
  msg_ns :: "dns_rr list"
  msg_extra :: "dns_rr list"

definition new_msg :: dns_msg where
  "new_msg = \<lparr>msg_id = 0, msg_response = False, msg_opcode = 0, msg_aa = False,
     msg_tc = False, msg_rd = False, msg_ra = False, msg_ad = False, msg_cd = False,
     msg_rcode = 0, msg_question = [], msg_answer = [], msg_ns = [], msg_extra = []\<rparr>"

datatype newrr_result = NewRR_err | NewRR_none | NewRR_rr dns_rr

type_synonym newrr = "string \<Rightarrow> newrr_result"

section \<open>Message helpers\<close>

definition SetReply :: "dns_msg \<Rightarrow> dns_msg \<Rightarrow> dns_msg" where
  "SetReply m req =
     (let m1 = m\<lparr>msg_id := msg_id req, msg_response := True, msg_opcode := msg_opcode req\<rparr>;
          m2 = (if msg_opcode req = 0
                then m1\<lparr>msg_rd := msg_rd req, msg_cd := msg_cd req\<rparr> else m1);
          m3 = m2\<lparr>msg_rcode := RcodeSuccess\<rparr> in
      case msg_question req of
        [] \<Rightarrow> m3
      | q # _ \<Rightarrow> m3\<lparr>msg_question := [q]\<rparr>)"

definition SetRcode :: "dns_msg \<Rightarrow> dns_msg \<Rightarrow> nat \<Rightarrow> dns_msg" where
  "SetRcode m req rc = (SetReply m req)\<lparr>msg_rcode := rc\<rparr>"

definition opt_rr :: "nat \<Rightarrow> bool \<Rightarrow> dns_rr" where
  "opt_rr udpsize doo = \<lparr>dr_name = ''.'', dr_type = TypeOPT, dr_class = udpsize mod 65536,
     dr_ttl = (if doo then 0x8000 else 0), dr_data = RD_OPT []\<rparr>"

definition SetEdns0 :: "dns_msg \<Rightarrow> nat \<Rightarrow> bool \<Rightarrow> dns_msg" where
  "SetEdns0 m udpsize doo = m\<lparr>msg_extra := msg_extra m @ [opt_rr udpsize doo]\<rparr>"

definition IsEdns0 :: "dns_msg \<Rightarrow> dns_rr option" where
  "IsEdns0 m = List.find (\<lambda>r. dr_type r = TypeOPT) (rev (msg_extra m))"

definition opt_udp_size :: "dns_rr \<Rightarrow> nat" where
  "opt_udp_size r = dr_class r"

definition opt_do :: "dns_rr \<Rightarrow> bool" where
  "opt_do r \<longleftrightarrow> odd (dr_ttl r div 0x8000)"

section \<open>Names\<close>

definition IsFqdn :: "string \<Rightarrow> bool" where
  "IsFqdn s =
     (if s = [] \<or> last s \<noteq> CHR ''.'' then False
      else
        (let t = butlast s in
         if t = [] \<or> last t \<noteq> CHR 0x5C then True
         else even (length (takeWhile (\<lambda>c. c = CHR 0x5C) (rev t)))))"

definition Fqdn :: "string \<Rightarrow> string" where
  "Fqdn s = (if IsFqdn s then s else s @ ''.'')"

definition CanonicalName :: "string \<Rightarrow> string" where
  "CanonicalName s = ToLower (Fqdn s)"

definition rev_octets :: "32 word \<Rightarrow> string" where
  "rev_octets w = concat (map (\<lambda>b. Itoa b @ ''.'') (rev (octets4 w)))"

definition nibbles6 :: "128 word \<Rightarrow> nat list" where
  "nibbles6 w = map (\<lambda>i. unat (take_bit 4 (drop_bit (4 * i) w))) (rev [0 ..< 32])"

definition rev_nibbles :: "128 word \<Rightarrow> string" where
  "rev_nibbles w = concat (map (\<lambda>n. [hex_digit n, CHR ''.'']) (rev (nibbles6 w)))"

definition reverse_name :: "addr \<Rightarrow> string option" where
  "reverse_name a =
     (case Unmap a of
        AddrNone \<Rightarrow> None
      | Addr4 w \<Rightarrow> Some (rev_octets w @ ''in-addr.arpa.'')
      | Addr6 w z \<Rightarrow> Some (rev_nibbles w @ ''ip6.arpa.''))"

text \<open>The argument is text; an address with a zone is refused, a v4-mapped one is IPv4.\<close>

definition ReverseAddr :: "string \<Rightarrow> string option" where
  "ReverseAddr s =
     (case ParseAddr s of None \<Rightarrow> None
      | Some a \<Rightarrow> if hasZone a then None else reverse_name a)"

section \<open>Facts\<close>

lemma Fqdn_ends_dot: "HasSuffix (Fqdn s) ''.''"
proof (cases "IsFqdn s")
  case True
  then have "s \<noteq> []" "last s = CHR ''.''"
    by (auto simp: IsFqdn_def split: if_splits)
  then show ?thesis
    using True by (metis Fqdn_def HasSuffix_append append_butlast_last_id)
qed (simp add: Fqdn_def)

lemma SetReply_simps [simp]:
  "msg_answer (SetReply m req) = msg_answer m" "msg_ns (SetReply m req) = msg_ns m"
  "msg_extra (SetReply m req) = msg_extra m" "msg_rcode (SetReply m req) = 0"
  "msg_response (SetReply m req)" "msg_id (SetReply m req) = msg_id req"
  "msg_opcode (SetReply m req) = msg_opcode req" "msg_ra (SetReply m req) = msg_ra m"
  "msg_tc (SetReply m req) = msg_tc m" "msg_aa (SetReply m req) = msg_aa m"
  by (simp_all add: SetReply_def Let_def split: list.splits)

lemma new_msg_simps [simp]:
  "msg_answer new_msg = []" "msg_ns new_msg = []" "msg_extra new_msg = []"
  "msg_question new_msg = []" "\<not> msg_tc new_msg" "\<not> msg_aa new_msg"
  by (simp_all add: new_msg_def)

end
