(* ===== verification/Model.thy ===== *)
theory Model
  imports Dns
begin

text \<open>
  Package \<^verbatim>\<open>internal/model\<close>: the records, zones and views that the control
  plane builds and the resolver reads.  Pointer-valued fields that may be nil
  are options.
\<close>

section \<open>Resource records\<close>

record rr =
  rr_name :: string
  rr_type :: nat
  rr_ttl :: nat
  rr_class :: nat
  rr_content :: string
  rr_priority :: nat
  rr_weight :: nat
  rr_port :: nat
  rr_target :: string
  rr_zone_id :: string
  rr_record_id :: string
  rr_proxied :: bool
  rr_synthetic :: bool
  rr_trusted :: bool

definition zero_rr :: rr where
  "zero_rr = \<lparr>rr_name = [], rr_type = 0, rr_ttl = 0, rr_class = 0, rr_content = [],
     rr_priority = 0, rr_weight = 0, rr_port = 0, rr_target = [], rr_zone_id = [],
     rr_record_id = [], rr_proxied = False, rr_synthetic = False, rr_trusted = False\<rparr>"

definition ensureDot :: "string \<Rightarrow> string" where
  "ensureDot s = (if s = [] \<or> HasSuffix s ''.'' then s else s @ ''.'')"

definition classOrINET :: "nat \<Rightarrow> nat" where
  "classOrINET c = (if c = 0 then ClassINET else c)"

definition RDATA :: "rr \<Rightarrow> string" where
  "RDATA r =
     (if rr_type r = TypeMX then Itoa (rr_priority r) @ '' '' @ ensureDot (rr_target r)
      else if rr_type r = TypeSRV then
        Itoa (rr_priority r) @ '' '' @ Itoa (rr_weight r) @ '' '' @ Itoa (rr_port r) @ '' '' @
        ensureDot (rr_target r)
      else rr_content r)"

definition rr_line :: "rr \<Rightarrow> string" where
  "rr_line r =
     ensureDot (rr_name r) @ '' '' @ Itoa (rr_ttl r) @ '' '' @
     gm_str ClassToString (classOrINET (rr_class r)) @ '' '' @
     gm_str TypeToString (rr_type r) @ '' '' @ RDATA r"

text \<open>The two error cases of the source (a parse error, a line with no record) are both None.\<close>

definition ToMiekg :: "newrr \<Rightarrow> rr \<Rightarrow> dns_rr option" where
  "ToMiekg newRR r =
     (case newRR (rr_line r) of
        NewRR_err \<Rightarrow> None
      | NewRR_none \<Rightarrow> None
      | NewRR_rr d \<Rightarrow> Some d)"

text \<open>
  A float64: its finite values are rationals.  The conversion to uint16 is only
  reached for values in range, where it drops the fraction.
\<close>

datatype go_float = FNaN | FPosInf | FNegInf | FFin rat

definition CoercePriority :: "go_float \<Rightarrow> nat option" where
  "CoercePriority f =
     (case f of
        FNaN \<Rightarrow> None
      | FPosInf \<Rightarrow> None
      | FNegInf \<Rightarrow> None
      | FFin x \<Rightarrow>
          if x < 0 \<or> x > 65535 then None
          else if x \<noteq> of_nat (nat \<lfloor>x\<rfloor>) then None
          else Some (nat \<lfloor>x\<rfloor>))"

definition ParseUint :: "string \<Rightarrow> nat \<Rightarrow> nat option" where
  "ParseUint s bits =
     (case AtoiU s of None \<Rightarrow> None | Some n \<Rightarrow> if n < 2 ^ bits then Some n else None)"

datatype srv_error = SRVShape | SRVWeight | SRVPort

definition ParseSRVContent :: "string \<Rightarrow> srv_error + nat \<times> nat \<times> string" where
  "ParseSRVContent content =
     (case Fields content of
        [f0, f1, f2] \<Rightarrow>
          (case ParseUint f0 16 of
             None \<Rightarrow> Inl SRVWeight
           | Some w \<Rightarrow>
               (case ParseUint f1 16 of
                  None \<Rightarrow> Inl SRVPort
                | Some p \<Rightarrow> Inr (w, p, ensureDot f2)))
      | _ \<Rightarrow> Inl SRVShape)"

section \<open>Zones, snapshots, views\<close>

type_synonym rrsets = "(nat, rr list) gomap"

record zone =
  z_id :: string
  z_apex :: string
  z_ns :: "rr list"
  z_soa :: rr
  z_records :: "(string, rrsets) gomap"
  z_wildcards :: rrsets
  z_ent :: "(string, bool) gomap"
  z_tunnel :: "(string, rrsets) gomap"
  z_serial :: nat
  z_synthetic_stale :: bool
  z_stale :: bool

record stub_zone =
  sz_apex :: string
  sz_target :: "(addr \<times> nat) list"

record rev_zone =
  rz_apex :: string
  rz_soa :: rr

record ddr_endpoint =
  de_port :: nat
  de_path :: string

record ddr_advert =
  ddr_adn :: string
  ddr_v4 :: "addr list"
  ddr_v6 :: "addr list"
  ddr_dot :: "ddr_endpoint option"
  ddr_doh :: "ddr_endpoint option"

record snapshot =
  s_zones :: "(string, zone) gomap"
  s_stubs :: "(string, stub_zone) gomap"
  s_reverse :: "(string, rev_zone) gomap"
  s_vhosts :: "(string, bool) gomap"
  s_excluded :: "(string, bool) gomap"
  s_static :: "(string, rr list) gomap"
  s_ddns :: "(string, bool) gomap"
  s_local_domain :: string
  s_serve_dnssd :: bool
  s_allow_suffix :: "string list"
  s_built_at :: "time option"
  s_cf_healthy :: bool
  s_vhost4 :: addr
  s_vhost6 :: addr
  s_ddr :: "ddr_advert option"

record mdns_service =
  ms_type :: string
  ms_port :: nat
  ms_text :: "string list"

record mdns_view =
  v_forward :: "(string, rr list) gomap"
  v_reverse :: "(string, rr list) gomap"
  v_services :: "(string, mdns_service list) gomap"
  v_info :: "(string, string) gomap"
  v_built_at :: "time option"

text \<open>Membership in a Go set: an absent key reads as false.\<close>

definition gm_true :: "('k, bool) gomap \<Rightarrow> 'k \<Rightarrow> bool" where
  "gm_true m k \<longleftrightarrow> map_of m k = Some True"

text \<open>Indexing a map of maps of lists; absent keys give the nil map and the nil slice.\<close>

definition rrsets_at :: "(string, rrsets) gomap \<Rightarrow> string \<Rightarrow> rrsets" where
  "rrsets_at m o' = (case map_of m o' of None \<Rightarrow> [] | Some s \<Rightarrow> s)"

definition rrset_at :: "(string, rrsets) gomap \<Rightarrow> string \<Rightarrow> nat \<Rightarrow> rr list" where
  "rrset_at m o' t = gm_list (rrsets_at m o') t"

section \<open>Facts\<close>

lemma ensureDot_idem [simp]: "ensureDot (ensureDot s) = ensureDot s"
  by (simp add: ensureDot_def)

lemma CoercePriority_some:
  "CoercePriority f = Some n \<longleftrightarrow> f = FFin (of_nat n) \<and> n \<le> 65535"
proof
  assume a: "CoercePriority f = Some n"
  then obtain x where x: "f = FFin x" "0 \<le> x" "x \<le> 65535" "x = of_nat (nat \<lfloor>x\<rfloor>)" "n = nat \<lfloor>x\<rfloor>"
    by (auto simp: CoercePriority_def not_less split: go_float.splits if_splits)
  then have "f = FFin (of_nat n)" "(of_nat n :: rat) \<le> of_nat 65535"
    by auto
  then show "f = FFin (of_nat n) \<and> n \<le> 65535"
    by (simp only: of_nat_le_iff)
next
  assume a: "f = FFin (of_nat n) \<and> n \<le> 65535"
  then have "(of_nat n :: rat) \<le> of_nat 65535"
    by (simp only: of_nat_le_iff)
  with a show "CoercePriority f = Some n"
    by (simp add: CoercePriority_def not_less)
qed

lemma ParseUint_Itoa: "n < 2 ^ b \<Longrightarrow> ParseUint (Itoa n) b = Some n"
  by (simp add: ParseUint_def)

end
