(* ===== verification/Zone.thy ===== *)
theory Zone
  imports Model
begin

text \<open>
  Package \<^verbatim>\<open>internal/resolver\<close>, files \<^verbatim>\<open>helpers.go\<close> and \<^verbatim>\<open>zone.go\<close>: reply
  skeletons, label-aligned suffix matching, negative answers, and the
  authoritative answer of a mirrored zone with wildcards, flattened tunnel
  addresses and in-zone CNAME chasing.  The code updates the reply in place; here
  each step returns the updated reply.  The parameter \<open>newRR\<close> is the zone-line
  reader of the DNS library.
\<close>

section \<open>Replies\<close>

definition reply :: "dns_msg \<Rightarrow> dns_msg" where
  "reply req = (SetReply new_msg req)\<lparr>msg_ra := True\<rparr>"

definition errReply :: "dns_msg \<Rightarrow> nat \<Rightarrow> dns_msg" where
  "errReply req rcode = SetRcode new_msg req rcode"

definition append_answer :: "dns_msg \<Rightarrow> dns_rr list \<Rightarrow> dns_msg" where
  "append_answer resp rrs = resp\<lparr>msg_answer := msg_answer resp @ rrs\<rparr>"

section \<open>Names\<close>

definition isArpa :: "string \<Rightarrow> bool" where
  "isArpa name \<longleftrightarrow> HasSuffix name ''.in-addr.arpa.'' \<or> HasSuffix name ''.ip6.arpa.''"

definition isSuffixLabel :: "string \<Rightarrow> string \<Rightarrow> bool" where
  "isSuffixLabel name apex = (if name = apex then True else HasSuffix name (''.'' @ apex))"

definition longestZoneSuffix :: "string \<Rightarrow> (string, zone) gomap \<Rightarrow> string" where
  "longestZoneSuffix name zones =
     fold (\<lambda>(apex, _) best.
        if isSuffixLabel name apex \<and> length apex > length best then apex else best) zones []"

definition longestReverseZone :: "string \<Rightarrow> (string, rev_zone) gomap \<Rightarrow> rev_zone option" where
  "longestReverseZone name rz =
     fst (fold (\<lambda>(apex, z) (best, bestLen).
        if isSuffixLabel name apex \<and> length apex > bestLen then (Some z, length apex)
        else (best, bestLen)) rz (None, 0))"

definition relativeOwner :: "string \<Rightarrow> string \<Rightarrow> string" where
  "relativeOwner name apex =
     (if name = apex then [] else TrimSuffix (TrimSuffix name apex) ''.'')"

definition labelCount :: "string \<Rightarrow> nat" where
  "labelCount owner = (if owner = [] then 0 else CountByte owner (CHR ''.'') + 1)"

section \<open>Rendering records\<close>

definition toRR :: "newrr \<Rightarrow> rr \<Rightarrow> string \<Rightarrow> dns_rr option" where
  "toRR newRR r name = ToMiekg newRR (r\<lparr>rr_name := Fqdn name\<rparr>)"

definition addrRR :: "newrr \<Rightarrow> string \<Rightarrow> nat \<Rightarrow> string \<Rightarrow> nat \<Rightarrow> dns_rr option" where
  "addrRR newRR name qtype content ttl =
     ToMiekg newRR (zero_rr\<lparr>rr_name := Fqdn name, rr_type := qtype, rr_class := ClassINET,
       rr_ttl := ttl, rr_content := content\<rparr>)"

fun matching :: "newrr \<Rightarrow> rr list \<Rightarrow> string \<Rightarrow> nat \<Rightarrow> dns_rr list" where
  "matching newRR [] name qtype = []"
| "matching newRR (r # rs) name qtype =
     (if qtype \<noteq> TypeANY \<and> rr_type r \<noteq> qtype then matching newRR rs name qtype
      else (case toRR newRR r name of
          None \<Rightarrow> matching newRR rs name qtype
        | Some d \<Rightarrow> d # matching newRR rs name qtype))"

text \<open>The updated reply, and whether any record was added.\<close>

definition appendMatching ::
  "newrr \<Rightarrow> dns_msg \<Rightarrow> rr list \<Rightarrow> string \<Rightarrow> nat \<Rightarrow> dns_msg \<times> bool" where
  "appendMatching newRR resp recs name qtype =
     (let ms = matching newRR recs name qtype in (append_answer resp ms, ms \<noteq> []))"

definition soaMinimum :: "rr \<Rightarrow> nat" where
  "soaMinimum soa =
     (let fields = Fields (rr_content soa) in
      if length fields < 7 then 0
      else (case ParseUint (last fields) 32 of None \<Rightarrow> 0 | Some n \<Rightarrow> n))"

definition negTTL :: "rr \<Rightarrow> nat" where
  "negTTL soa =
     (let m = soaMinimum soa in if m > 0 \<and> m < rr_ttl soa then m else rr_ttl soa)"

definition setNegativeSOA :: "newrr \<Rightarrow> dns_msg \<Rightarrow> rr \<Rightarrow> string \<Rightarrow> nat \<Rightarrow> dns_msg" where
  "setNegativeSOA newRR resp0 soa apex rcode =
     (let resp = resp0\<lparr>msg_rcode := rcode\<rparr> in
      if rr_content soa = [] \<and> rr_target soa = [] then resp
      else (case ToMiekg newRR (soa\<lparr>rr_name := Fqdn apex, rr_ttl := negTTL soa\<rparr>) of
          None \<Rightarrow> resp
        | Some d \<Rightarrow> resp\<lparr>msg_ns := msg_ns resp @ [d]\<rparr>))"

section \<open>The authoritative answer\<close>

abbreviation (input) maxCNAMEChain :: nat where "maxCNAMEChain \<equiv> 8"

definition targetOf :: "rr \<Rightarrow> string" where
  "targetOf r = (if rr_target r \<noteq> [] then Fqdn (rr_target r) else Fqdn (rr_content r))"

text \<open>Every record set of a map but those of a skipped type, appended in iteration order.\<close>

definition append_sets ::
  "newrr \<Rightarrow> (nat \<Rightarrow> bool) \<Rightarrow> string \<Rightarrow> rrsets \<Rightarrow> dns_msg \<Rightarrow> dns_msg" where
  "append_sets newRR skip name sets resp =
     fold (\<lambda>(t, rrs) rsp. if skip t then rsp else fst (appendMatching newRR rsp rrs name t)) sets resp"

definition wildcardOrNX :: "newrr \<Rightarrow> dns_msg \<Rightarrow> zone \<Rightarrow> string \<Rightarrow> nat \<Rightarrow> dns_msg" where
  "wildcardOrNX newRR resp zone name qtype =
     (let wt = rrsets_at (z_tunnel zone) ''*''; wc = z_wildcards zone in
      if qtype = TypeANY then
        (if wc = [] \<and> wt = [] then
           setNegativeSOA newRR resp (z_soa zone) (z_apex zone) RcodeNameError
         else
           append_sets newRR (\<lambda>_. False) name wt
             (append_sets newRR (\<lambda>t. t = TypeCNAME \<and> wt \<noteq> []) name wc resp))
      else if (qtype = TypeA \<or> qtype = TypeAAAA) \<and> gm_list wt qtype \<noteq> [] then
        fst (appendMatching newRR resp (gm_list wt qtype) name qtype)
      else if gm_list wc qtype \<noteq> [] then
        fst (appendMatching newRR resp (gm_list wc qtype) name qtype)
      else if wc \<noteq> [] \<or> wt \<noteq> [] then
        setNegativeSOA newRR resp (z_soa zone) (z_apex zone) RcodeSuccess
      else setNegativeSOA newRR resp (z_soa zone) (z_apex zone) RcodeNameError)"

text \<open>
  The chase recurses with the depth counted up to the guard; the measure is the
  distance to the guard.
\<close>

function chaseCNAME ::
  "newrr \<Rightarrow> dns_msg \<Rightarrow> zone \<Rightarrow> string \<Rightarrow> string \<Rightarrow> nat \<Rightarrow> nat \<Rightarrow> dns_msg" where
  "chaseCNAME newRR resp zone owner name qtype depth =
     (if depth > maxCNAMEChain then resp
      else
        (case rrset_at (z_records zone) owner TypeCNAME of
           [] \<Rightarrow> resp
         | c # cs \<Rightarrow>
             (let resp1 = fst (appendMatching newRR resp (c # cs) name TypeCNAME);
                  target = targetOf c in
              if \<not> isSuffixLabel target (z_apex zone) then resp1
              else
                (let tOwner = relativeOwner target (z_apex zone);
                     rrs = rrset_at (z_records zone) tOwner qtype;
                     tun = rrset_at (z_tunnel zone) tOwner qtype in
                 if rrs \<noteq> [] then fst (appendMatching newRR resp1 rrs target qtype)
                 else if (qtype = TypeA \<or> qtype = TypeAAAA) \<and> tun \<noteq> [] then
                   fst (appendMatching newRR resp1 tun target qtype)
                 else if rrset_at (z_records zone) tOwner TypeCNAME \<noteq> [] then
                   chaseCNAME newRR resp1 zone tOwner target qtype (depth + 1)
                 else resp1))))"
  by pat_completeness auto
termination
  by (relation "measure (\<lambda>(_, _, _, _, _, _, depth). 9 - depth)") auto

declare chaseCNAME.simps [simp del]

definition answerAuthoritative ::
  "newrr \<Rightarrow> dns_msg \<Rightarrow> zone option \<Rightarrow> string \<Rightarrow> string \<Rightarrow> nat \<Rightarrow> dns_msg" where
  "answerAuthoritative newRR req zo name owner qtype =
     (let resp = (reply req)\<lparr>msg_aa := True\<rparr> in
      case zo of
        None \<Rightarrow> resp\<lparr>msg_rcode := RcodeServerFailure\<rparr>
      | Some zone \<Rightarrow>
          (let orecs = rrsets_at (z_records zone) owner;
               tunnel = rrsets_at (z_tunnel zone) owner;
               exactExists = (gm_has (z_records zone) owner \<or> gm_has (z_tunnel zone) owner);
               isENT = gm_true (z_ent zone) owner;
               cn = gm_list orecs TypeCNAME;
               nodata = setNegativeSOA newRR resp (z_soa zone) (z_apex zone) RcodeSuccess in
           if qtype = TypeCNAME then
             (if cn \<noteq> [] then fst (appendMatching newRR resp cn name TypeCNAME)
              else if exactExists \<or> isENT then nodata
              else wildcardOrNX newRR resp zone name qtype)
           else if qtype = TypeA \<or> qtype = TypeAAAA then
             (if gm_list orecs qtype \<noteq> [] then
                fst (appendMatching newRR resp (gm_list orecs qtype) name qtype)
              else if gm_list tunnel qtype \<noteq> [] then
                fst (appendMatching newRR resp (gm_list tunnel qtype) name qtype)
              else if cn \<noteq> [] then chaseCNAME newRR resp zone owner name qtype 0
              else if exactExists \<or> isENT then nodata
              else wildcardOrNX newRR resp zone name qtype)
           else if qtype = TypeANY \<and> exactExists then
             append_sets newRR (\<lambda>_. False) name tunnel
               (append_sets newRR (\<lambda>t. t = TypeCNAME \<and> gm_has (z_tunnel zone) owner) name orecs resp)
           else
             (if gm_list orecs qtype \<noteq> [] then
                fst (appendMatching newRR resp (gm_list orecs qtype) name qtype)
              else if owner \<noteq> [] \<and> cn \<noteq> [] then chaseCNAME newRR resp zone owner name qtype 0
              else if exactExists \<or> isENT then nodata
              else wildcardOrNX newRR resp zone name qtype)))"

section \<open>Label-aligned suffixes\<close>

lemma isSuffixLabel_iff:
  "isSuffixLabel name apex \<longleftrightarrow> name = apex \<or> (\<exists>x. name = x @ ''.'' @ apex)"
  by (auto simp: isSuffixLabel_def HasSuffix_def suffix_def)

lemma isSuffixLabel_suffix: "isSuffixLabel name apex \<Longrightarrow> HasSuffix name apex"
  by (auto simp: isSuffixLabel_iff HasSuffix_def suffix_def)

lemma isSuffixLabel_refl [simp]: "isSuffixLabel a a"
  by (simp add: isSuffixLabel_def)

lemma isSuffixLabel_trans:
  "isSuffixLabel a b \<Longrightarrow> isSuffixLabel b c \<Longrightarrow> isSuffixLabel a c"
  unfolding isSuffixLabel_iff by (metis append.assoc)

lemma relativeOwner_self [simp]: "relativeOwner a a = []"
  by (simp add: relativeOwner_def)

lemma relativeOwner_sub [simp]: "relativeOwner (x @ ''.'' @ apex) apex = x"
proof -
  have "TrimSuffix ((x @ ''.'') @ apex) apex = x @ ''.''"
    by (rule TrimSuffix_append)
  then show ?thesis
    by (simp add: relativeOwner_def)
qed

lemma relativeOwner_decomp:
  "isSuffixLabel name apex \<Longrightarrow> name \<noteq> apex \<Longrightarrow> name = relativeOwner name apex @ ''.'' @ apex"
  by (metis isSuffixLabel_iff relativeOwner_sub)

section \<open>Longest match\<close>

locale longest_suffix =
  fixes apexes :: "'t \<Rightarrow> string list"
    and pick :: "string \<Rightarrow> 't \<Rightarrow> string"
  assumes pick_match: "pick n t \<noteq> [] \<Longrightarrow> pick n t \<in> set (apexes t) \<and> isSuffixLabel n (pick n t)"
    and pick_longest: "a \<in> set (apexes t) \<Longrightarrow> isSuffixLabel n a \<Longrightarrow> length a \<le> length (pick n t)"
begin

lemma pick_unique:
  assumes "set (apexes t) = set (apexes t')"
  shows "pick n t = pick n t'"
proof (cases "pick n t = []")
  case True
  then have "pick n t' = []"
    using assms pick_match [of n t'] pick_longest [of "pick n t'" t n] by auto
  with True show ?thesis by simp
next
  case False
  then have m: "pick n t \<in> set (apexes t')" "isSuffixLabel n (pick n t)"
    using pick_match assms by auto
  then have le: "length (pick n t) \<le> length (pick n t')"
    by (rule pick_longest)
  then have ne: "pick n t' \<noteq> []"
    using False by auto
  then have m': "pick n t' \<in> set (apexes t)" "isSuffixLabel n (pick n t')"
    using pick_match assms by auto
  then have "length (pick n t') \<le> length (pick n t)"
    by (rule pick_longest)
  with le m m' show ?thesis
    by (meson HasSuffix_same_length isSuffixLabel_suffix le_antisym)
qed

lemma pick_none: "pick n t = [] \<longleftrightarrow> (\<forall>a \<in> set (apexes t). isSuffixLabel n a \<longrightarrow> a = [])"
  using pick_match pick_longest by (metis le_zero_eq length_0_conv)

lemma pick_covers:
  assumes "pick n t \<noteq> []" "a \<in> set (apexes t)" "isSuffixLabel n a"
  shows "HasSuffix (pick n t) a"
  using assms by (meson HasSuffix_comparable isSuffixLabel_suffix pick_longest pick_match)

end

text \<open>The common loop over the keys of a map.\<close>

definition longest_key :: "string \<Rightarrow> string list \<Rightarrow> string \<Rightarrow> string" where
  "longest_key name ks best =
     fold (\<lambda>apex best. if isSuffixLabel name apex \<and> length apex > length best then apex else best) ks best"

lemma longest_key_simps [simp]:
  "longest_key n [] b = b"
  "longest_key n (k # ks) b =
     longest_key n ks (if isSuffixLabel n k \<and> length k > length b then k else b)"
  by (simp_all add: longest_key_def)

lemma longest_key_ge: "length b \<le> length (longest_key n ks b)"
proof (induction ks arbitrary: b)
  case (Cons k ks)
  show ?case
    using Cons.IH [of k] Cons.IH [of b] by simp
qed simp

lemma longest_key_longest: "a \<in> set ks \<Longrightarrow> isSuffixLabel n a \<Longrightarrow> length a \<le> length (longest_key n ks b)"
proof (induction ks arbitrary: b)
  case (Cons k ks)
  then show ?case
    using longest_key_ge [of k n ks] longest_key_ge [of b n ks] by (auto split: if_splits)
qed simp

lemma longest_key_match:
  "longest_key n ks b = b \<or> (longest_key n ks b \<in> set ks \<and> isSuffixLabel n (longest_key n ks b))"
proof (induction ks arbitrary: b)
  case (Cons k ks)
  show ?case
    using Cons.IH [of k] Cons.IH [of b] by auto
qed simp

lemma longestZoneSuffix_key: "longestZoneSuffix name zones = longest_key name (map fst zones) []"
  by (simp add: longestZoneSuffix_def longest_key_def fold_map comp_def case_prod_unfold)

interpretation lz: longest_suffix "map fst" longestZoneSuffix
proof
  fix n a :: string and t :: "(string, zone) gomap"
  show "longestZoneSuffix n t \<noteq> [] \<Longrightarrow>
    longestZoneSuffix n t \<in> set (map fst t) \<and> isSuffixLabel n (longestZoneSuffix n t)"
    unfolding longestZoneSuffix_key using longest_key_match [of n "map fst t" "[]"] by auto
  show "a \<in> set (map fst t) \<Longrightarrow> isSuffixLabel n a \<Longrightarrow> length a \<le> length (longestZoneSuffix n t)"
    unfolding longestZoneSuffix_key by (rule longest_key_longest)
qed

lemma reverse_loop_key:
  assumes "gm_ok m" "set rz \<subseteq> set m"
    "acc = (if b = [] then None else map_of m b, length b)"
  shows "fst (fold (\<lambda>(apex, z) (best, bestLen).
        if isSuffixLabel name apex \<and> length apex > bestLen then (Some z, length apex)
        else (best, bestLen)) rz acc) =
     (let k = longest_key name (map fst rz) b in if k = [] then None else map_of m k)"
  using assms(2,3)
proof (induction rz arbitrary: acc b)
  case Nil
  then show ?case by simp
next
  case (Cons p rz)
  obtain k z where p: "p = (k, z)" by (cases p)
  then have "map_of m k = Some z"
    using Cons.prems assms(1) by (simp add: gm_ok_def)
  then show ?case
    using Cons.prems p Cons.IH [of "(Some z, length k)" k] Cons.IH [of acc b]
    by (cases "k = []") (auto simp: Let_def simp del: longest_key_simps(1))
qed

lemma longestReverseZone_key:
  assumes "gm_ok rz"
  shows "longestReverseZone name rz =
     (let k = longest_key name (map fst rz) [] in if k = [] then None else map_of rz k)"
  unfolding longestReverseZone_def
  by (rule reverse_loop_key) (use assms in auto)

section \<open>What the steps leave alone\<close>

lemma append_answer_simps [simp]:
  "msg_answer (append_answer m xs) = msg_answer m @ xs"
  "msg_rcode (append_answer m xs) = msg_rcode m" "msg_ns (append_answer m xs) = msg_ns m"
  "msg_aa (append_answer m xs) = msg_aa m" "msg_extra (append_answer m xs) = msg_extra m"
  "msg_question (append_answer m xs) = msg_question m" "msg_id (append_answer m xs) = msg_id m"
  "msg_response (append_answer m xs) = msg_response m" "msg_tc (append_answer m xs) = msg_tc m"
  "append_answer m [] = m"
  "append_answer (append_answer m xs) ys = append_answer m (xs @ ys)"
  by (simp_all add: append_answer_def)

lemma appendMatching_fst [simp]:
  "fst (appendMatching newRR resp recs name qtype) = append_answer resp (matching newRR recs name qtype)"
  by (simp add: appendMatching_def Let_def)

lemma appendMatching_snd [simp]:
  "snd (appendMatching newRR resp recs name qtype) \<longleftrightarrow> matching newRR recs name qtype \<noteq> []"
  by (simp add: appendMatching_def Let_def)

lemma matching_set:
  "d \<in> set (matching newRR recs name qtype) \<longleftrightarrow>
     (\<exists>r \<in> set recs. (qtype = TypeANY \<or> rr_type r = qtype) \<and> toRR newRR r name = Some d)"
  by (induction recs) (auto split: option.splits)

lemma matching_map_filter:
  "matching newRR recs name qtype =
     List.map_filter (\<lambda>r. toRR newRR r name)
       (filter (\<lambda>r. qtype = TypeANY \<or> rr_type r = qtype) recs)"
  by (induction recs) (auto simp: map_filter_simps split: option.splits)

definition set_rrs :: "newrr \<Rightarrow> (nat \<Rightarrow> bool) \<Rightarrow> string \<Rightarrow> rrsets \<Rightarrow> dns_rr list" where
  "set_rrs newRR skip name sets =
     concat (map (\<lambda>(t, rrs). if skip t then [] else matching newRR rrs name t) sets)"

lemma append_sets_answer:
  "append_sets newRR skip name sets resp = append_answer resp (set_rrs newRR skip name sets)"
  by (induction sets arbitrary: resp) (auto simp: append_sets_def set_rrs_def)

lemma setNegativeSOA_simps [simp]:
  "msg_rcode (setNegativeSOA newRR resp soa apex rc) = rc"
  "msg_answer (setNegativeSOA newRR resp soa apex rc) = msg_answer resp"
  "msg_aa (setNegativeSOA newRR resp soa apex rc) = msg_aa resp"
  "msg_extra (setNegativeSOA newRR resp soa apex rc) = msg_extra resp"
  "msg_id (setNegativeSOA newRR resp soa apex rc) = msg_id resp"
  "msg_question (setNegativeSOA newRR resp soa apex rc) = msg_question resp"
  "msg_response (setNegativeSOA newRR resp soa apex rc) = msg_response resp"
  by (auto simp: setNegativeSOA_def Let_def split: option.splits)

lemma reply_simps [simp]:
  "msg_rcode (reply req) = 0" "msg_answer (reply req) = []" "msg_ns (reply req) = []"
  "msg_extra (reply req) = []" "msg_ra (reply req)" "msg_response (reply req)"
  "msg_id (reply req) = msg_id req" "\<not> msg_aa (reply req)"
  by (simp_all add: reply_def)

section \<open>CNAME chains\<close>

text \<open>
  The chain of a name as RFC 1034 has it, without a bound: the record sets to
  answer with, each with the name that owns it and its type; the number counts
  the CNAME sets.
\<close>

inductive cname_chain ::
  "zone \<Rightarrow> nat \<Rightarrow> nat \<Rightarrow> string \<Rightarrow> string \<Rightarrow> (string \<times> rr list \<times> nat) list \<Rightarrow> bool"
  for zone qtype where
  no_cname: "rrset_at (z_records zone) owner TypeCNAME = [] \<Longrightarrow> cname_chain zone qtype 0 owner name []"
| out_of_zone: "\<lbrakk>rrset_at (z_records zone) owner TypeCNAME = c # cs;
     \<not> isSuffixLabel (targetOf c) (z_apex zone)\<rbrakk>
   \<Longrightarrow> cname_chain zone qtype 1 owner name [(name, c # cs, TypeCNAME)]"
| records: "\<lbrakk>rrset_at (z_records zone) owner TypeCNAME = c # cs;
     isSuffixLabel (targetOf c) (z_apex zone);
     rrset_at (z_records zone) (relativeOwner (targetOf c) (z_apex zone)) qtype = rrs; rrs \<noteq> []\<rbrakk>
   \<Longrightarrow> cname_chain zone qtype 1 owner name [(name, c # cs, TypeCNAME), (targetOf c, rrs, qtype)]"
| tunnel: "\<lbrakk>rrset_at (z_records zone) owner TypeCNAME = c # cs;
     isSuffixLabel (targetOf c) (z_apex zone);
     rrset_at (z_records zone) (relativeOwner (targetOf c) (z_apex zone)) qtype = [];
     qtype = TypeA \<or> qtype = TypeAAAA;
     rrset_at (z_tunnel zone) (relativeOwner (targetOf c) (z_apex zone)) qtype = rrs; rrs \<noteq> []\<rbrakk>
   \<Longrightarrow> cname_chain zone qtype 1 owner name [(name, c # cs, TypeCNAME), (targetOf c, rrs, qtype)]"
| hop: "\<lbrakk>rrset_at (z_records zone) owner TypeCNAME = c # cs;
     isSuffixLabel (targetOf c) (z_apex zone);
     rrset_at (z_records zone) (relativeOwner (targetOf c) (z_apex zone)) qtype = [];
     \<not> ((qtype = TypeA \<or> qtype = TypeAAAA) \<and>
        rrset_at (z_tunnel zone) (relativeOwner (targetOf c) (z_apex zone)) qtype \<noteq> []);
     cname_chain zone qtype k (relativeOwner (targetOf c) (z_apex zone)) (targetOf c) segs\<rbrakk>
   \<Longrightarrow> cname_chain zone qtype (Suc k) owner name ((name, c # cs, TypeCNAME) # segs)"

definition render_seg :: "newrr \<Rightarrow> string \<times> rr list \<times> nat \<Rightarrow> dns_rr list" where
  "render_seg newRR seg = (case seg of (name, rrs, t) \<Rightarrow> matching newRR rrs name t)"

lemma render_seg_simp [simp]: "render_seg newRR (name, rrs, t) = matching newRR rrs name t"
  by (simp add: render_seg_def)

lemma chase_no_cname:
  "rrset_at (z_records zone) owner TypeCNAME = [] \<Longrightarrow>
   chaseCNAME newRR resp zone owner name qtype depth = resp"
  by (subst chaseCNAME.simps) simp

lemma chase_complete:
  assumes "cname_chain zone qtype k owner name segs" "k + depth \<le> 9"
  shows "chaseCNAME newRR resp zone owner name qtype depth =
    append_answer resp (concat (map (render_seg newRR) segs))"
  using assms
proof (induction arbitrary: resp depth rule: cname_chain.induct)
  case (hop owner c cs k segs name)
  then have ih: "chaseCNAME newRR r zone (relativeOwner (targetOf c) (z_apex zone)) (targetOf c) qtype
      (depth + 1) = append_answer r (concat (map (render_seg newRR) segs))" for r
    by simp
  have "rrset_at (z_records zone) (relativeOwner (targetOf c) (z_apex zone)) TypeCNAME = [] \<Longrightarrow> segs = []"
    using hop.hyps(5) by (auto elim: cname_chain.cases)
  then show ?case
    using hop.hyps(1-4) hop.prems ih
    by (subst chaseCNAME.simps) (auto simp: Let_def simp del: matching.simps)
qed (subst chaseCNAME.simps; auto simp: Let_def chase_no_cname simp del: matching.simps)+

text \<open>With or without an end, the chase adds at most nine CNAME sets and one terminal set.\<close>

lemma chase_segments:
  "\<exists>segs. chaseCNAME newRR resp zone owner name qtype depth =
      append_answer resp (concat (map (render_seg newRR) segs)) \<and> length segs \<le> 10 - depth"
proof (induction "9 - depth" arbitrary: resp owner name depth rule: less_induct)
  case less
  show ?case
  proof (cases "depth > 8 \<or> rrset_at (z_records zone) owner TypeCNAME = []")
    case True
    then show ?thesis
      by (subst chaseCNAME.simps) (auto intro!: exI [of _ "[]"])
  next
    case False
    then obtain c cs where cn: "rrset_at (z_records zone) owner TypeCNAME = c # cs" and d: "depth \<le> 8"
      by (cases "rrset_at (z_records zone) owner TypeCNAME") auto
    let ?to = "relativeOwner (targetOf c) (z_apex zone)"
    let ?seg = "(name, c # cs, 5 :: nat)"
    have lt: "9 - (depth + 1) < 9 - depth"
      using d by linarith
    obtain segs where segs: "length segs \<le> 10 - (depth + 1)"
      "chaseCNAME newRR (append_answer resp (render_seg newRR ?seg)) zone ?to (targetOf c) qtype (depth + 1) =
       append_answer (append_answer resp (render_seg newRR ?seg)) (concat (map (render_seg newRR) segs))"
      using less [OF lt, of "append_answer resp (render_seg newRR ?seg)" ?to "targetOf c"]
      by (auto simp del: matching.simps render_seg_simp)
    let ?rs = "(targetOf c, rrset_at (z_records zone) ?to qtype, qtype)"
    let ?ts = "(targetOf c, rrset_at (z_tunnel zone) ?to qtype, qtype)"
    have "\<exists>xs \<in> {[?seg], [?seg, ?rs], [?seg, ?ts], ?seg # segs}.
       chaseCNAME newRR resp zone owner name qtype depth =
         append_answer resp (concat (map (render_seg newRR) xs))"
      using cn d segs(2) by (subst chaseCNAME.simps) (simp add: Let_def del: matching.simps)
    moreover have "\<forall>xs \<in> {[?seg], [?seg, ?rs], [?seg, ?ts], ?seg # segs}. length xs \<le> 10 - depth"
      using segs(1) d by auto
    ultimately show ?thesis
      by (meson)
  qed
qed

lemma chase_head [simp]:
  "msg_rcode (chaseCNAME newRR resp zone owner name qtype depth) = msg_rcode resp"
  "msg_aa (chaseCNAME newRR resp zone owner name qtype depth) = msg_aa resp"
  "msg_extra (chaseCNAME newRR resp zone owner name qtype depth) = msg_extra resp"
  "msg_id (chaseCNAME newRR resp zone owner name qtype depth) = msg_id resp"
  "msg_response (chaseCNAME newRR resp zone owner name qtype depth) = msg_response resp"
  "msg_question (chaseCNAME newRR resp zone owner name qtype depth) = msg_question resp"
  using chase_segments [of newRR resp zone owner name qtype depth] by auto

section \<open>Existence of names\<close>

definition name_exists :: "zone \<Rightarrow> string \<Rightarrow> bool" where
  "name_exists zone owner \<longleftrightarrow>
     gm_has (z_records zone) owner \<or> gm_has (z_tunnel zone) owner \<or> gm_true (z_ent zone) owner"

definition has_wildcard :: "zone \<Rightarrow> bool" where
  "has_wildcard zone \<longleftrightarrow> z_wildcards zone \<noteq> [] \<or> rrsets_at (z_tunnel zone) ''*'' \<noteq> []"

lemma gm_list_Nil [simp]: "gm_list [] k = []"
  by (simp add: gm_list_def)

lemma rrsets_at_exists: "rrsets_at m owner \<noteq> [] \<Longrightarrow> gm_has m owner"
  by (auto simp: rrsets_at_def gm_has_def split: option.splits)

lemma wildcard_rcode:
  "msg_rcode resp = RcodeSuccess \<Longrightarrow>
   msg_rcode (wildcardOrNX newRR resp zone name qtype) =
     (if has_wildcard zone then RcodeSuccess else RcodeNameError)"
  by (auto simp: wildcardOrNX_def Let_def has_wildcard_def append_sets_answer)

lemma name_exists_or:
  "(gm_has (z_records zone) owner \<or> gm_has (z_tunnel zone) owner) \<or> gm_true (z_ent zone) owner \<longleftrightarrow> name_exists zone owner"
  by (simp add: name_exists_def)

definition auth_resp :: "dns_msg \<Rightarrow> dns_msg" where
  "auth_resp req = (reply req)\<lparr>msg_aa := True\<rparr>"

lemma auth_resp_simps [simp]: "msg_rcode (auth_resp req) = 0" "msg_answer (auth_resp req) = []"
  by (simp_all add: auth_resp_def)

lemma rrset_exists:
  "gm_list (rrsets_at (z_records zone) owner) t \<noteq> [] \<Longrightarrow> name_exists zone owner"
  "gm_list (rrsets_at (z_tunnel zone) owner) t \<noteq> [] \<Longrightarrow> name_exists zone owner"
  by (auto simp: name_exists_def gm_list_def rrsets_at_def gm_has_def split: option.splits)

lemma answerAuthoritative_unfold:
  "answerAuthoritative newRR req (Some zone) name owner qtype =
     (let orecs = rrsets_at (z_records zone) owner;
          tunnel = rrsets_at (z_tunnel zone) owner;
          resp = auth_resp req;
          answer = (\<lambda>rrs t. append_answer resp (matching newRR rrs name t));
          negative =
            (if name_exists zone owner then
               setNegativeSOA newRR resp (z_soa zone) (z_apex zone) RcodeSuccess
             else wildcardOrNX newRR resp zone name qtype) in
      if qtype = TypeCNAME then
        (if gm_list orecs TypeCNAME \<noteq> [] then answer (gm_list orecs TypeCNAME) TypeCNAME else negative)
      else if qtype = TypeA \<or> qtype = TypeAAAA then
        (if gm_list orecs qtype \<noteq> [] then answer (gm_list orecs qtype) qtype
         else if gm_list tunnel qtype \<noteq> [] then answer (gm_list tunnel qtype) qtype
         else if gm_list orecs TypeCNAME \<noteq> [] then chaseCNAME newRR resp zone owner name qtype 0
         else negative)
      else if qtype = TypeANY \<and> (gm_has (z_records zone) owner \<or> gm_has (z_tunnel zone) owner) then
        append_answer resp
          (set_rrs newRR (\<lambda>t. t = TypeCNAME \<and> gm_has (z_tunnel zone) owner) name orecs @
           set_rrs newRR (\<lambda>_. False) name tunnel)
      else if gm_list orecs qtype \<noteq> [] then answer (gm_list orecs qtype) qtype
      else if owner \<noteq> [] \<and> gm_list orecs TypeCNAME \<noteq> [] then
        chaseCNAME newRR resp zone owner name qtype 0
      else negative)"
  unfolding answerAuthoritative_def auth_resp_def [symmetric]
  by (simp only: Let_def option.case name_exists_or appendMatching_fst append_sets_answer append_answer_simps)

lemma answerAuthoritative_rcode:
  "msg_rcode (answerAuthoritative newRR req (Some zone) name owner qtype) =
     (if name_exists zone owner \<or> has_wildcard zone then RcodeSuccess else RcodeNameError)"
proof -
  note e = rrset_exists [of zone owner]
  have "gm_has (z_records zone) owner \<or> gm_has (z_tunnel zone) owner \<Longrightarrow> name_exists zone owner"
    by (auto simp: name_exists_def)
  with e show ?thesis
    unfolding answerAuthoritative_unfold Let_def
    by (simp only: if_distrib [of msg_rcode] wildcard_rcode auth_resp_simps append_answer_simps
      setNegativeSOA_simps chase_head) auto
qed

section \<open>A reader for the examples\<close>

text \<open>
  Splits a zone line into its words: owner, TTL, class, type and the rest; a
  line with a missing or unknown part is an error.
\<close>

definition demo_newRR :: newrr where
  "demo_newRR line =
     (case Fields line of
        nm # ttl # cls # ty # rest \<Rightarrow>
          (case (AtoiU ttl, map_of (map (\<lambda>(a, b). (b, a)) TypeToString) ty) of
             (Some n, Some t) \<Rightarrow>
               (let mk = (\<lambda>d. NewRR_rr \<lparr>dr_name = nm, dr_type = t, dr_class = 1, dr_ttl = n, dr_data = d\<rparr>) in
                if t = TypeA then
                  (case ParseAddr (concat rest) of
                     Some (Addr4 w) \<Rightarrow> mk (RD_A (Addr4 w))
                   | _ \<Rightarrow> NewRR_err)
                else mk (RD_text (Join rest '' '')))
           | _ \<Rightarrow> NewRR_err)
      | _ \<Rightarrow> NewRR_err)"

definition demo_rr :: "nat \<Rightarrow> string \<Rightarrow> rr" where
  "demo_rr t content = zero_rr\<lparr>rr_type := t, rr_ttl := 300, rr_content := content\<rparr>"

definition demo_zone :: zone where
  "demo_zone = \<lparr>z_id = ''z1'', z_apex = ''example.com.'', z_ns = [],
     z_soa = demo_rr TypeSOA ''ns.example.com. host.example.com. 1 7200 3600 86400 60'',
     z_records =
       [([], [(TypeMX, [demo_rr TypeMX ''mx.'']), (TypeA, [demo_rr TypeA ''192.0.2.1''])]),
        (''www'', [(TypeCNAME, [demo_rr TypeCNAME ''web.example.com.''])]),
        (''web'', [(TypeCNAME, [demo_rr TypeCNAME ''example.com.''])]),
        (''loop'', [(TypeCNAME, [demo_rr TypeCNAME ''loop.example.com.''])]),
        (''c.b'', [(TypeTXT, [demo_rr TypeTXT ''x''])])],
     z_wildcards = [(TypeA, [demo_rr TypeA ''198.51.100.7''])],
     z_ent = [(''b'', True)], z_tunnel = [], z_serial = 1,
     z_synthetic_stale = False, z_stale = False\<rparr>"

section \<open>Properties\<close>

text \<open>
  The zone match is the longest one, whatever the iteration order of the map:
  the result is the apex of a zone that contains the name and that no other such
  zone exceeds in length, and it is empty exactly when no zone contains the name.
\<close>

theorem longestZoneSuffix_spec:
  "apex = longestZoneSuffix name zones \<longleftrightarrow>
     (if \<exists>a \<in> fst ` set zones. a \<noteq> [] \<and> isSuffixLabel name a
      then apex \<in> fst ` set zones \<and> isSuffixLabel name apex \<and>
           (\<forall>a \<in> fst ` set zones. isSuffixLabel name a \<longrightarrow> length a \<le> length apex)
      else apex = [])"
proof (cases "longestZoneSuffix name zones = []")
  case True
  then show ?thesis
    using lz.pick_none [of name zones] by auto
next
  case False
  then have m: "longestZoneSuffix name zones \<in> fst ` set zones"
    "isSuffixLabel name (longestZoneSuffix name zones)"
    using lz.pick_match by auto
  have l: "a \<in> fst ` set zones \<Longrightarrow> isSuffixLabel name a \<Longrightarrow>
      length a \<le> length (longestZoneSuffix name zones)" for a
    using lz.pick_longest by simp
  have "\<exists>a \<in> fst ` set zones. a \<noteq> [] \<and> isSuffixLabel name a"
    using False m by blast
  then show ?thesis
    using m l by (simp only: if_True) (metis HasSuffix_same_length isSuffixLabel_suffix le_antisym)
qed

theorem longestZoneSuffix_spec_witness:
  "''b.com.'' = longestZoneSuffix ''x.b.com.'' [(''com.'', demo_zone), (''b.com.'', demo_zone), (''xb.com.'', demo_zone)]"
proof -
  have "isSuffixLabel ''x.b.com.'' ''b.com.''" "\<not> isSuffixLabel ''x.b.com.'' ''xb.com.''"
    by code_simp+
  then show ?thesis
    unfolding longestZoneSuffix_spec by auto
qed

text \<open>
  C14. The in-zone chase is complete: when the CNAME chain of a name, as the RFC
  defines it, has at most nine links, the answer carries exactly its record sets
  in order, each under the name that owns it.
\<close>

theorem chaseCNAME_complete:
  assumes "cname_chain zone qtype k owner name segs" and "k \<le> 9"
  shows "chaseCNAME newRR resp zone owner name qtype 0 =
    append_answer resp (concat (map (render_seg newRR) segs))"
  using assms by (simp add: chase_complete)

theorem chaseCNAME_complete_witness:
  "chaseCNAME demo_newRR new_msg demo_zone ''www'' ''www.example.com.'' TypeA 0 =
    append_answer new_msg (concat (map (render_seg demo_newRR)
     [(''www.example.com.'', [demo_rr TypeCNAME ''web.example.com.''], TypeCNAME),
      (''web.example.com.'', [demo_rr TypeCNAME ''example.com.''], TypeCNAME),
      (''example.com.'', [demo_rr TypeA ''192.0.2.1''], TypeA)]))"
proof (rule chaseCNAME_complete)
  have r: "rrset_at (z_records demo_zone) ''www'' TypeCNAME = [demo_rr TypeCNAME ''web.example.com.'']"
    "rrset_at (z_records demo_zone) ''web'' TypeCNAME = [demo_rr TypeCNAME ''example.com.'']"
    "rrset_at (z_records demo_zone) ''web'' TypeA = []" "rrset_at (z_tunnel demo_zone) ''web'' TypeA = []"
    "rrset_at (z_records demo_zone) [] TypeA = [demo_rr TypeA ''192.0.2.1'']"
    "targetOf (demo_rr TypeCNAME ''web.example.com.'') = ''web.example.com.''"
    "targetOf (demo_rr TypeCNAME ''example.com.'') = ''example.com.''"
    "relativeOwner ''web.example.com.'' (z_apex demo_zone) = ''web''"
    "relativeOwner ''example.com.'' (z_apex demo_zone) = []"
    "isSuffixLabel ''web.example.com.'' (z_apex demo_zone)"
    "isSuffixLabel ''example.com.'' (z_apex demo_zone)"
    by code_simp+
  have "cname_chain demo_zone TypeA 1 ''web'' ''web.example.com.''
     [(''web.example.com.'', [demo_rr TypeCNAME ''example.com.''], TypeCNAME),
      (''example.com.'', [demo_rr TypeA ''192.0.2.1''], TypeA)]"
    using cname_chain.records [of demo_zone "''web''" "demo_rr TypeCNAME ''example.com.''" "[]" TypeA] r
    by simp
  then show "cname_chain demo_zone TypeA (Suc 1) ''www'' ''www.example.com.''
     [(''www.example.com.'', [demo_rr TypeCNAME ''web.example.com.''], TypeCNAME),
      (''web.example.com.'', [demo_rr TypeCNAME ''example.com.''], TypeCNAME),
      (''example.com.'', [demo_rr TypeA ''192.0.2.1''], TypeA)]"
    using cname_chain.hop [of demo_zone "''www''" "demo_rr TypeCNAME ''web.example.com.''" "[]" TypeA 1] r
    by simp
qed simp

text \<open>
  The chase is bounded on every zone, cyclic ones included: it only appends to
  the answer section, and never more than nine CNAME sets and one terminal set.
\<close>

theorem chaseCNAME_bounded:
  "\<exists>segs. chaseCNAME newRR resp zone owner name qtype 0 =
      append_answer resp (concat (map (render_seg newRR) segs)) \<and> length segs \<le> 10"
  using chase_segments [of newRR resp zone owner name qtype 0] by simp

text \<open>
  RFC 4592: the closest encloser of a name is its nearest ancestor that exists (the
  apex, the empty owner, always does), and the source of synthesis is the wildcard
  directly below it.  A name is denied when it does not exist and its source of synthesis
  does not either.
\<close>

definition parent_owner :: "string \<Rightarrow> string" where
  "parent_owner owner = tl (dropWhile (\<lambda>c. c \<noteq> CHR ''.'') owner)"

lemma parent_owner_shorter: "owner \<noteq> [] \<Longrightarrow> length (parent_owner owner) < length owner"
  using length_dropWhile_le [of "\<lambda>c. c \<noteq> CHR ''.''" owner] by (cases owner) (auto simp: parent_owner_def)

function closest_encloser :: "zone \<Rightarrow> string \<Rightarrow> string" where
  "closest_encloser zone owner =
     (let p = parent_owner owner in
      if p = [] \<or> name_exists zone p then p else closest_encloser zone p)"
  by pat_completeness auto
termination
proof (relation "measure (\<lambda>(_, owner). length owner)", goal_cases)
  case (2 zone owner p)
  then have "owner \<noteq> []"
    by (auto simp: parent_owner_def)
  then show ?case
    using 2 parent_owner_shorter by simp
qed simp

declare closest_encloser.simps [simp del]

definition rfc4592_rcode :: "zone \<Rightarrow> string \<Rightarrow> nat" where
  "rfc4592_rcode zone owner =
     (let encl = closest_encloser zone owner;
          source = (if encl = [] then has_wildcard zone else name_exists zone (''*.'' @ encl)) in
      if owner = [] \<or> name_exists zone owner \<or> source then RcodeSuccess else RcodeNameError)"


text \<open>
  A wildcard never shows through an existing name: for an owner with
  records, flattened addresses or a place on the path to one, the authoritative
  answer is the same whatever the wildcard record sets of the zone are.
\<close>

theorem wildcard_hidden_by_existing_name:
  assumes "name_exists zone owner"
  shows "answerAuthoritative newRR req (Some (zone\<lparr>z_wildcards := w\<rparr>)) name owner qtype =
    answerAuthoritative newRR req (Some zone) name owner qtype"
proof -
  have chase: "chaseCNAME newRR resp (zone\<lparr>z_wildcards := w\<rparr>) o' n t d = chaseCNAME newRR resp zone o' n t d"
    for resp o' n t d
    by (induction newRR resp zone o' n t d rule: chaseCNAME.induct)
      (subst (1 2) chaseCNAME.simps, simp add: Let_def split: list.split)
  have same: "z_records (zone\<lparr>z_wildcards := w\<rparr>) = z_records zone"
    "z_tunnel (zone\<lparr>z_wildcards := w\<rparr>) = z_tunnel zone"
    "z_soa (zone\<lparr>z_wildcards := w\<rparr>) = z_soa zone"
    "z_apex (zone\<lparr>z_wildcards := w\<rparr>) = z_apex zone"
    "name_exists (zone\<lparr>z_wildcards := w\<rparr>) owner"
    using assms by (simp_all add: name_exists_def)
  show ?thesis
    unfolding answerAuthoritative_unfold Let_def by (simp only: same assms chase if_True)
qed
theorem wildcard_hidden_by_existing_name_witness:
  "answerAuthoritative demo_newRR new_msg (Some (demo_zone\<lparr>z_wildcards := []\<rparr>)) ''b.example.com.'' ''b'' TypeA =
    answerAuthoritative demo_newRR new_msg (Some demo_zone) ''b.example.com.'' ''b'' TypeA"
  by (rule wildcard_hidden_by_existing_name) code_simp

text \<open>
  No closest-encloser test: below an existing name (here, below any existing
  \<open>encl\<close>) the zone wildcard is still synthesized, although the wildcard of the
  apex does not cover names below an existing node in RFC 4592.
\<close>

theorem wildcard_below_existing_name:
  assumes "name_exists zone encl" and "owner = x @ ''.'' @ encl" and "\<not> name_exists zone owner"
    and "rrsets_at (z_tunnel zone) ''*'' = []"
    and "gm_list (z_wildcards zone) TypeA \<noteq> []"
  shows "msg_answer (answerAuthoritative newRR req (Some zone) name owner TypeA) =
    matching newRR (gm_list (z_wildcards zone) TypeA) name TypeA"
proof -
  have e: "gm_list (rrsets_at m owner) t \<noteq> [] \<Longrightarrow> gm_has m owner" for m t
    using rrsets_at_exists [of m owner] by (cases "rrsets_at m owner = []") auto
  show ?thesis
    using assms e by (auto simp: answerAuthoritative_def Let_def name_exists_def wildcardOrNX_def)
qed

theorem wildcard_below_existing_name_witness:
  "msg_answer (answerAuthoritative demo_newRR new_msg (Some demo_zone) ''a.b.example.com.'' ''a.b'' TypeA) =
    matching demo_newRR (gm_list (z_wildcards demo_zone) TypeA) ''a.b.example.com.'' TypeA \<and>
   map dr_data (matching demo_newRR (gm_list (z_wildcards demo_zone) TypeA) ''a.b.example.com.'' TypeA) =
     [RD_A (Addr4 0xc6336407)]"
proof
  show "msg_answer (answerAuthoritative demo_newRR new_msg (Some demo_zone) ''a.b.example.com.'' ''a.b'' TypeA) =
    matching demo_newRR (gm_list (z_wildcards demo_zone) TypeA) ''a.b.example.com.'' TypeA"
    by (rule wildcard_below_existing_name [of _ "''b''" _ "''a''"]; code_simp)
  show "map dr_data (matching demo_newRR (gm_list (z_wildcards demo_zone) TypeA) ''a.b.example.com.'' TypeA) =
     [RD_A (Addr4 0xc6336407)]"
    by code_simp
qed

end
