(* ===== verification/Resolver.thy ===== *)
theory Resolver
  imports Zone "HOL-Library.Product_Lexorder"
begin

text \<open>
  Package \<^verbatim>\<open>internal/resolver\<close>, files \<^verbatim>\<open>resolver.go\<close> and \<^verbatim>\<open>dnssd.go\<close>: the
  query pipeline, a pure function of the published snapshot and of the mDNS view
  that answers a query or says where to forward it.
\<close>

section \<open>Outcomes\<close>

record outcome =
  o_msg :: "dns_msg option"
  o_forward :: bool
  o_stub :: "string list"
  o_local_miss :: bool
  o_local_label :: string

definition zero_outcome :: outcome where
  "zero_outcome = \<lparr>o_msg = None, o_forward = False, o_stub = [], o_local_miss = False,
     o_local_label = []\<rparr>"

definition out_msg :: "dns_msg \<Rightarrow> outcome" where
  "out_msg m = zero_outcome\<lparr>o_msg := Some m\<rparr>"

abbreviation (input) ddrTTL :: nat where "ddrTTL \<equiv> 300"
abbreviation (input) vhostTTL :: nat where "vhostTTL \<equiv> 60"
abbreviation (input) minimalANYTTL :: nat where "minimalANYTTL \<equiv> 3600"
abbreviation (input) dnssdTTL :: nat where "dnssdTTL \<equiv> 120"

definition mk_rr :: "string \<Rightarrow> nat \<Rightarrow> nat \<Rightarrow> rdata \<Rightarrow> dns_rr" where
  "mk_rr name t ttl d =
     \<lparr>dr_name = name, dr_type = t, dr_class = ClassINET, dr_ttl = ttl, dr_data = d\<rparr>"

section \<open>Designated resolvers\<close>

definition toIPs :: "addr list \<Rightarrow> addr list" where
  "toIPs addrs = map (\<lambda>a. WithZone a []) (filter IsValid addrs)"

definition ddrSVCB :: "ddr_advert \<Rightarrow> nat \<Rightarrow> string list \<Rightarrow> nat \<Rightarrow> string \<Rightarrow> dns_rr" where
  "ddrSVCB d priority alpn port dohpath =
     mk_rr ''_dns.resolver.arpa.'' TypeSVCB ddrTTL
       (RD_SVCB priority (ddr_adn d)
         ([SVCBAlpn alpn, SVCBPort port] @
          (if dohpath \<noteq> [] then [SVCBDoHPath dohpath] else []) @
          (if toIPs (ddr_v4 d) \<noteq> [] then [SVCBIPv4Hint (toIPs (ddr_v4 d))] else []) @
          (if toIPs (ddr_v6 d) \<noteq> [] then [SVCBIPv6Hint (toIPs (ddr_v6 d))] else [])))"

definition resolverArpa :: "snapshot \<Rightarrow> dns_msg \<Rightarrow> string \<Rightarrow> nat \<Rightarrow> dns_msg" where
  "resolverArpa snap req name qtype =
     (let resp = (reply req)\<lparr>msg_aa := True\<rparr> in
      case s_ddr snap of
        None \<Rightarrow> resp
      | Some d \<Rightarrow>
          if name \<noteq> ''_dns.resolver.arpa.'' \<or> (qtype \<noteq> TypeSVCB \<and> qtype \<noteq> TypeANY) then resp
          else
            (let (prio1, resp1) =
               (case ddr_dot d of
                  None \<Rightarrow> (0, resp)
                | Some e \<Rightarrow> (1, append_answer resp [ddrSVCB d 1 [''dot''] (de_port e) []])) in
             (case ddr_doh d of
                None \<Rightarrow> resp1
              | Some e \<Rightarrow>
                  append_answer resp1
                    [ddrSVCB d (prio1 + 1) [''h2''] (de_port e) (de_path e @ ''{?dns}'')])))"

definition ddrADNReply :: "ddr_advert \<Rightarrow> dns_msg \<Rightarrow> string \<Rightarrow> nat \<Rightarrow> dns_msg" where
  "ddrADNReply d req name qtype =
     (let resp = (reply req)\<lparr>msg_aa := True\<rparr>;
          any = (qtype = TypeANY);
          resp1 = (if qtype = TypeA \<or> any then
              append_answer resp
                (map (\<lambda>a. mk_rr name TypeA ddrTTL (RD_A (WithZone a []))) (filter Is4 (ddr_v4 d)))
            else resp) in
      if qtype = TypeAAAA \<or> any then
        append_answer resp1
          (map (\<lambda>a. mk_rr name TypeAAAA ddrTTL (RD_AAAA (WithZone a []))) (filter Is6 (ddr_v6 d)))
      else resp1)"

definition minimalANY :: "dns_msg \<Rightarrow> string \<Rightarrow> dns_msg" where
  "minimalANY req name =
     append_answer (reply req) [mk_rr name TypeHINFO minimalANYTTL (RD_HINFO ''RFC8482'' [])]"

section \<open>Static names and reverse zones\<close>

definition answerStatic :: "newrr \<Rightarrow> snapshot \<Rightarrow> dns_msg \<Rightarrow> string \<Rightarrow> nat \<Rightarrow> outcome option" where
  "answerStatic newRR snap req name qtype =
     (case map_of (s_static snap) name of
        None \<Rightarrow> None
      | Some recs \<Rightarrow>
          (let resp = (reply req)\<lparr>msg_aa := True\<rparr> in
           Some (out_msg (fst (appendMatching newRR resp recs name qtype)))))"

fun id_loop :: "nat \<Rightarrow> string \<Rightarrow> bool" where
  "id_loop hex [] = (hex \<ge> 16)"
| "id_loop hex (c # cs) =
     (if is_hex c then id_loop (hex + 1) cs
      else if c = CHR ''-'' then id_loop hex cs
      else False)"

definition looksLikeID :: "string \<Rightarrow> bool" where
  "looksLikeID s = id_loop 0 s"

definition betterCanonical :: "string \<Rightarrow> string \<Rightarrow> bool" where
  "betterCanonical candidate best =
     (let cu = looksLikeID candidate; bu = looksLikeID best in
      if cu \<noteq> bu then bu else candidate < best)"

fun canonical_loop :: "rr list \<Rightarrow> string \<Rightarrow> nat \<Rightarrow> string \<times> nat" where
  "canonical_loop [] best bestTTL = (best, bestTTL)"
| "canonical_loop (r # rs) best bestTTL =
     (let target = (if rr_target r = [] then rr_content r else rr_target r);
          host = TrimSuffix target ''.local.'' in
      if host = target \<or> host = [] then canonical_loop rs best bestTTL
      else if best = [] \<or> betterCanonical host best then canonical_loop rs host (rr_ttl r)
      else canonical_loop rs best bestTTL)"

definition canonicalReversePTR :: "rr list \<Rightarrow> string \<Rightarrow> string \<Rightarrow> dns_rr option" where
  "canonicalReversePTR ptrs name localDomain =
     (let (best, bestTTL) = canonical_loop ptrs [] 0 in
      if best = [] then None
      else
        (let sfx = (if localDomain \<noteq> [] then ''.'' @ localDomain @ ''.'' else ''.local.'');
             ttl = (if bestTTL = 0 then 120 else bestTTL) in
         Some (mk_rr name TypePTR ttl (RD_PTR (best @ sfx)))))"

definition answerReverse ::
  "newrr \<Rightarrow> snapshot \<Rightarrow> mdns_view \<Rightarrow> dns_msg \<Rightarrow> string \<Rightarrow> nat \<Rightarrow> outcome" where
  "answerReverse newRR snap view req name qtype =
     (case longestReverseZone name (s_reverse snap) of
        None \<Rightarrow> zero_outcome\<lparr>o_forward := True\<rparr>
      | Some rz \<Rightarrow>
          (let resp = (reply req)\<lparr>msg_aa := True\<rparr>;
               (resp1, matched) =
                 (if qtype = TypePTR \<or> qtype = TypeANY then
                    (let (r1, m1) = appendMatching newRR resp (gm_list (s_static snap) name) name TypePTR in
                     if m1 then (r1, True)
                     else (case canonicalReversePTR (gm_list (v_reverse view) name) name (s_local_domain snap) of
                         None \<Rightarrow> (r1, False)
                       | Some ptr \<Rightarrow> (append_answer r1 [ptr], True)))
                  else (resp, False)) in
           if \<not> matched then
             out_msg (setNegativeSOA newRR resp1 (rz_soa rz) (rz_apex rz) RcodeSuccess)
           else out_msg resp1))"

section \<open>Service discovery\<close>

datatype dnssd_node = SD_none | SD_meta | SD_type string | SD_instance string string

definition dnssdMeta :: string where
  "dnssdMeta = ''_services._dns-sd._udp''"

definition parseDNSSD :: "string \<Rightarrow> dnssd_node" where
  "parseDNSSD label =
     (if label = dnssdMeta then SD_meta
      else
        (let labels = SplitByte (CHR ''.'') label; n = length labels in
         if n < 2 then SD_none
         else if labels ! (n - 1) \<noteq> ''_tcp'' \<and> labels ! (n - 1) \<noteq> ''_udp'' then SD_none
         else if \<not> HasPrefix (labels ! (n - 2)) ''_'' then SD_none
         else
           (let typ = labels ! (n - 2) @ ''.'' @ labels ! (n - 1) in
            if n = 2 then SD_type typ
            else SD_instance (Join (take (n - 2) labels) ''.'') typ)))"

definition sdAppend :: "dns_msg \<Rightarrow> nat \<Rightarrow> nat \<Rightarrow> dns_rr \<Rightarrow> dns_msg" where
  "sdAppend resp qtype rrtype d =
     (if qtype = TypeANY \<or> qtype = rrtype then append_answer resp [d] else resp)"

fun first_ttl :: "rr list \<Rightarrow> nat" where
  "first_ttl [] = dnssdTTL"
| "first_ttl (r # rs) = (if rr_ttl r > 0 then rr_ttl r else first_ttl rs)"

definition hostTTL :: "mdns_view \<Rightarrow> string \<Rightarrow> nat" where
  "hostTTL view host = first_ttl (gm_list (v_forward view) host)"

definition sortedSet :: "string list \<Rightarrow> string list" where
  "sortedSet ks = sort (remdups ks)"

definition sd_types :: "mdns_view \<Rightarrow> string list" where
  "sd_types view = sortedSet (concat (map (\<lambda>(_, svcs). map ms_type svcs) (v_services view)))"

definition sd_instances :: "mdns_view \<Rightarrow> string \<Rightarrow> string \<Rightarrow> string list" where
  "sd_instances view typ sfx =
     sort (map (\<lambda>(h, _). h @ ''.'' @ typ @ sfx)
       (filter (\<lambda>(_, svcs). list_ex (\<lambda>s. ms_type s = typ) svcs) (v_services view)))"

definition sd_service :: "string \<Rightarrow> nat \<Rightarrow> string \<Rightarrow> string \<Rightarrow> nat \<Rightarrow> mdns_service \<Rightarrow> dns_msg \<Rightarrow> dns_msg" where
  "sd_service name qtype target typ ttl s resp =
     (if ms_type s \<noteq> typ then resp
      else
        (let resp1 = sdAppend resp qtype TypeSRV
               (mk_rr name TypeSRV ttl (RD_SRV 0 0 (ms_port s) target)) in
         if ms_text s \<noteq> [] then
           sdAppend resp1 qtype TypeTXT (mk_rr name TypeTXT ttl (RD_TXT (ms_text s)))
         else resp1))"

definition answerDNSSD ::
  "mdns_view \<Rightarrow> dns_msg \<Rightarrow> string \<Rightarrow> string \<Rightarrow> nat \<Rightarrow> outcome option" where
  "answerDNSSD view resp name label qtype =
     (let sfx = drop (length label) name;
          ptr = (\<lambda>t rsp. sdAppend rsp qtype TypePTR (mk_rr name TypePTR dnssdTTL (RD_PTR t))) in
      case parseDNSSD label of
        SD_none \<Rightarrow> None
      | SD_meta \<Rightarrow> Some (out_msg (fold (\<lambda>t. ptr (t @ sfx)) (sd_types view) resp))
      | SD_type typ \<Rightarrow> Some (out_msg (fold ptr (sd_instances view typ sfx) resp))
      | SD_instance host typ \<Rightarrow>
          Some (out_msg (fold (sd_service name qtype (host @ sfx) typ (hostTTL view host))
            (gm_list (v_services view) host) resp)))"

section \<open>The local plane\<close>

definition localLabel :: "snapshot \<Rightarrow> string \<Rightarrow> string option" where
  "localLabel snap name =
     (let lbl = TrimSuffix name ''.local.'' in
      if lbl \<noteq> name then Some lbl
      else if s_local_domain snap \<noteq> [] then
        (let l2 = TrimSuffix name (''.'' @ s_local_domain snap @ ''.'') in
         if l2 \<noteq> name then Some l2 else None)
      else None)"

definition stripMember :: "string \<Rightarrow> string \<Rightarrow> string \<times> bool" where
  "stripMember fqdn member =
     (let m = member @ ''.'' in
      if HasSuffix fqdn (''.'' @ m) then (take (length fqdn - length m) fqdn, True)
      else (fqdn, False))"

text \<open>One pass of the stripping loop: the shortened name and whether a local label went.\<close>

definition strip_once :: "snapshot \<Rightarrow> string \<Rightarrow> (string \<times> bool) option" where
  "strip_once snap cur =
     (let (h1, did1) = stripMember cur ''local'';
          d = s_local_domain snap;
          (h2, did2) = (if d \<noteq> [] then stripMember cur d else (cur, False));
          apex = longestZoneSuffix cur (s_zones snap);
          (h3, did3) = (if apex \<noteq> [] then stripMember cur (TrimSuffix apex ''.'') else (cur, False)) in
      if did1 then Some (h1, True)
      else if did2 then Some (h2, True)
      else if did3 then Some (h3, False)
      else None)"

fun strip_loop :: "snapshot \<Rightarrow> nat \<Rightarrow> string \<Rightarrow> bool \<Rightarrow> bool \<Rightarrow> string \<times> bool \<times> bool" where
  "strip_loop snap 0 cur tainted stripped = (cur, tainted, stripped)"
| "strip_loop snap (Suc k) cur tainted stripped =
     (case strip_once snap cur of
        None \<Rightarrow> (cur, tainted, stripped)
      | Some (h, loc) \<Rightarrow> strip_loop snap k h (tainted \<or> loc) True)"

definition recoverLocalHost :: "snapshot \<Rightarrow> string \<Rightarrow> string \<times> bool \<times> bool" where
  "recoverLocalHost snap name =
     (let (cur, tainted, stripped) = strip_loop snap 8 name False False in
      if \<not> stripped then ([], False, False)
      else
        (let label = TrimSuffix cur ''.'' in
         if label = [] \<or> ContainsByte label (CHR ''.'') \<or> HasPrefix label ''_'' then ([], tainted, False)
         else if label = ''local'' \<or> (s_local_domain snap \<noteq> [] \<and> label = s_local_domain snap)
         then ([], tainted, False)
         else (label, tainted, True)))"

definition restrictedLabel :: "snapshot \<Rightarrow> string \<Rightarrow> bool" where
  "restrictedLabel snap host =
     (if host = ''www'' \<or> gm_true (s_vhosts snap) host then True
      else list_ex (\<lambda>(apex, _). gm_true (s_ddns snap) (host @ ''.'' @ apex)) (s_zones snap))"

definition isServable :: "addr \<Rightarrow> bool" where
  "isServable ip \<longleftrightarrow>
     \<not> IsLoopback ip \<and> \<not> IsLinkLocalUnicast ip \<and> \<not> IsMulticast ip \<and> \<not> IsUnspecified ip"

definition isLocalScope :: "addr \<Rightarrow> bool" where
  "isLocalScope ip =
     (if \<not> isServable ip then False
      else if IsPrivate ip then True
      else Is6 ip \<and> IsGlobalUnicast ip)"

definition serve_ok :: "nat \<Rightarrow> bool \<Rightarrow> rr \<Rightarrow> bool" where
  "serve_ok qtype localScopeOnly r =
     (if rr_type r \<noteq> qtype then False
      else (case ParseAddr (rr_content r) of
          None \<Rightarrow> False
        | Some ip \<Rightarrow> isServable ip \<and> \<not> (localScopeOnly \<and> \<not> isLocalScope ip)))"

definition localServeAddrs :: "mdns_view \<Rightarrow> string \<Rightarrow> nat \<Rightarrow> bool \<Rightarrow> bool \<Rightarrow> rr list" where
  "localServeAddrs view host qtype restricted localScopeOnly =
     (let recs = filter (serve_ok qtype localScopeOnly) (gm_list (v_forward view) host);
          trusted = filter rr_trusted recs;
          self = filter (\<lambda>r. \<not> rr_trusted r) recs in
      if trusted \<noteq> [] then trusted
      else if restricted then []
      else self)"

definition localHostAddrs ::
  "snapshot \<Rightarrow> mdns_view \<Rightarrow> string \<Rightarrow> bool \<Rightarrow> rr list \<times> rr list \<times> bool" where
  "localHostAddrs snap view host localScopeOnly =
     (let restricted = restrictedLabel snap host in
      (localServeAddrs view host TypeA restricted localScopeOnly,
       localServeAddrs view host TypeAAAA restricted localScopeOnly,
       restricted))"

definition fillLocalAddrs ::
  "newrr \<Rightarrow> dns_msg \<Rightarrow> string \<Rightarrow> nat \<Rightarrow> rr list \<Rightarrow> rr list \<Rightarrow> dns_msg" where
  "fillLocalAddrs newRR resp name qtype v4 v6 =
     (if qtype = TypeA then fst (appendMatching newRR resp v4 name TypeA)
      else if qtype = TypeAAAA then fst (appendMatching newRR resp v6 name TypeAAAA)
      else if qtype = TypeANY then
        fst (appendMatching newRR (fst (appendMatching newRR resp v4 name TypeA)) v6 name TypeAAAA)
      else resp)"

definition answerLocal ::
  "newrr \<Rightarrow> snapshot \<Rightarrow> mdns_view \<Rightarrow> dns_msg \<Rightarrow> string \<Rightarrow> string \<Rightarrow> nat \<Rightarrow> outcome" where
  "answerLocal newRR snap view req name label qtype =
     (let resp = (reply req)\<lparr>msg_aa := True\<rparr>;
          sd = (if s_serve_dnssd snap then answerDNSSD view resp name label qtype else None) in
      case sd of
        Some out \<Rightarrow> out
      | None \<Rightarrow>
          (let (host, _, ok) = recoverLocalHost snap name in
           if \<not> ok then out_msg (resp\<lparr>msg_rcode := RcodeNameError\<rparr>)
           else
             (let (v4, v6, restricted) = localHostAddrs snap view host False in
              if v4 = [] \<and> v6 = [] then
                (let out = out_msg (resp\<lparr>msg_rcode := RcodeNameError\<rparr>) in
                 if \<not> restricted \<and> (qtype = TypeA \<or> qtype = TypeAAAA \<or> qtype = TypeANY)
                 then out\<lparr>o_local_miss := True, o_local_label := host\<rparr>
                 else out)
              else out_msg (fillLocalAddrs newRR resp name qtype v4 v6))))"

definition localRecoveredZoneReply ::
  "newrr \<Rightarrow> snapshot \<Rightarrow> mdns_view \<Rightarrow> dns_msg \<Rightarrow> string \<Rightarrow> string \<Rightarrow> nat \<Rightarrow> zone \<Rightarrow> dns_msg" where
  "localRecoveredZoneReply newRR snap view req name host qtype zone =
     (let resp = (reply req)\<lparr>msg_aa := True\<rparr>;
          (v4, v6, _) = localHostAddrs snap view host True in
      if v4 = [] \<and> v6 = [] then
        setNegativeSOA newRR resp (z_soa zone) (z_apex zone) RcodeNameError
      else
        (let resp1 = fillLocalAddrs newRR resp name qtype v4 v6 in
         if msg_answer resp1 = [] then
           setNegativeSOA newRR resp1 (z_soa zone) (z_apex zone) RcodeSuccess
         else resp1))"

definition nxdomainZoneSOA :: "newrr \<Rightarrow> dns_msg \<Rightarrow> zone \<Rightarrow> dns_msg" where
  "nxdomainZoneSOA newRR req zone =
     setNegativeSOA newRR ((reply req)\<lparr>msg_aa := True\<rparr>) (z_soa zone) (z_apex zone) RcodeNameError"

section \<open>Redirected names and the mDNS overlay\<close>

definition isVHostCandidate :: "snapshot \<Rightarrow> string \<Rightarrow> string \<Rightarrow> bool" where
  "isVHostCandidate snap apex owner =
     (if gm_true (s_excluded snap) apex then False
      else if \<not> IsValid (s_vhost4 snap) \<and> \<not> IsValid (s_vhost6 snap) then False
      else if owner \<noteq> [] \<and> labelCount owner > 1 then False
      else owner = [] \<or> owner = ''www'' \<or> gm_true (s_vhosts snap) owner)"

definition preferLocal :: "rr list \<Rightarrow> rr list \<Rightarrow> rr list" where
  "preferLocal loc all = (if loc \<noteq> [] then loc else all)"

definition rr_servable :: "rr \<Rightarrow> bool" where
  "rr_servable r = (case ParseAddr (rr_content r) of None \<Rightarrow> False | Some ip \<Rightarrow> isServable ip)"

definition rr_local :: "rr \<Rightarrow> bool" where
  "rr_local r = (case ParseAddr (rr_content r) of None \<Rightarrow> False | Some ip \<Rightarrow> isLocalScope ip)"

definition localScopeAddrs :: "rr list \<Rightarrow> rr list" where
  "localScopeAddrs mrecs =
     (let usable = filter rr_servable mrecs;
          v4all = filter (\<lambda>r. rr_type r = TypeA) usable;
          v4loc = filter rr_local v4all;
          v6all = filter (\<lambda>r. rr_type r = TypeAAAA) usable;
          v6loc = filter rr_local v6all in
      preferLocal v4loc v4all @ preferLocal v6loc v6all)"

definition overrideStripped :: "nat \<Rightarrow> bool" where
  "overrideStripped t \<longleftrightarrow> t \<in> {TypeA, TypeAAAA, TypeCNAME, TypeHTTPS, TypeSVCB}"

definition mdnsZoneReply ::
  "newrr \<Rightarrow> zone \<Rightarrow> dns_msg \<Rightarrow> string \<Rightarrow> string \<Rightarrow> nat \<Rightarrow> rr list \<Rightarrow> dns_msg" where
  "mdnsZoneReply newRR zone req name owner qtype mrecs =
     (let resp = (reply req)\<lparr>msg_aa := True\<rparr> in
      if qtype = TypeANY then
        append_sets newRR overrideStripped name (z_wildcards zone)
          (fst (appendMatching newRR resp mrecs name TypeANY))
      else
        (let resp1 =
           (if qtype = TypeA \<or> qtype = TypeAAAA then fst (appendMatching newRR resp mrecs name qtype)
            else if qtype = TypeCNAME \<or> qtype = TypeHTTPS \<or> qtype = TypeSVCB then resp
            else fst (appendMatching newRR resp (gm_list (z_wildcards zone) qtype) name qtype)) in
         if msg_answer resp1 = [] then
           setNegativeSOA newRR resp1 (z_soa zone) (z_apex zone) RcodeSuccess
         else resp1))"

definition vhostInherited :: "zone option \<Rightarrow> string \<Rightarrow> rrsets" where
  "vhostInherited zo owner =
     (case zo of None \<Rightarrow> []
      | Some zone \<Rightarrow> if owner = [] then rrsets_at (z_records zone) [] else z_wildcards zone)"

text \<open>A proxy address that does not render is appended as the nil record.\<close>

definition proxy_rr :: "newrr \<Rightarrow> string \<Rightarrow> nat \<Rightarrow> addr \<Rightarrow> dns_rr" where
  "proxy_rr newRR name t a =
     (case addrRR newRR name t (AddrString a) vhostTTL of None \<Rightarrow> nil_rr | Some d \<Rightarrow> d)"

definition vhostReply ::
  "newrr \<Rightarrow> snapshot \<Rightarrow> dns_msg \<Rightarrow> string \<Rightarrow> string \<Rightarrow> nat \<Rightarrow> zone option \<Rightarrow> dns_msg" where
  "vhostReply newRR snap req name owner qtype zo =
     (let resp = (reply req)\<lparr>msg_aa := True\<rparr>;
          negative = (\<lambda>rsp. case zo of None \<Rightarrow> rsp
            | Some zone \<Rightarrow> setNegativeSOA newRR rsp (z_soa zone) (z_apex zone) RcodeSuccess) in
      if qtype = TypeA then
        (if IsValid (s_vhost4 snap) then append_answer resp [proxy_rr newRR name TypeA (s_vhost4 snap)]
         else negative resp)
      else if qtype = TypeAAAA then
        (if IsValid (s_vhost6 snap) then append_answer resp [proxy_rr newRR name TypeAAAA (s_vhost6 snap)]
         else negative resp)
      else if qtype = TypeCNAME \<or> qtype = TypeHTTPS \<or> qtype = TypeSVCB then negative resp
      else if qtype = TypeANY then
        (let resp1 = (if IsValid (s_vhost4 snap)
               then append_answer resp [proxy_rr newRR name TypeA (s_vhost4 snap)] else resp);
             resp2 = (if IsValid (s_vhost6 snap)
               then append_answer resp1 [proxy_rr newRR name TypeAAAA (s_vhost6 snap)] else resp1);
             resp3 = append_sets newRR overrideStripped name (vhostInherited zo owner) resp2 in
         if msg_answer resp3 \<noteq> [] then resp3 else negative resp3)
      else
        (let rrs = gm_list (vhostInherited zo owner) qtype in
         if rrs \<noteq> [] then fst (appendMatching newRR resp rrs name qtype)
         else negative resp))"

definition answerZoneOrVHost ::
  "newrr \<Rightarrow> snapshot \<Rightarrow> mdns_view \<Rightarrow> dns_msg \<Rightarrow> string \<Rightarrow> string \<Rightarrow> nat \<Rightarrow> outcome" where
  "answerZoneOrVHost newRR snap view req name apex qtype =
     (let zo = map_of (s_zones snap) apex;
          owner = relativeOwner name apex in
      if isVHostCandidate snap apex owner then
        out_msg (vhostReply newRR snap req name owner qtype zo)
      else
        (case zo of
           None \<Rightarrow> out_msg (answerAuthoritative newRR req zo name owner qtype)
         | Some zone \<Rightarrow>
             (let free = (\<not> gm_has (z_records zone) owner \<and> \<not> gm_has (z_tunnel zone) owner);
                  local = localScopeAddrs (gm_list (v_forward view) owner);
                  (host, tainted, ok) = recoverLocalHost snap name in
              if free \<and> \<not> gm_true (s_ddns snap) name \<and> local \<noteq> [] then
                out_msg (mdnsZoneReply newRR zone req name owner qtype local)
              else if tainted \<and> free \<and> \<not> gm_true (z_ent zone) owner then
                (if ok then out_msg (localRecoveredZoneReply newRR snap view req name host qtype zone)
                 else out_msg (nxdomainZoneSOA newRR req zone))
              else out_msg (answerAuthoritative newRR req zo name owner qtype))))"

section \<open>The pipeline\<close>

text \<open>The loop of the stub match, and the targets of the zone it picks.\<close>

definition stubBest :: "string \<Rightarrow> (string, stub_zone) gomap \<Rightarrow> string" where
  "stubBest name stubs =
     fold (\<lambda>(apex, _) best.
        if isSuffixLabel name apex \<and> length apex > length best then apex else best) stubs []"

definition stubMatch :: "snapshot \<Rightarrow> string \<Rightarrow> string list" where
  "stubMatch snap name =
     (let best = stubBest name (s_stubs snap) in
      if best = [] then []
      else (case map_of (s_stubs snap) best of
          None \<Rightarrow> []
        | Some sz \<Rightarrow> map (\<lambda>(a, p). AddrPortString a p) (sz_target sz)))"

text \<open>Steps 5 to 8: stub zones, mirrored zones, and the rest of the world.\<close>

definition resolve_unicast ::
  "newrr \<Rightarrow> snapshot \<Rightarrow> mdns_view \<Rightarrow> dns_msg \<Rightarrow> string \<Rightarrow> nat \<Rightarrow> outcome" where
  "resolve_unicast newRR snap view req name qtype =
     (let tgt = stubMatch snap name;
          apex = longestZoneSuffix name (s_zones snap) in
      if tgt \<noteq> [] then zero_outcome\<lparr>o_stub := tgt\<rparr>
      else if apex \<noteq> [] then answerZoneOrVHost newRR snap view req name apex qtype
      else if qtype = TypeANY then out_msg (minimalANY req name)
      else zero_outcome\<lparr>o_forward := True\<rparr>)"

definition ddr_adn_match :: "snapshot \<Rightarrow> string \<Rightarrow> ddr_advert option" where
  "ddr_adn_match snap name =
     (case s_ddr snap of
        None \<Rightarrow> None
      | Some d \<Rightarrow> if ddr_adn d \<noteq> [] \<and> name = ddr_adn d then Some d else None)"

text \<open>Steps 1b to 8 for one question: its lower-case name and its type.\<close>

definition resolve_name ::
  "newrr \<Rightarrow> snapshot \<Rightarrow> mdns_view \<Rightarrow> dns_msg \<Rightarrow> string \<Rightarrow> nat \<Rightarrow> outcome" where
  "resolve_name newRR snap view req name qtype =
     (if name = ''resolver.arpa.'' \<or> HasSuffix name ''.resolver.arpa.'' then
        out_msg (resolverArpa snap req name qtype)
      else
        (case ddr_adn_match snap name of
           Some d \<Rightarrow> out_msg (ddrADNReply d req name qtype)
         | None \<Rightarrow>
             (case answerStatic newRR snap req name qtype of
                Some out \<Rightarrow> out
              | None \<Rightarrow>
                  if isArpa name then answerReverse newRR snap view req name qtype
                  else
                    (case localLabel snap name of
                       Some lbl \<Rightarrow> answerLocal newRR snap view req name lbl qtype
                     | None \<Rightarrow> resolve_unicast newRR snap view req name qtype))))"

definition Resolve :: "newrr \<Rightarrow> snapshot \<Rightarrow> mdns_view \<Rightarrow> dns_msg \<Rightarrow> outcome" where
  "Resolve newRR snap view req =
     (case msg_question req of
        [q] \<Rightarrow> resolve_name newRR snap view req (ToLower (Fqdn (q_name q))) (q_type q)
      | _ \<Rightarrow> out_msg (errReply req RcodeFormatError))"

section \<open>Data for the examples\<close>

definition demo_question :: "string \<Rightarrow> nat \<Rightarrow> dns_question" where
  "demo_question name t = \<lparr>q_name = name, q_type = t, q_class = 1\<rparr>"

definition demo_query :: "string \<Rightarrow> nat \<Rightarrow> dns_msg" where
  "demo_query name t = new_msg\<lparr>msg_id := 7, msg_rd := True, msg_question := [demo_question name t]\<rparr>"

definition demo_ddr :: ddr_advert where
  "demo_ddr = \<lparr>ddr_adn = ''dns.example.com.'', ddr_v4 = [Addr4 0x0a000035], ddr_v6 = [],
     ddr_dot = Some \<lparr>de_port = 853, de_path = []\<rparr>, ddr_doh = None\<rparr>"

definition demo_snap :: snapshot where
  "demo_snap = \<lparr>s_zones = [(''example.com.'', demo_zone)],
     s_stubs = [(''corp.example.com.'', \<lparr>sz_apex = ''corp.example.com.'', sz_target = [(Addr4 0x0a000001, 53)]\<rparr>)],
     s_reverse = [(''168.192.in-addr.arpa.'', \<lparr>rz_apex = ''168.192.in-addr.arpa.'', rz_soa = zero_rr\<rparr>)],
     s_vhosts = [(''shop'', True)], s_excluded = [], s_static = [],
     s_ddns = [(''nas.example.com.'', True)], s_local_domain = ''lan'', s_serve_dnssd = False,
     s_allow_suffix = [''example.com.''], s_built_at = None, s_cf_healthy = True,
     s_vhost4 = Addr4 0x0a000050, s_vhost6 = AddrNone, s_ddr = Some demo_ddr\<rparr>"

definition demo_view :: mdns_view where
  "demo_view = \<lparr>v_forward =
       [(''printer'', [demo_rr TypeA ''192.168.1.9'']),
        (''nas'', [demo_rr TypeA ''192.168.1.66'', (demo_rr TypeA ''192.168.1.10'')\<lparr>rr_trusted := True\<rparr>])],
     v_reverse = [], v_services = [], v_info = [], v_built_at = None\<rparr>"

section \<open>Shape of the outcomes\<close>

lemma out_msg_simps [simp]:
  "o_msg (out_msg m) = Some m" "\<not> o_forward (out_msg m)" "o_stub (out_msg m) = []"
  "\<not> o_local_miss (out_msg m)" "o_local_label (out_msg m) = []"
  by (simp_all add: out_msg_def zero_outcome_def)

lemma zero_outcome_simps [simp]:
  "o_msg zero_outcome = None" "\<not> o_forward zero_outcome" "o_stub zero_outcome = []"
  "\<not> o_local_miss zero_outcome"
  by (simp_all add: zero_outcome_def)

text \<open>An outcome that is a direct reply and nothing else.\<close>

definition direct :: "outcome \<Rightarrow> bool" where
  "direct out \<longleftrightarrow> o_msg out \<noteq> None \<and> \<not> o_forward out \<and> o_stub out = []"

lemma direct_out_msg [simp]: "direct (out_msg m)"
  by (simp add: direct_def)

lemma direct_local_miss [simp]: "direct (out\<lparr>o_local_miss := b, o_local_label := l\<rparr>) = direct out"
  by (simp add: direct_def)

lemma answerStatic_direct: "answerStatic newRR snap req name qtype = Some out \<Longrightarrow> direct out"
  by (auto simp: answerStatic_def split: option.splits)

lemma answerDNSSD_direct: "answerDNSSD view resp name label qtype = Some out \<Longrightarrow> direct out"
  by (auto simp: answerDNSSD_def Let_def split: dnssd_node.splits)

lemma answerLocal_direct: "direct (answerLocal newRR snap view req name label qtype)"
  by (auto simp: answerLocal_def Let_def answerDNSSD_direct split: option.splits prod.splits if_splits)

lemma answerZoneOrVHost_direct: "direct (answerZoneOrVHost newRR snap view req name apex qtype)"
  by (auto simp: answerZoneOrVHost_def Let_def split: option.splits prod.splits)

lemma answerReverse_cases:
  "longestReverseZone name (s_reverse snap) = None \<Longrightarrow>
     answerReverse newRR snap view req name qtype = zero_outcome\<lparr>o_forward := True\<rparr>"
  "longestReverseZone name (s_reverse snap) \<noteq> None \<Longrightarrow>
     direct (answerReverse newRR snap view req name qtype)"
  by (auto simp: answerReverse_def Let_def split: option.splits prod.splits)

text \<open>The three modes of an outcome, as an enumeration.\<close>

datatype outcome_mode = ModeReply | ModeForward | ModeStub

definition mode_holds :: "outcome \<Rightarrow> outcome_mode \<Rightarrow> bool" where
  "mode_holds out md =
     (case md of ModeReply \<Rightarrow> o_msg out \<noteq> None
      | ModeForward \<Rightarrow> o_forward out
      | ModeStub \<Rightarrow> o_stub out \<noteq> [])"

lemma direct_mode: "direct out \<Longrightarrow> mode_holds out md \<longleftrightarrow> md = ModeReply"
  by (auto simp: direct_def mode_holds_def split: outcome_mode.splits)

lemma forward_mode: "mode_holds (zero_outcome\<lparr>o_forward := True\<rparr>) md \<longleftrightarrow> md = ModeForward"
  by (auto simp: mode_holds_def split: outcome_mode.splits)

lemma stub_mode: "tgt \<noteq> [] \<Longrightarrow> mode_holds (zero_outcome\<lparr>o_stub := tgt\<rparr>) md \<longleftrightarrow> md = ModeStub"
  by (auto simp: mode_holds_def split: outcome_mode.splits)

lemma resolve_unicast_mode: "\<exists>md. \<forall>m. mode_holds (resolve_unicast newRR snap view req name qtype) m \<longleftrightarrow> m = md"
  by (auto simp: resolve_unicast_def Let_def forward_mode stub_mode
      direct_mode [OF answerZoneOrVHost_direct] direct_mode [OF direct_out_msg])

lemma answerReverse_mode:
  "\<exists>md. \<forall>m. mode_holds (answerReverse newRR snap view req name qtype) m \<longleftrightarrow> m = md"
  by (cases "longestReverseZone name (s_reverse snap)")
    (auto simp: answerReverse_cases forward_mode direct_mode)

lemma resolve_name_mode: "\<exists>md. \<forall>m. mode_holds (resolve_name newRR snap view req name qtype) m \<longleftrightarrow> m = md"
  using resolve_unicast_mode [of newRR snap view req name qtype]
    answerReverse_mode [of newRR snap view req name qtype]
  by (auto simp: resolve_name_def direct_mode direct_mode [OF answerLocal_direct]
      direct_mode [OF direct_out_msg] dest!: answerStatic_direct split: option.splits)

text \<open>
  Every outcome is in exactly one of the three modes: a direct reply, the
  default upstreams, or the resolvers of a stub zone.
\<close>

theorem Resolve_one_mode: "\<exists>!md. mode_holds (Resolve newRR snap view req) md"
proof -
  have "\<exists>md. \<forall>m. mode_holds (Resolve newRR snap view req) m \<longleftrightarrow> m = md"
    using resolve_name_mode direct_mode [OF direct_out_msg]
    by (auto simp: Resolve_def split: list.splits)
  then show ?thesis by auto
qed

lemma Resolve_local_direct:
  assumes "msg_question req = [q]" "name = ToLower (Fqdn (q_name q))"
    "(localLabel snap name \<noteq> None \<and> \<not> isArpa name) \<or> isSuffixLabel name ''resolver.arpa.''"
  shows "direct (Resolve newRR snap view req)"
proof -
  have "direct (resolve_name newRR snap view req name (q_type q))"
    using assms(3)
    by (auto simp: resolve_name_def isSuffixLabel_def answerLocal_direct
        dest!: answerStatic_direct split: option.splits if_splits)
  then show ?thesis
    using assms(1,2) by (simp add: Resolve_def)
qed

text \<open>
  C21. Local names stay local: a query under \<open>.local\<close> or the configured local
  domain, or in the resolver discovery zone, is answered directly; it is neither
  forwarded nor sent to a stub resolver, whatever the snapshot and the view hold.
\<close>

theorem local_names_not_forwarded:
  assumes "msg_question req = [q]" and "name = ToLower (Fqdn (q_name q))"
    and "(localLabel snap name \<noteq> None \<and> \<not> isArpa name) \<or> isSuffixLabel name ''resolver.arpa.''"
  shows "mode_holds (Resolve newRR snap view req) md \<longleftrightarrow> md = ModeReply"
  by (rule direct_mode [OF Resolve_local_direct [OF assms]])

theorem local_names_not_forwarded_witness:
  "mode_holds (Resolve demo_newRR demo_snap demo_view (demo_query ''Printer.LAN'' TypeA)) ModeReply \<and>
   \<not> mode_holds (Resolve demo_newRR demo_snap demo_view (demo_query ''Printer.LAN'' TypeA)) ModeForward"
proof -
  have "ToLower (Fqdn ''Printer.LAN'') = ''printer.lan.'' \<and> localLabel demo_snap ''printer.lan.'' \<noteq> None \<and>
      \<not> isArpa ''printer.lan.''"
    by code_simp
  then show ?thesis
    using local_names_not_forwarded [of "demo_query ''Printer.LAN'' TypeA" "demo_question ''Printer.LAN'' TypeA"
        "''printer.lan.''" demo_snap demo_newRR demo_view]
    by (simp add: demo_query_def demo_question_def)
qed

section \<open>Recovering a local host\<close>

definition local_member :: "snapshot \<Rightarrow> string \<Rightarrow> bool" where
  "local_member snap m \<longleftrightarrow> m = ''local'' \<or> (s_local_domain snap \<noteq> [] \<and> m = s_local_domain snap)"

definition zone_member :: "snapshot \<Rightarrow> string \<Rightarrow> bool" where
  "zone_member snap m \<longleftrightarrow> (\<exists>apex \<in> fst ` set (s_zones snap). m = TrimSuffix apex ''.'')"

lemma stripMember_some:
  "stripMember cur m = (h, True) \<Longrightarrow> cur = h @ m @ ''.'' \<and> HasSuffix h ''.''"
  by (auto simp: stripMember_def Let_def HasSuffix_def suffix_def split: if_splits)

lemma strip_once_some:
  assumes "strip_once snap cur = Some (h, loc)"
  shows "\<exists>m. cur = h @ m @ ''.'' \<and> HasSuffix h ''.'' \<and>
    (if loc then local_member snap m else zone_member snap m)"
proof -
  have z: "longestZoneSuffix cur (s_zones snap) \<noteq> [] \<Longrightarrow>
    zone_member snap (TrimSuffix (longestZoneSuffix cur (s_zones snap)) ''.'')"
    using lz.pick_match [of cur "s_zones snap"] unfolding zone_member_def list.set_map by blast
  show ?thesis
    using assms z
    by (auto simp: strip_once_def Let_def local_member_def dest!: stripMember_some split: prod.splits if_splits)
qed

definition members_text :: "string list \<Rightarrow> string" where
  "members_text ms = concat (map (\<lambda>m. m @ ''.'') ms)"

lemma strip_loop_sound:
  "strip_loop snap k cur t0 s0 = (r, tainted, stripped) \<Longrightarrow>
   \<exists>ms. cur = r @ members_text ms \<and> length ms \<le> k \<and>
     (\<forall>m \<in> set ms. local_member snap m \<or> zone_member snap m) \<and>
     (stripped \<longleftrightarrow> s0 \<or> ms \<noteq> []) \<and> (HasSuffix cur ''.'' \<longrightarrow> HasSuffix r ''.'') \<and>
     (tainted \<longrightarrow> t0 \<or> (\<exists>m \<in> set ms. local_member snap m))"
proof (induction snap k cur t0 s0 rule: strip_loop.induct)
  case (1 snap cur tainted stripped)
  then show ?case by (auto simp: members_text_def intro: exI [of _ "[]"])
next
  case (2 snap k cur t0 s0)
  show ?case
  proof (cases "strip_once snap cur")
    case None
    with 2 show ?thesis by (auto simp: members_text_def intro: exI [of _ "[]"])
  next
    case (Some p)
    obtain h loc where p: "strip_once snap cur = Some (h, loc)" using Some by (cases p) auto
    then have "strip_loop snap k h (t0 \<or> loc) True = (r, tainted, stripped)" using 2 by simp
    then obtain ms where ms: "h = r @ members_text ms" "length ms \<le> k" "stripped"
      "\<forall>m \<in> set ms. local_member snap m \<or> zone_member snap m"
      "tainted \<longrightarrow> t0 \<or> loc \<or> (\<exists>m \<in> set ms. local_member snap m)"
      "HasSuffix h ''.'' \<longrightarrow> HasSuffix r ''.''"
      using 2 (1) [OF p refl] by auto
    obtain m where m: "cur = h @ m @ ''.''" "HasSuffix h ''.''"
      "if loc then local_member snap m else zone_member snap m"
      using strip_once_some [OF p] by blast
    have "cur = r @ members_text (ms @ [m])" using ms m by (simp add: members_text_def)
    moreover have "length (ms @ [m]) \<le> Suc k" using ms by simp
    moreover have "\<forall>x \<in> set (ms @ [m]). local_member snap x \<or> zone_member snap x"
      using ms m by (auto split: if_splits)
    moreover have "tainted \<longrightarrow> t0 \<or> (\<exists>x \<in> set (ms @ [m]). local_member snap x)"
      using ms m by (auto split: if_splits)
    ultimately show ?thesis using ms(3,6) m(2) by (intro exI [of _ "ms @ [m]"]) auto
  qed
qed

text \<open>
  Recovery of the host a query meant is sound: a recovered host is one label
  (no dot, no leading underscore, not a local suffix itself), and the query name
  is that host followed by one to eight complete suffixes, each a local suffix or
  a zone apex; a result marked as tainted has a local suffix among them.
\<close>

theorem recoverLocalHost_sound:
  assumes "recoverLocalHost snap name = (host, tainted, True)" and "HasSuffix name ''.''"
  shows "\<exists>ms. name = host @ ''.'' @ members_text ms \<and> 1 \<le> length ms \<and> length ms \<le> 8 \<and>
      (\<forall>m \<in> set ms. local_member snap m \<or> zone_member snap m) \<and>
      (tainted \<longrightarrow> (\<exists>m \<in> set ms. local_member snap m)) \<and>
      host \<noteq> [] \<and> CHR ''.'' \<notin> set host \<and> \<not> HasPrefix host ''_'' \<and> \<not> local_member snap host"
proof -
  obtain cur t st where l: "strip_loop snap 8 name False False = (cur, t, st)"
    by (cases "strip_loop snap 8 name False False") auto
  let ?label = "TrimSuffix cur ''.''"
  have r: "st" "host = ?label" "tainted = t" "?label \<noteq> []" "CHR ''.'' \<notin> set ?label"
    "\<not> HasPrefix ?label ''_''" "\<not> local_member snap ?label"
    using assms(1) l by (auto simp: recoverLocalHost_def Let_def ContainsByte_def local_member_def
        split: if_splits)
  obtain ms where ms: "name = cur @ members_text ms" "length ms \<le> 8" "ms \<noteq> []"
    "\<forall>m \<in> set ms. local_member snap m \<or> zone_member snap m" "HasSuffix cur ''.''"
    "t \<longrightarrow> (\<exists>m \<in> set ms. local_member snap m)"
    using strip_loop_sound [OF l] assms(2) r(1) by auto
  have "cur = ?label @ ''.''"
    by (rule TrimSuffix_decomp) (rule ms(5))
  then have "name = host @ ''.'' @ members_text ms"
    using ms(1) r(2) by (metis append.assoc)
  moreover have "1 \<le> length ms"
    using ms(3) by (simp add: Suc_le_eq)
  ultimately show ?thesis
    using ms r by blast
qed

theorem recoverLocalHost_sound_witness:
  "\<exists>ms. ''nas.lan.example.com.'' = ''nas'' @ ''.'' @ members_text ms \<and> 1 \<le> length ms \<and> length ms \<le> 8 \<and>
     (\<exists>m \<in> set ms. local_member demo_snap m)"
proof -
  have "recoverLocalHost demo_snap ''nas.lan.example.com.'' = (''nas'', True, True) \<and>
      HasSuffix ''nas.lan.example.com.'' ''.''"
    by code_simp
  then show ?thesis
    using recoverLocalHost_sound [of demo_snap "''nas.lan.example.com.''" "''nas''" True] by blast
qed

section \<open>The local plane\<close>

lemma localServeAddrs_trusted:
  "localServeAddrs view host qtype True scope =
     filter rr_trusted (filter (serve_ok qtype scope) (gm_list (v_forward view) host))"
  by (auto simp: localServeAddrs_def Let_def)

text \<open>The view without its self-announced addresses.\<close>

definition drop_untrusted :: "mdns_view \<Rightarrow> mdns_view" where
  "drop_untrusted view =
     view\<lparr>v_forward := map (\<lambda>(h, rs). (h, filter rr_trusted rs)) (v_forward view)\<rparr>"

lemma drop_untrusted_reverse: "v_reverse (drop_untrusted view) = v_reverse view"
  by (simp add: drop_untrusted_def)

lemma gm_list_map_filter:
  "gm_list (map (\<lambda>(h, rs). (h, filter P rs)) m) k = filter P (gm_list m k)"
  by (induction m) (auto simp: gm_list_def)

lemma restricted_addrs_trusted_only:
  "restrictedLabel snap host \<Longrightarrow>
   localHostAddrs snap (drop_untrusted view) host scope = localHostAddrs snap view host scope"
  by (simp add: localHostAddrs_def Let_def localServeAddrs_trusted drop_untrusted_def
      gm_list_map_filter) (auto simp: filter_eq_self_iff conj_commute intro!: filter_cong)

lemma resolve_name_view_cong:
  assumes "isArpa name \<Longrightarrow>
      answerReverse newRR snap view req name qtype = answerReverse newRR snap view' req name qtype"
    and "\<And>lbl. localLabel snap name = Some lbl \<Longrightarrow>
      answerLocal newRR snap view req name lbl qtype = answerLocal newRR snap view' req name lbl qtype"
    and "localLabel snap name = None \<Longrightarrow>
      resolve_unicast newRR snap view req name qtype = resolve_unicast newRR snap view' req name qtype"
  shows "resolve_name newRR snap view req name qtype = resolve_name newRR snap view' req name qtype"
  using assms by (simp add: resolve_name_def split: option.split)

text \<open>
  C2. A self-announced address never answers for a managed name: when the host
  that a query on the local plane means is restricted (a redirected label or one
  the dynamic DNS writer maintains), the outcome is the one obtained after
  deleting every untrusted record from the view, so no announcement on the
  network can change it.
\<close>

theorem restricted_local_answer_trusted_only:
  assumes "msg_question req = [q]" and "name = ToLower (Fqdn (q_name q))"
    and "localLabel snap name = Some lbl"
    and "recoverLocalHost snap name = (host, tainted, True)" and "restrictedLabel snap host"
    and "s_serve_dnssd snap \<longrightarrow> parseDNSSD lbl = SD_none"
  shows "Resolve newRR snap (drop_untrusted view) req = Resolve newRR snap view req"
proof -
  have "answerLocal newRR snap (drop_untrusted view) req name lbl t = answerLocal newRR snap view req name lbl t" for t
    using assms(4-6) by (simp add: answerLocal_def Let_def restricted_addrs_trusted_only answerDNSSD_def)
  moreover have "answerReverse newRR snap (drop_untrusted view) req name t = answerReverse newRR snap view req name t" for t
    by (simp only: answerReverse_def drop_untrusted_reverse)
  ultimately have "resolve_name newRR snap (drop_untrusted view) req name t =
      resolve_name newRR snap view req name t" for t
    using assms(3) by (intro resolve_name_view_cong) auto
  then show ?thesis
    using assms(1,2) by (simp add: Resolve_def)
qed

theorem restricted_local_answer_trusted_only_witness:
  "Resolve demo_newRR demo_snap (drop_untrusted demo_view) (demo_query ''nas.lan.'' TypeA) =
     Resolve demo_newRR demo_snap demo_view (demo_query ''nas.lan.'' TypeA) \<and>
   map_option (\<lambda>m. map dr_data (msg_answer m))
     (o_msg (Resolve demo_newRR demo_snap demo_view (demo_query ''nas.lan.'' TypeA))) = Some [RD_A (Addr4 0xc0a8010a)]"
proof
  have "ToLower (Fqdn ''nas.lan.'') = ''nas.lan.'' \<and> localLabel demo_snap ''nas.lan.'' = Some ''nas'' \<and>
      recoverLocalHost demo_snap ''nas.lan.'' = (''nas'', True, True) \<and> restrictedLabel demo_snap ''nas'' \<and>
      \<not> s_serve_dnssd demo_snap"
    by code_simp
  then show "Resolve demo_newRR demo_snap (drop_untrusted demo_view) (demo_query ''nas.lan.'' TypeA) =
     Resolve demo_newRR demo_snap demo_view (demo_query ''nas.lan.'' TypeA)"
    using restricted_local_answer_trusted_only [of "demo_query ''nas.lan.'' TypeA"
        "demo_question ''nas.lan.'' TypeA" "''nas.lan.''" demo_snap "''nas''" "''nas''" True]
    by (simp add: demo_query_def demo_question_def)
  show "map_option (\<lambda>m. map dr_data (msg_answer m))
     (o_msg (Resolve demo_newRR demo_snap demo_view (demo_query ''nas.lan.'' TypeA))) = Some [RD_A (Addr4 0xc0a8010a)]"
    by code_simp
qed

lemma localServeAddrs_none:
  "localServeAddrs view host qtype False scope = [] \<longleftrightarrow>
     filter (serve_ok qtype scope) (gm_list (v_forward view) host) = []"
  by (auto simp: localServeAddrs_def Let_def filter_empty_conv)

lemma answerDNSSD_no_miss: "answerDNSSD view resp name lbl qtype = Some out \<Longrightarrow> \<not> o_local_miss out"
  by (auto simp: answerDNSSD_def Let_def split: dnssd_node.splits)

lemma answerLocal_miss:
  assumes "o_local_miss (answerLocal newRR snap view req name lbl qtype)"
  shows "\<exists>host tainted. recoverLocalHost snap name = (host, tainted, True) \<and>
    \<not> restrictedLabel snap host \<and> qtype \<in> {TypeA, TypeAAAA, TypeANY} \<and>
    filter (serve_ok TypeA False) (gm_list (v_forward view) host) = [] \<and>
    filter (serve_ok TypeAAAA False) (gm_list (v_forward view) host) = [] \<and>
    answerLocal newRR snap view req name lbl qtype =
      (out_msg ((reply req)\<lparr>msg_aa := True, msg_rcode := RcodeNameError\<rparr>))
        \<lparr>o_local_miss := True, o_local_label := host\<rparr>"
proof -
  let ?sd = "if s_serve_dnssd snap then answerDNSSD view ((reply req)\<lparr>msg_aa := True\<rparr>) name lbl qtype else None"
  have "?sd = Some out \<Longrightarrow> answerLocal newRR snap view req name lbl qtype = out \<and> \<not> o_local_miss out" for out
    by (auto simp: answerLocal_def Let_def answerDNSSD_no_miss split: if_splits)
  then have sd: "?sd = None"
    using assms by (cases "?sd") auto
  obtain host tainted ok where r: "recoverLocalHost snap name = (host, tainted, ok)"
    by (cases "recoverLocalHost snap name") auto
  have body: "answerLocal newRR snap view req name lbl qtype =
     (if \<not> ok then out_msg ((reply req)\<lparr>msg_aa := True, msg_rcode := RcodeNameError\<rparr>)
      else
        (let (v4, v6, restricted) = localHostAddrs snap view host False in
         if v4 = [] \<and> v6 = [] then
           (let out = out_msg ((reply req)\<lparr>msg_aa := True, msg_rcode := RcodeNameError\<rparr>) in
            if \<not> restricted \<and> (qtype = TypeA \<or> qtype = TypeAAAA \<or> qtype = TypeANY)
            then out\<lparr>o_local_miss := True, o_local_label := host\<rparr> else out)
         else out_msg (fillLocalAddrs newRR ((reply req)\<lparr>msg_aa := True\<rparr>) name qtype v4 v6)))"
    unfolding answerLocal_def Let_def sd r by simp
  show ?thesis
    using assms r unfolding body
    by (cases ok; cases "restrictedLabel snap host")
      (auto simp: Let_def localHostAddrs_def localServeAddrs_none split: if_splits)
qed

lemma local_miss_only_local:
  "o_local_miss (resolve_name newRR snap view req name qtype) \<Longrightarrow>
   \<exists>lbl. localLabel snap name = Some lbl \<and> map_of (s_static snap) name = None \<and> \<not> isArpa name \<and>
     resolve_name newRR snap view req name qtype = answerLocal newRR snap view req name lbl qtype"
proof -
  have z: "\<not> o_local_miss (answerZoneOrVHost newRR snap view req name apex qtype)" for apex
    by (auto simp: answerZoneOrVHost_def Let_def split: option.splits prod.splits)
  have u: "\<not> o_local_miss (resolve_unicast newRR snap view req name qtype)"
    using z by (auto simp: resolve_unicast_def Let_def)
  have r: "\<not> o_local_miss (answerReverse newRR snap view req name qtype)"
    by (auto simp: answerReverse_def Let_def split: option.splits prod.splits)
  show "o_local_miss (resolve_name newRR snap view req name qtype) \<Longrightarrow> ?thesis"
    using u r by (auto simp: resolve_name_def answerStatic_def Let_def split: option.splits if_splits)
qed

text \<open>
  The on-demand signal is exact in what it permits: when the resolver asks
  for an mDNS solicitation, the name is under a local suffix and not static, the
  query is for addresses, the label handed to the solicitor is the recovered host,
  that host is not a managed name and has no servable address in the view, and
  the reply meanwhile is an empty authoritative NXDOMAIN.
\<close>

theorem local_miss_sound:
  assumes "msg_question req = [q]" and "name = ToLower (Fqdn (q_name q))"
    and "o_local_miss (Resolve newRR snap view req)"
  shows "localLabel snap name \<noteq> None \<and> map_of (s_static snap) name = None \<and>
    q_type q \<in> {TypeA, TypeAAAA, TypeANY} \<and>
    (\<exists>host tainted. recoverLocalHost snap name = (host, tainted, True) \<and> \<not> restrictedLabel snap host \<and>
      filter (\<lambda>r. serve_ok TypeA False r \<or> serve_ok TypeAAAA False r) (gm_list (v_forward view) host) = [] \<and>
      Resolve newRR snap view req =
        (out_msg ((reply req)\<lparr>msg_aa := True, msg_rcode := RcodeNameError\<rparr>))
          \<lparr>o_local_miss := True, o_local_label := host\<rparr>)"
proof -
  have e: "Resolve newRR snap view req = resolve_name newRR snap view req name (q_type q)"
    using assms(1,2) by (simp add: Resolve_def)
  obtain lbl where l: "localLabel snap name = Some lbl" "map_of (s_static snap) name = None"
    "resolve_name newRR snap view req name (q_type q) = answerLocal newRR snap view req name lbl (q_type q)"
    using local_miss_only_local assms(3) unfolding e by blast
  have m: "o_local_miss (answerLocal newRR snap view req name lbl (q_type q))"
    using assms(3) e l(3) by simp
  obtain host tainted where h: "recoverLocalHost snap name = (host, tainted, True)"
    "\<not> restrictedLabel snap host" "q_type q \<in> {TypeA, TypeAAAA, TypeANY}"
    "filter (serve_ok TypeA False) (gm_list (v_forward view) host) = []"
    "filter (serve_ok TypeAAAA False) (gm_list (v_forward view) host) = []"
    "answerLocal newRR snap view req name lbl (q_type q) =
      (out_msg ((reply req)\<lparr>msg_aa := True, msg_rcode := RcodeNameError\<rparr>))
        \<lparr>o_local_miss := True, o_local_label := host\<rparr>"
    using answerLocal_miss [OF m] by blast
  have "filter (\<lambda>r. serve_ok TypeA False r \<or> serve_ok TypeAAAA False r) (gm_list (v_forward view) host) = []"
    using h(4,5) by (simp add: filter_empty_conv)
  moreover have "Resolve newRR snap view req =
      (out_msg ((reply req)\<lparr>msg_aa := True, msg_rcode := RcodeNameError\<rparr>))
        \<lparr>o_local_miss := True, o_local_label := host\<rparr>"
    using e l(3) h(6) by (simp only:)
  ultimately show ?thesis
    using h(1-3) l(1,2) by blast
qed

theorem local_miss_sound_witness:
  "o_local_label (Resolve demo_newRR demo_snap demo_view (demo_query ''laptop.lan.'' TypeA)) = ''laptop'' \<and>
   \<not> restrictedLabel demo_snap ''laptop''"
proof -
  let ?out = "Resolve demo_newRR demo_snap demo_view (demo_query ''laptop.lan.'' TypeA)"
  have e: "o_local_miss ?out \<and> ToLower (Fqdn ''laptop.lan.'') = ''laptop.lan.'' \<and>
      recoverLocalHost demo_snap ''laptop.lan.'' = (''laptop'', True, True)"
    by code_simp
  then obtain host tainted where "recoverLocalHost demo_snap ''laptop.lan.'' = (host, tainted, True)"
    "\<not> restrictedLabel demo_snap host"
    "?out = (out_msg ((reply (demo_query ''laptop.lan.'' TypeA))\<lparr>msg_aa := True, msg_rcode := RcodeNameError\<rparr>))
       \<lparr>o_local_miss := True, o_local_label := host\<rparr>"
    using local_miss_sound [of "demo_query ''laptop.lan.'' TypeA" "demo_question ''laptop.lan.'' TypeA"
        "''laptop.lan.''" demo_newRR demo_snap demo_view]
    by (auto simp: demo_query_def demo_question_def)
  then show ?thesis
    using e by simp
qed

section \<open>Names of mirrored zones\<close>

lemma answerZoneOrVHost_published:
  assumes "map_of (s_zones snap) apex = Some zone"
    and "gm_has (z_records zone) (relativeOwner name apex) \<or> gm_has (z_tunnel zone) (relativeOwner name apex)"
  shows "answerZoneOrVHost newRR snap view req name apex qtype =
    out_msg (if isVHostCandidate snap apex (relativeOwner name apex)
      then vhostReply newRR snap req name (relativeOwner name apex) qtype (Some zone)
      else answerAuthoritative newRR req (Some zone) name (relativeOwner name apex) qtype)"
proof -
  have f: "(\<not> gm_has (z_records zone) (relativeOwner name apex) \<and>
      \<not> gm_has (z_tunnel zone) (relativeOwner name apex)) = False"
    using assms(2) by blast
  show ?thesis
    unfolding answerZoneOrVHost_def
    by (simp only: Let_def assms(1) option.case f simp_thms if_False case_prod_beta if_distrib [of out_msg])
qed

text \<open>
  C22. Published records cannot be shadowed from the network: for a name of a
  mirrored zone whose owner has records or flattened addresses, and that is neither
  under \<open>.local\<close> or the local domain nor a reverse name, the outcome does not depend on
  the mDNS view at all.  (The local domain has precedence over a mirrored zone, and
  reverse names are also answered from the view.)
\<close>

theorem published_name_ignores_mdns:
  assumes "msg_question req = [q]" and "name = ToLower (Fqdn (q_name q))"
    and "localLabel snap name = None" and "\<not> isArpa name"
    and "apex = longestZoneSuffix name (s_zones snap)" and "map_of (s_zones snap) apex = Some zone"
    and "gm_has (z_records zone) (relativeOwner name apex) \<or> gm_has (z_tunnel zone) (relativeOwner name apex)"
  shows "Resolve newRR snap view req = Resolve newRR snap view' req"
proof -
  have "answerZoneOrVHost newRR snap view req name apex t = answerZoneOrVHost newRR snap view' req name apex t" for t
    using assms(6,7) by (simp only: answerZoneOrVHost_published)
  then have "resolve_unicast newRR snap view req name t = resolve_unicast newRR snap view' req name t" for t
    unfolding resolve_unicast_def Let_def using assms(5) by auto
  then have "resolve_name newRR snap view req name t = resolve_name newRR snap view' req name t" for t
    using assms(3,4) by (intro resolve_name_view_cong) auto
  then show ?thesis
    using assms(1,2) by (simp add: Resolve_def)
qed

theorem published_name_ignores_mdns_witness:
  "Resolve demo_newRR demo_snap demo_view (demo_query ''web.example.com.'' TypeA) =
     Resolve demo_newRR demo_snap (drop_untrusted demo_view) (demo_query ''web.example.com.'' TypeA)"
proof -
  have "ToLower (Fqdn ''web.example.com.'') = ''web.example.com.'' \<and> localLabel demo_snap ''web.example.com.'' = None \<and>
      \<not> isArpa ''web.example.com.'' \<and>
      ''example.com.'' = longestZoneSuffix ''web.example.com.'' (s_zones demo_snap) \<and>
      gm_has (z_records demo_zone) (relativeOwner ''web.example.com.'' ''example.com.'')"
    by code_simp
  moreover have "map_of (s_zones demo_snap) ''example.com.'' = Some demo_zone"
    by (simp add: demo_snap_def)
  ultimately show ?thesis
    using published_name_ignores_mdns [of "demo_query ''web.example.com.'' TypeA"
        "demo_question ''web.example.com.'' TypeA" "''web.example.com.''" demo_snap "''example.com.''" demo_zone]
    by (simp add: demo_query_def demo_question_def)
qed

lemma fillLocalAddrs_set:
  "d \<in> set (msg_answer (fillLocalAddrs newRR resp name qtype v4 v6)) \<Longrightarrow>
   d \<in> set (msg_answer resp) \<or> (\<exists>r \<in> set v4 \<union> set v6. toRR newRR r name = Some d)"
  by (auto simp: fillLocalAddrs_def matching_set split: if_splits)

lemma localServeAddrs_subset:
  "set (localServeAddrs view host qtype restricted scope) \<subseteq>
     {r \<in> set (gm_list (v_forward view) host). serve_ok qtype scope r}"
  by (auto simp: localServeAddrs_def Let_def split: if_splits)

lemma serve_ok_local: "serve_ok t True r \<Longrightarrow> rr_local r"
  by (auto simp: serve_ok_def rr_local_def split: option.splits if_splits)

lemma localRecovered_from_view:
  assumes "d \<in> set (msg_answer (localRecoveredZoneReply newRR snap view req name host qtype zone))"
  shows "\<exists>r \<in> set (gm_list (v_forward view) host). rr_local r \<and> toRR newRR r name = Some d"
proof -
  let ?v4 = "localServeAddrs view host TypeA (restrictedLabel snap host) True"
  let ?v6 = "localServeAddrs view host TypeAAAA (restrictedLabel snap host) True"
  have sub: "r \<in> set ?v4 \<union> set ?v6 \<Longrightarrow> r \<in> set (gm_list (v_forward view) host) \<and> rr_local r" for r
    using localServeAddrs_subset [of view host _ "restrictedLabel snap host" True] serve_ok_local
    by blast
  have "d \<in> set (msg_answer (fillLocalAddrs newRR ((reply req)\<lparr>msg_aa := True\<rparr>) name qtype ?v4 ?v6))"
    using assms by (auto simp: localRecoveredZoneReply_def localHostAddrs_def Let_def split: if_splits)
  then show ?thesis
    using fillLocalAddrs_set sub by fastforce
qed

lemma localScopeAddrs_subset: "set (localScopeAddrs recs) \<subseteq> set recs"
  by (auto simp: localScopeAddrs_def Let_def preferLocal_def split: if_splits)

text \<open>
  A search-list artifact never gets the public wildcard: for a zone name that
  carries a local suffix and is not published itself (nor redirected), every
  address record of the answer was announced on the local network; it is rendered
  from a record of the view, never from the zone.
\<close>

theorem tainted_name_no_wildcard:
  assumes "msg_question req = [q]" and "name = ToLower (Fqdn (q_name q))"
    and "q_type q = TypeA \<or> q_type q = TypeAAAA"
    and "answerStatic newRR snap req name (q_type q) = None" and "ddr_adn_match snap name = None"
    and "localLabel snap name = None" and "\<not> isArpa name" and "\<not> isSuffixLabel name ''resolver.arpa.''"
    and "apex = longestZoneSuffix name (s_zones snap)" and "map_of (s_zones snap) apex = Some zone"
    and "\<not> name_exists zone (relativeOwner name apex)" and "\<not> isVHostCandidate snap apex (relativeOwner name apex)"
    and "recoverLocalHost snap name = (host, True, ok)"
    and "o_msg (Resolve newRR snap view req) = Some resp" and "d \<in> set (msg_answer resp)"
  shows "\<exists>h. \<exists>r \<in> set (gm_list (v_forward view) h). toRR newRR r name = Some d"
proof -
  have "Resolve newRR snap view req = resolve_unicast newRR snap view req name (q_type q)"
    using assms(1,2,4-8) by (auto simp: Resolve_def resolve_name_def isSuffixLabel_def split: if_splits)
  then have out: "o_msg (answerZoneOrVHost newRR snap view req name apex (q_type q)) = Some resp"
    using assms(3,9,14) by (auto simp: resolve_unicast_def Let_def minimalANY_def split: if_splits)
  let ?owner = "relativeOwner name apex" and ?local = "localScopeAddrs (gm_list (v_forward view) (relativeOwner name apex))"
  from out assms(10-13) consider
      "resp = mdnsZoneReply newRR zone req name ?owner (q_type q) ?local"
    | "resp = localRecoveredZoneReply newRR snap view req name host (q_type q) zone"
    | "resp = nxdomainZoneSOA newRR req zone"
    by (auto simp: answerZoneOrVHost_def Let_def name_exists_def split: if_splits)
  then show ?thesis
  proof cases
    case 1
    then have "d \<in> set (matching newRR ?local name (q_type q))"
      using assms(3,15) by (auto simp: mdnsZoneReply_def Let_def split: if_splits)
    then show ?thesis
      using localScopeAddrs_subset by (fastforce simp: matching_set)
  next
    case 2
    then show ?thesis using localRecovered_from_view assms(15) by blast
  next
    case 3
    then show ?thesis using assms(15) by (simp add: nxdomainZoneSOA_def)
  qed
qed

theorem tainted_name_no_wildcard_witness:
  "\<exists>resp d. o_msg (Resolve demo_newRR demo_snap demo_view (demo_query ''nas.lan.example.com.'' TypeA)) = Some resp \<and>
     msg_answer resp = [d] \<and> dr_data d = RD_A (Addr4 0xc0a8010a) \<and>
     (\<exists>h. \<exists>r \<in> set (gm_list (v_forward demo_view) h). toRR demo_newRR r ''nas.lan.example.com.'' = Some d)"
proof -
  let ?n = "''nas.lan.example.com.''"
  let ?out = "o_msg (Resolve demo_newRR demo_snap demo_view (demo_query ?n TypeA))"
  have e: "ToLower (Fqdn ?n) = ?n \<and> answerStatic demo_newRR demo_snap (demo_query ?n TypeA) ?n TypeA = None \<and>
     ddr_adn_match demo_snap ?n = None \<and> localLabel demo_snap ?n = None \<and> \<not> isArpa ?n \<and>
     \<not> isSuffixLabel ?n ''resolver.arpa.'' \<and> ''example.com.'' = longestZoneSuffix ?n (s_zones demo_snap) \<and>
     \<not> name_exists demo_zone (relativeOwner ?n ''example.com.'') \<and>
     \<not> isVHostCandidate demo_snap ''example.com.'' (relativeOwner ?n ''example.com.'') \<and>
     recoverLocalHost demo_snap ?n = (''nas'', True, True) \<and> ?out \<noteq> None \<and>
     length (msg_answer (the ?out)) = 1 \<and> dr_data (hd (msg_answer (the ?out))) = RD_A (Addr4 0xc0a8010a)"
    by code_simp
  then obtain resp d where r: "?out = Some resp" "msg_answer resp = [d]" "dr_data d = RD_A (Addr4 0xc0a8010a)"
    by (cases ?out) (auto simp: length_Suc_conv)
  have z: "map_of (s_zones demo_snap) ''example.com.'' = Some demo_zone"
    by (simp add: demo_snap_def)
  have q: "msg_question (demo_query ?n TypeA) = [demo_question ?n TypeA]" "q_name (demo_question ?n TypeA) = ?n"
    "q_type (demo_question ?n TypeA) = TypeA"
    by (simp_all add: demo_query_def demo_question_def)
  have "\<exists>h. \<exists>r \<in> set (gm_list (v_forward demo_view) h). toRR demo_newRR r ?n = Some d"
    by (rule tainted_name_no_wildcard [where req = "demo_query ?n TypeA" and q = "demo_question ?n TypeA"
          and snap = demo_snap and apex = "''example.com.''" and zone = demo_zone and host = "''nas''" and
          ok = True and resp = resp and view = demo_view and newRR = demo_newRR])
      (use e r z q in simp_all)
  then show ?thesis
    using r by blast
qed

section \<open>Redirected names\<close>

text \<open>The zone without its address, alias and service-binding record sets.\<close>

definition strip_sets :: "rrsets \<Rightarrow> rrsets" where
  "strip_sets sets = filter (\<lambda>(t, _). \<not> overrideStripped t) sets"

definition strip_zone :: "zone \<Rightarrow> zone" where
  "strip_zone zone = zone\<lparr>z_records := map (\<lambda>(o', s). (o', strip_sets s)) (z_records zone),
     z_wildcards := strip_sets (z_wildcards zone)\<rparr>"

lemma gm_list_strip: "\<not> overrideStripped t \<Longrightarrow> gm_list (strip_sets s) t = gm_list s t"
  by (induction s) (auto simp: strip_sets_def gm_list_def)

lemma set_rrs_strip: "set_rrs newRR overrideStripped name (strip_sets s) = set_rrs newRR overrideStripped name s"
  by (induction s) (auto simp: strip_sets_def set_rrs_def)

lemma rrsets_at_strip: "rrsets_at (map (\<lambda>(o', s). (o', strip_sets s)) m) k = strip_sets (rrsets_at m k)"
  by (induction m) (auto simp: rrsets_at_def strip_sets_def)

lemma vhostInherited_strip:
  "vhostInherited (Some (strip_zone zone)) owner = strip_sets (vhostInherited (Some zone) owner)"
  by (simp add: vhostInherited_def strip_zone_def rrsets_at_strip)

text \<open>
  A redirected name resolves to the reverse proxy and nothing else of the
  zone's address plane: the reply is the same after removing every address, CNAME,
  HTTPS and SVCB record set from the zone, and an address query is answered with
  exactly the proxy address of that family.
\<close>

theorem vhost_only_proxy_addresses:
  "vhostReply newRR snap req name owner qtype (Some (strip_zone zone)) =
     vhostReply newRR snap req name owner qtype (Some zone) \<and>
   msg_answer (vhostReply newRR snap req name owner TypeA (Some zone)) =
     (if IsValid (s_vhost4 snap) then [proxy_rr newRR name TypeA (s_vhost4 snap)] else []) \<and>
   msg_answer (vhostReply newRR snap req name owner TypeAAAA (Some zone)) =
     (if IsValid (s_vhost6 snap) then [proxy_rr newRR name TypeAAAA (s_vhost6 snap)] else [])"
proof (intro conjI)
  have soa: "z_soa (strip_zone zone) = z_soa zone" "z_apex (strip_zone zone) = z_apex zone"
    by (simp_all add: strip_zone_def)
  have "overrideStripped qtype \<longleftrightarrow> qtype = TypeA \<or> qtype = TypeAAAA \<or> qtype = TypeCNAME \<or>
      qtype = TypeHTTPS \<or> qtype = TypeSVCB"
    by (auto simp: overrideStripped_def)
  then show "vhostReply newRR snap req name owner qtype (Some (strip_zone zone)) =
     vhostReply newRR snap req name owner qtype (Some zone)"
    by (simp add: vhostReply_def Let_def soa vhostInherited_strip append_sets_answer set_rrs_strip gm_list_strip)
qed (simp_all add: vhostReply_def Let_def)

section \<open>Reverse names\<close>

definition ptr_host :: "rr \<Rightarrow> string option" where
  "ptr_host r =
     (let target = (if rr_target r = [] then rr_content r else rr_target r);
          host = TrimSuffix target ''.local.'' in
      if host = target \<or> host = [] then None else Some host)"

definition host_rank :: "string \<Rightarrow> bool \<times> string" where
  "host_rank h = (looksLikeID h, h)"

lemma betterCanonical_rank: "betterCanonical h b \<longleftrightarrow> host_rank h < host_rank b"
  by (auto simp: betterCanonical_def Let_def host_rank_def less_prod_def)

lemma canonical_loop_rank:
  "b \<noteq> [] \<Longrightarrow>
   fst (canonical_loop rs b n) \<noteq> [] \<and>
   host_rank (fst (canonical_loop rs b n)) =
     Min (insert (host_rank b) (host_rank ` set (List.map_filter ptr_host rs)))"
proof (induction rs arbitrary: b n)
  case Nil
  then show ?case by (simp add: map_filter_simps)
next
  case (Cons r rs)
  show ?case
  proof (cases "ptr_host r")
    case None
    then have "canonical_loop (r # rs) b n = canonical_loop rs b n"
      by (auto simp: ptr_host_def Let_def split: if_splits)
    with None Cons show ?thesis by (simp add: map_filter_simps)
  next
    case (Some h)
    then have h: "h \<noteq> []" "canonical_loop (r # rs) b n =
        (if betterCanonical h b then canonical_loop rs h (rr_ttl r) else canonical_loop rs b n)"
      using Cons.prems by (auto simp: ptr_host_def Let_def split: if_splits)
    have fin: "finite (host_rank ` set (List.map_filter ptr_host rs))" by simp
    show ?thesis
      using Cons.IH [of h "rr_ttl r"] Cons.IH [of b n] Cons.prems h Some
      by (cases "host_rank ` set (List.map_filter ptr_host rs) = {}")
        (auto simp: map_filter_simps betterCanonical_rank min_def)
  qed
qed

lemma canonical_loop_best:
  "fst (canonical_loop rs [] n) =
     (if List.map_filter ptr_host rs = [] then []
      else snd (Min (host_rank ` set (List.map_filter ptr_host rs))))"
proof (induction rs arbitrary: n)
  case Nil
  then show ?case by (simp add: map_filter_simps)
next
  case (Cons r rs)
  show ?case
  proof (cases "ptr_host r")
    case None
    then have "canonical_loop (r # rs) [] n = canonical_loop rs [] n"
      by (auto simp: ptr_host_def Let_def split: if_splits)
    with None Cons show ?thesis by (simp add: map_filter_simps)
  next
    case (Some h)
    then have h: "h \<noteq> []" "canonical_loop (r # rs) [] n = canonical_loop rs h (rr_ttl r)"
      by (auto simp: ptr_host_def Let_def split: if_splits)
    have "snd (host_rank (fst (canonical_loop rs h (rr_ttl r)))) = fst (canonical_loop rs h (rr_ttl r))"
      by (simp add: host_rank_def)
    with h Some canonical_loop_rank [of h rs "rr_ttl r"] show ?thesis
      by (simp add: map_filter_simps)
  qed
qed

text \<open>
  One canonical name per address, whatever order the announcements come in:
  the synthesized PTR points at the least candidate host, real names before
  machine identifiers and then by spelling; there is no PTR exactly when no
  announcement names a \<open>.local\<close> host.
\<close>

theorem canonicalReversePTR_least:
  "map_option dr_data (canonicalReversePTR ptrs name ldom) =
     (if List.map_filter ptr_host ptrs = [] then None
      else Some (RD_PTR (snd (Min (host_rank ` set (List.map_filter ptr_host ptrs))) @
        (if ldom \<noteq> [] then ''.'' @ ldom @ ''.'' else ''.local.''))))"
proof -
  have "List.map_filter ptr_host ptrs \<noteq> [] \<Longrightarrow> fst (canonical_loop ptrs [] 0) \<noteq> []"
  proof -
    assume ne: "List.map_filter ptr_host ptrs \<noteq> []"
    then have "Min (host_rank ` set (List.map_filter ptr_host ptrs)) \<in>
        host_rank ` set (List.map_filter ptr_host ptrs)"
      by (intro Min_in) auto
    then obtain h where "h \<in> set (List.map_filter ptr_host ptrs)"
      "Min (host_rank ` set (List.map_filter ptr_host ptrs)) = host_rank h" by auto
    then show ?thesis
      using ne by (auto simp: canonical_loop_best host_rank_def map_filter_set ptr_host_def Let_def split: if_splits)
  qed
  then show ?thesis
    using canonical_loop_best [of ptrs 0]
    by (auto simp: canonicalReversePTR_def Let_def mk_rr_def split: prod.splits if_splits)
qed

section \<open>Forwarding\<close>

lemma stubBest_key: "stubBest name stubs = longest_key name (map fst stubs) []"
  by (simp add: stubBest_def longest_key_def fold_map comp_def case_prod_unfold)

interpretation ls: longest_suffix "map fst" stubBest
proof
  fix n a :: string and t :: "(string, stub_zone) gomap"
  show "stubBest n t \<noteq> [] \<Longrightarrow> stubBest n t \<in> set (map fst t) \<and> isSuffixLabel n (stubBest n t)"
    unfolding stubBest_key using longest_key_match [of n "map fst t" "[]"] by auto
  show "a \<in> set (map fst t) \<Longrightarrow> isSuffixLabel n a \<Longrightarrow> length a \<le> length (stubBest n t)"
    unfolding stubBest_key by (rule longest_key_longest)
qed

text \<open>
  Which ANY queries leave the box: an ANY query is passed to the default
  upstreams exactly when it is for a reverse name outside every managed reverse
  zone (and not a static or discovery name); all other ANY queries are answered
  here or go to a stub resolver.
\<close>

theorem any_forwarded_iff_unmanaged_reverse:
  assumes "msg_question req = [q]" and "name = ToLower (Fqdn (q_name q))" and "q_type q = TypeANY"
  shows "mode_holds (Resolve newRR snap view req) ModeForward \<longleftrightarrow>
    isArpa name \<and> longestReverseZone name (s_reverse snap) = None \<and>
    map_of (s_static snap) name = None \<and> ddr_adn_match snap name = None \<and>
    \<not> isSuffixLabel name ''resolver.arpa.''"
proof -
  have u: "\<not> o_forward (resolve_unicast newRR snap view req name TypeANY)"
    using answerZoneOrVHost_direct by (auto simp: resolve_unicast_def Let_def direct_def)
  have l: "\<not> o_forward (answerLocal newRR snap view req name lbl TypeANY)" for lbl
    using answerLocal_direct by (auto simp: direct_def)
  have r: "o_forward (answerReverse newRR snap view req name TypeANY) \<longleftrightarrow>
      longestReverseZone name (s_reverse snap) = None"
    using answerReverse_cases [of name snap newRR view req TypeANY]
    by (cases "longestReverseZone name (s_reverse snap)") (auto simp: direct_def)
  have s: "answerStatic newRR snap req name TypeANY = Some out \<Longrightarrow>
      \<not> o_forward out \<and> map_of (s_static snap) name \<noteq> None" for out
    by (auto simp: answerStatic_def split: option.splits)
  have s': "answerStatic newRR snap req name TypeANY = None \<longleftrightarrow> map_of (s_static snap) name = None"
    by (auto simp: answerStatic_def split: option.splits)
  have "o_forward (resolve_name newRR snap view req name TypeANY) \<longleftrightarrow>
    isArpa name \<and> longestReverseZone name (s_reverse snap) = None \<and>
    map_of (s_static snap) name = None \<and> ddr_adn_match snap name = None \<and>
    \<not> isSuffixLabel name ''resolver.arpa.''"
    using u l r s s' by (auto simp: resolve_name_def isSuffixLabel_def split: option.splits)
  then show ?thesis
    using assms by (simp add: Resolve_def mode_holds_def)
qed

theorem any_forwarded_iff_unmanaged_reverse_witness:
  "mode_holds (Resolve demo_newRR demo_snap demo_view (demo_query ''7.100.51.198.in-addr.arpa.'' TypeANY)) ModeForward"
proof -
  have "isArpa ''7.100.51.198.in-addr.arpa.'' \<and>
    longestReverseZone ''7.100.51.198.in-addr.arpa.'' (s_reverse demo_snap) = None \<and>
    map_of (s_static demo_snap) ''7.100.51.198.in-addr.arpa.'' = None \<and>
    ddr_adn_match demo_snap ''7.100.51.198.in-addr.arpa.'' = None \<and>
    \<not> isSuffixLabel ''7.100.51.198.in-addr.arpa.'' ''resolver.arpa.'' \<and>
    ''7.100.51.198.in-addr.arpa.'' = ToLower (Fqdn ''7.100.51.198.in-addr.arpa.'')"
    by code_simp
  then show ?thesis
    using any_forwarded_iff_unmanaged_reverse
      [of "demo_query ''7.100.51.198.in-addr.arpa.'' TypeANY" "demo_question ''7.100.51.198.in-addr.arpa.'' TypeANY"
        "''7.100.51.198.in-addr.arpa.''" demo_newRR demo_snap demo_view]
    by (simp add: demo_query_def demo_question_def)
qed

section \<open>Designated resolvers\<close>

lemma toIPs_family: "list_all P as \<Longrightarrow> (\<And>a. P a \<Longrightarrow> IsValid a) \<Longrightarrow> toIPs as = map (\<lambda>a. WithZone a []) as"
  by (auto simp: toIPs_def list_all_iff filter_eq_self_iff intro!: arg_cong [of _ _ "map _"])

text \<open>
  The advertised address hints and the answers for the resolver's own name
  agree: every IPv4 (IPv6) hint list of a designation is the list of addresses
  that an A (AAAA) query for the authentication domain name returns, provided each
  hint slice holds addresses of its own family.
\<close>

theorem ddr_hints_agree:
  assumes "list_all Is4 (ddr_v4 d)" and "list_all Is6 (ddr_v6 d)" and "s_ddr snap = Some d"
    and "rec \<in> set (msg_answer (resolverArpa snap req name qtype))"
    and "dr_data rec = RD_SVCB prio target kvs"
  shows "(\<forall>hs. SVCBIPv4Hint hs \<in> set kvs \<longrightarrow>
      map dr_data (msg_answer (ddrADNReply d req' adn TypeA)) = map RD_A hs) \<and>
    (\<forall>hs. SVCBIPv6Hint hs \<in> set kvs \<longrightarrow>
      map dr_data (msg_answer (ddrADNReply d req' adn TypeAAAA)) = map RD_AAAA hs)"
proof -
  have v: "Is4 a \<Longrightarrow> IsValid a" "Is6 a \<Longrightarrow> IsValid a" for a
    by (cases a; simp add: IsValid_def)+
  have ips: "toIPs (ddr_v4 d) = map (\<lambda>a. WithZone a []) (ddr_v4 d)"
    "toIPs (ddr_v6 d) = map (\<lambda>a. WithZone a []) (ddr_v6 d)"
    using assms(1,2) v by (auto intro: toIPs_family)
  have flt: "filter Is4 (ddr_v4 d) = ddr_v4 d" "filter Is6 (ddr_v6 d) = ddr_v6 d"
    using assms(1,2) by (auto simp: list_all_iff filter_eq_self_iff)
  have "\<exists>p alpn port path. rec = ddrSVCB d p alpn port path"
    using assms(3,4) by (auto simp: resolverArpa_def Let_def split: option.splits if_splits)
  then show ?thesis
    using assms(5) flt by (auto simp: ddrSVCB_def mk_rr_def ddrADNReply_def Let_def ips)
qed

theorem ddr_hints_agree_witness:
  "\<exists>prio target kvs hs.
    dr_data (hd (msg_answer (resolverArpa demo_snap new_msg ''_dns.resolver.arpa.'' TypeSVCB))) =
      RD_SVCB prio target kvs \<and> SVCBIPv4Hint hs \<in> set kvs \<and> hs = [Addr4 0x0a000035] \<and>
    map dr_data (msg_answer (ddrADNReply demo_ddr new_msg ''dns.example.com.'' TypeA)) = map RD_A hs"
proof -
  let ?kvs = "[SVCBAlpn [''dot''], SVCBPort 853, SVCBIPv4Hint [Addr4 0x0a000035]]"
  have e: "list_all Is4 (ddr_v4 demo_ddr) \<and> list_all Is6 (ddr_v6 demo_ddr) \<and> s_ddr demo_snap = Some demo_ddr \<and>
    msg_answer (resolverArpa demo_snap new_msg ''_dns.resolver.arpa.'' TypeSVCB) \<noteq> [] \<and>
    dr_data (hd (msg_answer (resolverArpa demo_snap new_msg ''_dns.resolver.arpa.'' TypeSVCB))) =
      RD_SVCB 1 ''dns.example.com.'' ?kvs"
    by code_simp
  have "map dr_data (msg_answer (ddrADNReply demo_ddr new_msg ''dns.example.com.'' TypeA)) =
      map RD_A [Addr4 0x0a000035]"
    using ddr_hints_agree [of demo_ddr demo_snap
        "hd (msg_answer (resolverArpa demo_snap new_msg ''_dns.resolver.arpa.'' TypeSVCB))"
        new_msg "''_dns.resolver.arpa.''" TypeSVCB 1 "''dns.example.com.''" ?kvs new_msg "''dns.example.com.''"] e
    by simp
  then show ?thesis
    using e by (intro exI [of _ 1] exI [of _ "''dns.example.com.''"] exI [of _ ?kvs]
        exI [of _ "[Addr4 0x0a000035]"]) simp
qed

text \<open>
  A redirect target of the wrong family puts a nil record into the answer: if
  the zone-line reader refuses the proxy address as an A record, an A query for a
  redirected name is answered with a nil record.
\<close>

theorem vhost_nil_record:
  assumes "IsValid (s_vhost4 snap)"
    and "newRR (rr_line (zero_rr\<lparr>rr_name := Fqdn name, rr_type := TypeA, rr_class := ClassINET,
       rr_ttl := 60, rr_content := AddrString (s_vhost4 snap)\<rparr>)) = NewRR_err"
  shows "msg_answer (vhostReply newRR snap req name owner TypeA zo) = [nil_rr]"
  using assms by (simp add: vhostReply_def Let_def proxy_rr_def addrRR_def ToMiekg_def)

theorem vhost_nil_record_witness:
  "msg_answer (vhostReply demo_newRR (demo_snap\<lparr>s_vhost4 := Addr6 0xfd000000000000000000000000000001 []\<rparr>)
     new_msg ''www.example.com.'' ''www'' TypeA None) = [nil_rr]"
  by (rule vhost_nil_record) code_simp+

end
