(* ===== verification/Anscache.thy ===== *)
theory Anscache
  imports Dns "HOL-Library.Product_Lexorder"
begin

text \<open>
  Package \<^verbatim>\<open>internal/anscache\<close>: the bounded cache of forwarded answers.  The
  code keeps a doubly linked list of elements (front: most recently used) and a
  map from keys to elements.  Here an element is a number, the list is a list of
  numbers, and the values the elements carry are a store indexed by them, so the
  two structures can disagree and the invariant says that they do not.  The clock
  value each operation reads is its argument.  Every operation runs under the
  cache's mutex, so any concurrent use is a sequence of operations.
\<close>

section \<open>Types\<close>

record ac_config =
  MaxEntries :: int
  MinTTL :: duration
  MaxTTL :: duration
  NegMinTTL :: duration
  NegMaxTTL :: duration
  FailTTL :: duration
  ServeStale :: bool
  StaleTTL :: duration
  StaleMaxAge :: duration

definition ac_defaults :: ac_config where
  "ac_defaults = \<lparr>MaxEntries = 10000, MinTTL = 5 * second, MaxTTL = 24 * hour,
     NegMinTTL = 5 * second, NegMaxTTL = hour, FailTTL = 5 * second, ServeStale = True,
     StaleTTL = 30 * second, StaleMaxAge = 24 * hour\<rparr>"

record ac_key =
  k_name :: string
  k_qtype :: nat
  k_qclass :: nat
  k_do :: bool

definition KeyFor :: "dns_msg \<Rightarrow> ac_key option" where
  "KeyFor req =
     (case msg_question req of
        [q] \<Rightarrow>
          if q_type q = TypeANY \<or> q_class q \<noteq> ClassINET then None
          else
            (let doo = (case IsEdns0 req of None \<Rightarrow> False | Some opt \<Rightarrow> opt_do opt) in
             Some \<lparr>k_name = ToLower (q_name q), k_qtype = q_type q, k_qclass = q_class q, k_do = doo\<rparr>)
      | _ \<Rightarrow> None)"

datatype ac_result = Miss | Fresh | Stale | Fail

datatype ac_kind = kindPositive | kindNegative | kindFail

record ac_entry =
  ae_key :: ac_key
  ae_msg :: "dns_msg option"
  ae_at :: time
  ae_ttl :: duration
  ae_kind :: ac_kind
  ae_hits :: nat

record ac_stats =
  st_hits :: nat
  st_misses :: nat
  st_stale :: nat
  st_failhits :: nat
  st_inserts :: nat
  st_evictions :: nat
  st_entries :: nat
  st_capacity :: int

definition zero_stats :: ac_stats where
  "zero_stats = \<lparr>st_hits = 0, st_misses = 0, st_stale = 0, st_failhits = 0, st_inserts = 0,
     st_evictions = 0, st_entries = 0, st_capacity = 0\<rparr>"

record ac_cache =
  ac_cfg :: ac_config
  ac_ll :: "nat list"
  ac_vals :: "(nat, ac_entry) gomap"
  ac_next :: nat
  ac_m :: "(ac_key, nat) gomap"
  ac_st :: ac_stats

definition ac_normalize :: "ac_config \<Rightarrow> ac_config" where
  "ac_normalize cfg =
     (let d = ac_defaults;
          pos = (\<lambda>x y. if x \<le> 0 then y else (x :: int));
          ft = pos (FailTTL cfg) (FailTTL d) in
      \<lparr>MaxEntries = pos (MaxEntries cfg) (MaxEntries d),
       MinTTL = pos (MinTTL cfg) (MinTTL d), MaxTTL = pos (MaxTTL cfg) (MaxTTL d),
       NegMinTTL = pos (NegMinTTL cfg) (NegMinTTL d), NegMaxTTL = pos (NegMaxTTL cfg) (NegMaxTTL d),
       FailTTL = (if ft > 5 * minute then 5 * minute else ft),
       ServeStale = ServeStale cfg,
       StaleTTL = pos (StaleTTL cfg) (StaleTTL d),
       StaleMaxAge = pos (StaleMaxAge cfg) (StaleMaxAge d)\<rparr>)"

definition ac_new :: "ac_config \<Rightarrow> ac_cache" where
  "ac_new cfg = \<lparr>ac_cfg = ac_normalize cfg, ac_ll = [], ac_vals = [], ac_next = 0, ac_m = [],
     ac_st = zero_stats\<rparr>"

section \<open>Time-to-live\<close>

definition clamp :: "duration \<Rightarrow> duration \<Rightarrow> duration \<Rightarrow> duration" where
  "clamp d lo hi = (if d < lo then lo else if d > hi then hi else d)"

definition minTTL :: "dns_rr list \<Rightarrow> duration" where
  "minTTL rrs =
     int (fold (\<lambda>r m. if dr_ttl r < m then dr_ttl r else m) rrs 4294967295) * second"

definition soa_minimum :: "rdata \<Rightarrow> nat option" where
  "soa_minimum d = (case d of RD_SOA mn rn se rf rt ex mi \<Rightarrow> Some mi | _ \<Rightarrow> None)"

definition soaTTL :: "dns_rr \<Rightarrow> duration" where
  "soaTTL soa =
     (let t = (case soa_minimum (dr_data soa) of None \<Rightarrow> 0 | Some m \<Rightarrow> m) in
      int (if dr_ttl soa < t then dr_ttl soa else t) * second)"

fun findSOA_loop :: "string \<Rightarrow> dns_rr list \<Rightarrow> dns_rr option" where
  "findSOA_loop qn [] = None"
| "findSOA_loop qn (r # rs) =
     (if soa_minimum (dr_data r) = None then findSOA_loop qn rs
      else
        (let owner = ToLower (dr_name r) in
         if owner = ''.'' \<or> qn = owner \<or> HasSuffix qn (''.'' @ owner) then Some r
         else findSOA_loop qn rs))"

definition findSOA :: "dns_rr list \<Rightarrow> string \<Rightarrow> dns_rr option" where
  "findSOA rrs qname = findSOA_loop (ToLower qname) rrs"

definition answersType :: "dns_rr list \<Rightarrow> nat \<Rightarrow> bool" where
  "answersType rrs qtype = list_ex (\<lambda>r. dr_type r = qtype) rrs"

definition map_ttls :: "(nat \<Rightarrow> nat) \<Rightarrow> dns_msg \<Rightarrow> dns_msg" where
  "map_ttls f m = m\<lparr>
     msg_answer := map (\<lambda>r. r\<lparr>dr_ttl := f (dr_ttl r)\<rparr>) (msg_answer m),
     msg_ns := map (\<lambda>r. r\<lparr>dr_ttl := f (dr_ttl r)\<rparr>) (msg_ns m),
     msg_extra := map (\<lambda>r. r\<lparr>dr_ttl := f (dr_ttl r)\<rparr>) (msg_extra m)\<rparr>"

definition adjust_ttl :: "nat \<Rightarrow> nat \<Rightarrow> nat" where
  "adjust_ttl rem t =
     (if t > (rem + 1) mod 4294967296 then nat ((int t - int rem) mod 4294967296) else 1)"

definition decrementTTL :: "dns_msg \<Rightarrow> duration \<Rightarrow> dns_msg" where
  "decrementTTL m age = map_ttls (adjust_ttl (to_uint32 (go_quot age second))) m"

definition stampTTL :: "dns_msg \<Rightarrow> duration \<Rightarrow> dns_msg" where
  "stampTTL m ttl = map_ttls (\<lambda>_. to_uint32 (go_quot ttl second)) m"

definition is_opt :: "dns_rr \<Rightarrow> bool" where
  "is_opt r = (case dr_data r of RD_OPT opts \<Rightarrow> True | _ \<Rightarrow> False)"

definition ac_stripOPT :: "dns_msg \<Rightarrow> dns_msg" where
  "ac_stripOPT m = m\<lparr>msg_extra := filter (\<lambda>r. \<not> is_opt r) (msg_extra m)\<rparr>"

definition cacheable :: "ac_config \<Rightarrow> dns_msg \<Rightarrow> (duration \<times> ac_kind) option" where
  "cacheable cfg resp =
     (case msg_question resp of
        [q] \<Rightarrow>
          if msg_tc resp then None
          else if q_type q = TypeANY then None
          else
            (let neg = (case findSOA (msg_ns resp) (q_name q) of
                None \<Rightarrow> None
              | Some soa \<Rightarrow> Some (clamp (soaTTL soa) (NegMinTTL cfg) (NegMaxTTL cfg), kindNegative)) in
             if msg_rcode resp = RcodeSuccess then
               (if answersType (msg_answer resp) (q_type q) then
                  Some (clamp (minTTL (msg_answer resp)) (MinTTL cfg) (MaxTTL cfg), kindPositive)
                else neg)
             else if msg_rcode resp = RcodeNameError then neg
             else None)
      | _ \<Rightarrow> None)"

section \<open>Operations\<close>

definition val_of :: "ac_cache \<Rightarrow> nat \<Rightarrow> ac_entry" where
  "val_of c el = the (map_of (ac_vals c) el)"

definition MoveToFront :: "nat \<Rightarrow> ac_cache \<Rightarrow> ac_cache" where
  "MoveToFront el c = c\<lparr>ac_ll := el # remove1 el (ac_ll c)\<rparr>"

definition removeEl :: "nat \<Rightarrow> ac_cache \<Rightarrow> ac_cache" where
  "removeEl el c = c\<lparr>ac_m := gm_del (ac_m c) (ae_key (val_of c el)),
     ac_ll := remove1 el (ac_ll c), ac_vals := gm_del (ac_vals c) el\<rparr>"

definition add_hit :: "nat \<Rightarrow> ac_cache \<Rightarrow> ac_cache" where
  "add_hit el c =
     (let e = val_of c el in c\<lparr>ac_vals := gm_set (ac_vals c) el (e\<lparr>ae_hits := ae_hits e + 1\<rparr>)\<rparr>)"

definition note_miss :: "ac_cache \<Rightarrow> ac_cache" where
  "note_miss c = c\<lparr>ac_st := (ac_st c)\<lparr>st_misses := st_misses (ac_st c) + 1\<rparr>\<rparr>"

definition ac_lookup :: "time \<Rightarrow> ac_key \<Rightarrow> ac_cache \<Rightarrow> (dns_msg option \<times> ac_result) \<times> ac_cache" where
  "ac_lookup now k c =
     (case map_of (ac_m c) k of
        None \<Rightarrow> ((None, Miss), note_miss c)
      | Some el \<Rightarrow>
          (let e = val_of c el; age = now - ae_at e in
           if ae_kind e = kindFail then
             (if age < ae_ttl e then
                (let c1 = add_hit el (MoveToFront el c) in
                 ((None, Fail), c1\<lparr>ac_st := (ac_st c1)\<lparr>st_failhits := st_failhits (ac_st c1) + 1\<rparr>\<rparr>))
              else ((None, Miss), note_miss (removeEl el c)))
           else if age < ae_ttl e then
             (let c1 = add_hit el (MoveToFront el c) in
              ((map_option (\<lambda>m. decrementTTL m age) (ae_msg e), Fresh),
               c1\<lparr>ac_st := (ac_st c1)\<lparr>st_hits := st_hits (ac_st c1) + 1\<rparr>\<rparr>))
           else if ServeStale (ac_cfg c) \<and> age < ae_ttl e + StaleMaxAge (ac_cfg c) then
             ((map_option (\<lambda>m. stampTTL m (StaleTTL (ac_cfg c))) (ae_msg e), Stale), MoveToFront el c)
           else ((None, Miss), note_miss (removeEl el c))))"

definition NoteStaleServed :: "ac_cache \<Rightarrow> ac_cache" where
  "NoteStaleServed c = c\<lparr>ac_st := (ac_st c)\<lparr>st_stale := st_stale (ac_st c) + 1\<rparr>\<rparr>"

function evict_loop :: "ac_cache \<Rightarrow> ac_cache" where
  "evict_loop c =
     (if int (length (ac_ll c)) > MaxEntries (ac_cfg c) then
        (if ac_ll c = [] then c
         else
           (let c1 = removeEl (last (ac_ll c)) c in
            evict_loop (c1\<lparr>ac_st := (ac_st c1)\<lparr>st_evictions := st_evictions (ac_st c1) + 1\<rparr>\<rparr>)))
      else c)"
  by pat_completeness auto
termination
  by (relation "measure (\<lambda>c. length (ac_ll c))")
    (auto simp: removeEl_def length_remove1 last_in_set)

declare evict_loop.simps [simp del]

definition ac_put :: "ac_entry \<Rightarrow> ac_cache \<Rightarrow> ac_cache" where
  "ac_put e c =
     (let c1 = (case map_of (ac_m c) (ae_key e) of
          Some el \<Rightarrow> MoveToFront el (c\<lparr>ac_vals := gm_set (ac_vals c) el e\<rparr>)
        | None \<Rightarrow>
            c\<lparr>ac_vals := gm_set (ac_vals c) (ac_next c) e, ac_ll := ac_next c # ac_ll c,
              ac_next := Suc (ac_next c), ac_m := gm_set (ac_m c) (ae_key e) (ac_next c)\<rparr>) in
      evict_loop (c1\<lparr>ac_st := (ac_st c1)\<lparr>st_inserts := st_inserts (ac_st c1) + 1\<rparr>\<rparr>))"

definition ac_store :: "time \<Rightarrow> ac_key \<Rightarrow> dns_msg \<Rightarrow> ac_cache \<Rightarrow> ac_cache" where
  "ac_store now k resp c =
     (case cacheable (ac_cfg c) resp of
        None \<Rightarrow> c
      | Some (ttl, knd) \<Rightarrow>
          ac_put \<lparr>ae_key = k, ae_msg = Some ((ac_stripOPT resp)\<lparr>msg_id := 0\<rparr>), ae_at = now,
            ae_ttl = ttl, ae_kind = knd, ae_hits = 0\<rparr> c)"

definition StoreFail :: "time \<Rightarrow> ac_key \<Rightarrow> ac_cache \<Rightarrow> ac_cache" where
  "StoreFail now k c =
     ac_put \<lparr>ae_key = k, ae_msg = None, ae_at = now, ae_ttl = FailTTL (ac_cfg c), ae_kind = kindFail,
       ae_hits = 0\<rparr> c"

definition Peek :: "time \<Rightarrow> ac_key \<Rightarrow> ac_cache \<Rightarrow> dns_msg option" where
  "Peek now k c =
     (case map_of (ac_m c) k of
        None \<Rightarrow> None
      | Some el \<Rightarrow>
          (let e = val_of c el in
           if ae_kind e = kindFail \<or> now - ae_at e \<ge> ae_ttl e then None else ae_msg e))"

definition Flush :: "ac_cache \<Rightarrow> ac_cache" where
  "Flush c = c\<lparr>ac_ll := [], ac_vals := [], ac_m := [], ac_st := zero_stats\<rparr>"

definition Stats :: "ac_cache \<Rightarrow> ac_stats" where
  "Stats c = (ac_st c)\<lparr>st_entries := length (ac_ll c), st_capacity := MaxEntries (ac_cfg c)\<rparr>"

record entry_stat =
  es_name :: string
  es_type :: string
  es_kind :: string
  es_do :: bool
  es_hits :: nat
  es_age :: duration
  es_ttl :: duration
  es_live :: bool

definition entry_stat_of :: "time \<Rightarrow> ac_key \<Rightarrow> ac_entry \<Rightarrow> entry_stat" where
  "entry_stat_of now k e =
     (let age = now - ae_at e; ty = gm_str TypeToString (k_qtype k) in
      \<lparr>es_name = k_name k,
       es_type = (if ty = [] then ''TYPE'' @ Itoa (k_qtype k) else ty),
       es_kind = (case ae_kind e of kindNegative \<Rightarrow> ''negative'' | kindFail \<Rightarrow> ''fail''
                  | kindPositive \<Rightarrow> ''positive''),
       es_do = k_do k, es_hits = ae_hits e, es_age = age, es_ttl = ae_ttl e,
       es_live = (age < ae_ttl e)\<rparr>)"

text \<open>Hottest first, then youngest, then by name; entries equal in all three keep the map's order.\<close>

definition Entries :: "time \<Rightarrow> int \<Rightarrow> ac_cache \<Rightarrow> entry_stat list" where
  "Entries now n c =
     (let out = sort_key (\<lambda>s. (- int (es_hits s), es_age s, es_name s))
            (map (\<lambda>(k, el). entry_stat_of now k (val_of c el)) (ac_m c)) in
      if n > 0 \<and> n < int (length out) then take (nat n) out else out)"

section \<open>Invariant\<close>

definition ac_ok :: "ac_cache \<Rightarrow> bool" where
  "ac_ok c \<longleftrightarrow> distinct (ac_ll c) \<and> gm_ok (ac_m c) \<and> gm_ok (ac_vals c) \<and>
     fst ` set (ac_vals c) = set (ac_ll c) \<and> (\<forall>el \<in> set (ac_ll c). el < ac_next c) \<and>
     (\<forall>k el. map_of (ac_m c) k = Some el \<longleftrightarrow> el \<in> set (ac_ll c) \<and> ae_key (val_of c el) = k)"

text \<open>What the cache holds, most recently used first.\<close>

definition ac_abs :: "ac_cache \<Rightarrow> ac_entry list" where
  "ac_abs c = map (val_of c) (ac_ll c)"

text \<open>The list of recently used entries as a specification.\<close>

definition lru_find :: "ac_key \<Rightarrow> ac_entry list \<Rightarrow> ac_entry option" where
  "lru_find k es = find (\<lambda>e. ae_key e = k) es"

definition lru_remove :: "ac_key \<Rightarrow> ac_entry list \<Rightarrow> ac_entry list" where
  "lru_remove k es = filter (\<lambda>e. ae_key e \<noteq> k) es"

definition spec_lookup ::
  "ac_config \<Rightarrow> time \<Rightarrow> ac_key \<Rightarrow> ac_entry list \<Rightarrow> (dns_msg option \<times> ac_result) \<times> ac_entry list" where
  "spec_lookup cfg now k es =
     (case lru_find k es of
        None \<Rightarrow> ((None, Miss), es)
      | Some e \<Rightarrow>
          (let age = now - ae_at e; used = e\<lparr>ae_hits := ae_hits e + 1\<rparr> # lru_remove k es in
           if age < ae_ttl e then
             (if ae_kind e = kindFail then ((None, Fail), used)
              else ((map_option (\<lambda>m. decrementTTL m age) (ae_msg e), Fresh), used))
           else if ae_kind e \<noteq> kindFail \<and> ServeStale cfg \<and> age < ae_ttl e + StaleMaxAge cfg then
             ((map_option (\<lambda>m. stampTTL m (StaleTTL cfg)) (ae_msg e), Stale), e # lru_remove k es)
           else ((None, Miss), lru_remove k es)))"

definition spec_put :: "ac_config \<Rightarrow> ac_entry \<Rightarrow> ac_entry list \<Rightarrow> ac_entry list" where
  "spec_put cfg e es = take (nat (MaxEntries cfg)) (e # lru_remove (ae_key e) es)"

section \<open>The linked list and the map implement it\<close>

lemma ac_ok_el: "ac_ok c \<Longrightarrow> map_of (ac_m c) k = Some el \<Longrightarrow> el \<in> set (ac_ll c) \<and> ae_key (val_of c el) = k"
  by (simp add: ac_ok_def)

lemma ac_ok_inj:
  "ac_ok c \<Longrightarrow> x \<in> set (ac_ll c) \<Longrightarrow> y \<in> set (ac_ll c) \<Longrightarrow>
   ae_key (val_of c x) = ae_key (val_of c y) \<Longrightarrow> x = y"
  unfolding ac_ok_def by (metis option.inject)

lemma ac_ok_keys_distinct: "ac_ok c \<Longrightarrow> distinct (map ae_key (ac_abs c))"
  using ac_ok_inj [of c] by (auto simp: ac_abs_def distinct_map ac_ok_def inj_on_def)

lemma find_map_eq: "(\<forall>x \<in> set xs. P x \<longleftrightarrow> x = y) \<Longrightarrow> y \<in> set xs \<Longrightarrow> find P xs = Some y"
  by (induction xs) auto

lemma lru_find_abs: "ac_ok c \<Longrightarrow> lru_find k (ac_abs c) = map_option (val_of c) (map_of (ac_m c) k)"
proof (cases "map_of (ac_m c) k")
  case None
  assume ok: "ac_ok c"
  have "ae_key (val_of c el) \<noteq> k" if "el \<in> set (ac_ll c)" for el
    using ok None that unfolding ac_ok_def by (metis option.distinct(1))
  with None show ?thesis
    by (auto simp: lru_find_def ac_abs_def find_None_iff)
next
  case (Some el)
  assume ok: "ac_ok c"
  have "find (\<lambda>x. ae_key (val_of c x) = k) (ac_ll c) = Some el"
    using ok Some ac_ok_el [OF ok Some] ac_ok_inj [OF ok] by (intro find_map_eq) auto
  moreover have "find (\<lambda>e. ae_key e = k) (map f xs) = map_option f (find (\<lambda>x. ae_key (f x) = k) xs)" for f :: "nat \<Rightarrow> ac_entry" and xs
    by (induction xs) auto
  ultimately show ?thesis
    using Some by (simp add: lru_find_def ac_abs_def)
qed

lemma lru_remove_abs:
  assumes ok: "ac_ok c" and el: "el \<in> set (ac_ll c)"
  shows "lru_remove (ae_key (val_of c el)) (ac_abs c) = map (val_of c) (remove1 el (ac_ll c))"
proof -
  have "filter (\<lambda>x. ae_key (val_of c x) \<noteq> ae_key (val_of c el)) (ac_ll c) = filter (\<lambda>x. x \<noteq> el) (ac_ll c)"
    using ac_ok_inj [OF ok _ el] by (auto intro: filter_cong)
  moreover have "remove1 el (ac_ll c) = filter (\<lambda>x. x \<noteq> el) (ac_ll c)"
    using ok by (simp add: ac_ok_def distinct_remove1_removeAll removeAll_filter_not_eq eq_commute)
  ultimately show ?thesis
    by (simp add: lru_remove_def ac_abs_def filter_map comp_def)
qed

lemma MoveToFront_abs:
  "ac_ok c \<Longrightarrow> el \<in> set (ac_ll c) \<Longrightarrow>
   ac_abs (MoveToFront el c) = val_of c el # lru_remove (ae_key (val_of c el)) (ac_abs c)"
  by (simp add: lru_remove_abs) (simp add: ac_abs_def MoveToFront_def val_of_def)

lemma MoveToFront_ok: "ac_ok c \<Longrightarrow> el \<in> set (ac_ll c) \<Longrightarrow> ac_ok (MoveToFront el c)"
  by (auto simp: ac_ok_def MoveToFront_def val_of_def distinct_remove1 dest: notin_set_remove1)

lemma MoveToFront_simps [simp]:
  "val_of (MoveToFront el c) = val_of c" "ac_m (MoveToFront el c) = ac_m c"
  "ac_cfg (MoveToFront el c) = ac_cfg c" "el \<in> set (ac_ll (MoveToFront el c))"
  "ac_vals (MoveToFront el c) = ac_vals c"
  by (auto simp: MoveToFront_def val_of_def)

text \<open>Replacing the value of an element by one with the same key.\<close>

lemma set_val_ok:
  assumes "ac_ok c" "el \<in> set (ac_ll c)" "ae_key e = ae_key (val_of c el)"
  shows "ac_ok (c\<lparr>ac_vals := gm_set (ac_vals c) el e\<rparr>)"
    and "ac_abs (c\<lparr>ac_vals := gm_set (ac_vals c) el e\<rparr>) =
      map (\<lambda>x. if x = el then e else val_of c x) (ac_ll c)"
proof -
  have v: "val_of (c\<lparr>ac_vals := gm_set (ac_vals c) el e\<rparr>) x = (if x = el then e else val_of c x)" for x
    by (simp add: val_of_def update_conv')
  show "ac_abs (c\<lparr>ac_vals := gm_set (ac_vals c) el e\<rparr>) =
      map (\<lambda>x. if x = el then e else val_of c x) (ac_ll c)"
    by (simp add: ac_abs_def v)
  have "fst ` set (gm_set (ac_vals c) el e) = set (ac_ll c)"
    using assms(1,2) gm.keys_put [of "ac_vals c" el e] by (auto simp: ac_ok_def)
  then show "ac_ok (c\<lparr>ac_vals := gm_set (ac_vals c) el e\<rparr>)"
    using assms by (auto simp: ac_ok_def v)
qed

lemma removeEl_ok:
  assumes ok: "ac_ok c" and el: "el \<in> set (ac_ll c)"
  shows "ac_ok (removeEl el c)"
    and "ac_abs (removeEl el c) = lru_remove (ae_key (val_of c el)) (ac_abs c)"
proof -
  have d: "distinct (ac_ll c)" "gm_ok (ac_vals c)" "gm_ok (ac_m c)"
    using ok by (auto simp: ac_ok_def)
  have v: "x \<noteq> el \<Longrightarrow> val_of (removeEl el c) x = val_of c x" for x
    by (simp add: val_of_def removeEl_def delete_conv')
  have s: "set (remove1 el (ac_ll c)) = set (ac_ll c) - {el}"
    using d by (simp add: set_remove1_eq)
  have ks: "fst ` set (gm_del (ac_vals c) el) = set (ac_ll c) - {el}"
    using gm.keys_del [OF d(2), of el] ok by (auto simp: ac_ok_def)
  have m: "map_of (gm_del (ac_m c) (ae_key (val_of c el))) k = Some x \<longleftrightarrow>
      x \<in> set (ac_ll c) - {el} \<and> ae_key (val_of c x) = k" for k x
    using ok el ac_ok_inj [OF ok] unfolding gm.get_del [OF d(3)] by (auto simp: ac_ok_def)
  have "map_of (ac_m (removeEl el c)) k = Some x \<longleftrightarrow>
      x \<in> set (ac_ll (removeEl el c)) \<and> ae_key (val_of (removeEl el c) x) = k" for k x
    using m [of k x] v [of x] s by (cases "x = el") (auto simp: removeEl_def)
  then show "ac_ok (removeEl el c)"
    using ok d s ks by (auto simp: ac_ok_def removeEl_def distinct_remove1 dest: notin_set_remove1)
  have "map (val_of (removeEl el c)) (remove1 el (ac_ll c)) = map (val_of c) (remove1 el (ac_ll c))"
    using v s by (intro map_cong) auto
  then show "ac_abs (removeEl el c) = lru_remove (ae_key (val_of c el)) (ac_abs c)"
    unfolding lru_remove_abs [OF ok el] by (simp add: ac_abs_def removeEl_def)
qed

lemma ac_st_irrelevant [simp]:
  "ac_ok (c\<lparr>ac_st := s\<rparr>) = ac_ok c" "ac_abs (c\<lparr>ac_st := s\<rparr>) = ac_abs c"
  by (simp_all add: ac_ok_def ac_abs_def val_of_def)

lemma note_miss_simps [simp]:
  "ac_ok (note_miss c) = ac_ok c" "ac_abs (note_miss c) = ac_abs c" "ac_cfg (note_miss c) = ac_cfg c"
  by (simp_all add: note_miss_def)

lemma cfg_simps [simp]:
  "ac_cfg (removeEl el c) = ac_cfg c" "ac_cfg (add_hit el c) = ac_cfg c"
  by (simp_all add: removeEl_def add_hit_def Let_def)

lemma remove1_last: "distinct xs \<Longrightarrow> xs \<noteq> [] \<Longrightarrow> remove1 (last xs) xs = butlast xs"
  by (induction xs) auto

lemma touch_front:
  assumes "ac_ok c" "el \<in> set (ac_ll c)" "ae_key e = ae_key (val_of c el)"
  shows "ac_ok ((MoveToFront el c)\<lparr>ac_vals := gm_set (ac_vals c) el e\<rparr>)"
    and "ac_abs ((MoveToFront el c)\<lparr>ac_vals := gm_set (ac_vals c) el e\<rparr>) = e # lru_remove (ae_key e) (ac_abs c)"
proof -
  let ?c = "MoveToFront el c"
  have ok: "ac_ok ?c" "el \<in> set (ac_ll ?c)"
    using assms by (simp_all add: MoveToFront_ok)
  show "ac_ok ((MoveToFront el c)\<lparr>ac_vals := gm_set (ac_vals c) el e\<rparr>)"
    using set_val_ok(1) [OF ok, of e] assms(3) by simp
  have "el \<notin> set (remove1 el (ac_ll c))"
    using assms(1) by (simp add: ac_ok_def)
  then have "map (\<lambda>x. if x = el then e else val_of c x) (ac_ll ?c) = e # map (val_of c) (remove1 el (ac_ll c))"
    by (auto simp: MoveToFront_def intro!: map_cong)
  then show "ac_abs ((MoveToFront el c)\<lparr>ac_vals := gm_set (ac_vals c) el e\<rparr>) = e # lru_remove (ae_key e) (ac_abs c)"
    using set_val_ok(2) [OF ok, of e] assms lru_remove_abs [OF assms(1,2)]
    unfolding MoveToFront_simps(1,5) by simp
qed

lemma hit_front:
  assumes "ac_ok c" "el \<in> set (ac_ll c)"
  shows "ac_ok (add_hit el (MoveToFront el c))"
    and "ac_abs (add_hit el (MoveToFront el c)) =
      (val_of c el)\<lparr>ae_hits := ae_hits (val_of c el) + 1\<rparr> # lru_remove (ae_key (val_of c el)) (ac_abs c)"
  using touch_front [OF assms, of "(val_of c el)\<lparr>ae_hits := ae_hits (val_of c el) + 1\<rparr>"]
  by (simp_all add: add_hit_def Let_def)

lemma ac_lookup_refines:
  assumes ok: "ac_ok c"
  shows "ac_ok (snd (ac_lookup now k c))" "ac_cfg (snd (ac_lookup now k c)) = ac_cfg c"
    "(fst (ac_lookup now k c), ac_abs (snd (ac_lookup now k c))) =
       spec_lookup (ac_cfg c) now k (ac_abs c)"
proof -
  consider (none) "map_of (ac_m c) k = None"
    | (some) el where "map_of (ac_m c) k = Some el" "el \<in> set (ac_ll c)" "ae_key (val_of c el) = k"
    using ac_ok_el [OF ok] by (cases "map_of (ac_m c) k") auto
  note cs = this
  have *: "ac_ok (snd (ac_lookup now k c)) \<and> ac_cfg (snd (ac_lookup now k c)) = ac_cfg c \<and>
    (fst (ac_lookup now k c), ac_abs (snd (ac_lookup now k c))) = spec_lookup (ac_cfg c) now k (ac_abs c)"
  proof (cases rule: cs)
    case none
    then show ?thesis
      using ok by (simp add: ac_lookup_def spec_lookup_def lru_find_abs)
  next
    case (some el)
    note facts = hit_front [OF ok some(2)] removeEl_ok [OF ok some(2)]
      MoveToFront_ok [OF ok some(2)] MoveToFront_abs [OF ok some(2)]
    show ?thesis
      using some facts
      by (simp add: ac_lookup_def spec_lookup_def lru_find_abs [OF ok] Let_def)
  qed
  then show "ac_ok (snd (ac_lookup now k c))" "ac_cfg (snd (ac_lookup now k c)) = ac_cfg c"
    "(fst (ac_lookup now k c), ac_abs (snd (ac_lookup now k c))) =
       spec_lookup (ac_cfg c) now k (ac_abs c)"
    by blast+
qed

lemma evict_last:
  assumes "ac_ok c" "ac_ll c \<noteq> []"
  shows "ac_abs (removeEl (last (ac_ll c)) c) = butlast (ac_abs c)"
proof -
  have el: "last (ac_ll c) \<in> set (ac_ll c)"
    using assms(2) by (rule last_in_set)
  then show ?thesis
    using assms by (simp add: removeEl_ok(2) lru_remove_abs remove1_last ac_ok_def)
      (simp add: ac_abs_def map_butlast)
qed

lemma evict_loop_refines:
  assumes "ac_ok c" "0 \<le> MaxEntries (ac_cfg c)"
  shows "ac_ok (evict_loop c) \<and> ac_cfg (evict_loop c) = ac_cfg c \<and>
    ac_abs (evict_loop c) = take (nat (MaxEntries (ac_cfg c))) (ac_abs c)"
  using assms
proof (induction c rule: evict_loop.induct)
  case (1 c)
  show ?case
  proof (cases "int (length (ac_ll c)) > MaxEntries (ac_cfg c)")
    case False
    then show ?thesis
      using "1.prems" by (subst (1 2 3) evict_loop.simps) (simp add: ac_abs_def)
  next
    case True
    then have ne: "ac_ll c \<noteq> []"
      using "1.prems" by auto
    let ?c1 = "removeEl (last (ac_ll c)) c"
    let ?c2 = "?c1\<lparr>ac_st := (ac_st ?c1)\<lparr>st_evictions := st_evictions (ac_st ?c1) + 1\<rparr>\<rparr>"
    have ok: "ac_ok ?c2"
      using removeEl_ok(1) [OF "1.prems"(1)] ne by simp
    have "length (ac_abs c) > nat (MaxEntries (ac_cfg c))"
      using True "1.prems" by (simp add: ac_abs_def)
    then have "take (nat (MaxEntries (ac_cfg c))) (butlast (ac_abs c)) = take (nat (MaxEntries (ac_cfg c))) (ac_abs c)"
      by (simp add: butlast_conv_take min_def)
    moreover have "evict_loop c = evict_loop ?c2"
      using True ne by (subst evict_loop.simps) (simp add: Let_def)
    ultimately show ?thesis
      using "1.IH" [OF True ne refl] ok "1.prems" evict_last [OF "1.prems"(1) ne] by simp
  qed
qed

lemma ac_put_refines:
  assumes ok: "ac_ok c" and max: "0 \<le> MaxEntries (ac_cfg c)"
  shows "ac_ok (ac_put e c) \<and> ac_cfg (ac_put e c) = ac_cfg c \<and>
    ac_abs (ac_put e c) = spec_put (ac_cfg c) e (ac_abs c)"
proof -
  define c1 where "c1 = (case map_of (ac_m c) (ae_key e) of
          Some el \<Rightarrow> MoveToFront el (c\<lparr>ac_vals := gm_set (ac_vals c) el e\<rparr>)
        | None \<Rightarrow>
            c\<lparr>ac_vals := gm_set (ac_vals c) (ac_next c) e, ac_ll := ac_next c # ac_ll c,
              ac_next := Suc (ac_next c), ac_m := gm_set (ac_m c) (ae_key e) (ac_next c)\<rparr>)"
  have "ac_ok c1 \<and> ac_cfg c1 = ac_cfg c \<and> ac_abs c1 = e # lru_remove (ae_key e) (ac_abs c)"
  proof (cases "map_of (ac_m c) (ae_key e)")
    case (Some el)
    have "MoveToFront el (c\<lparr>ac_vals := gm_set (ac_vals c) el e\<rparr>) =
        (MoveToFront el c)\<lparr>ac_vals := gm_set (ac_vals c) el e\<rparr>"
      by (simp add: MoveToFront_def)
    with Some touch_front [OF ok, of el e] ac_ok_el [OF ok Some] show ?thesis
      by (simp add: c1_def)
  next
    case None
    let ?n = "ac_next c"
    have n: "?n \<notin> set (ac_ll c)"
      using ok by (auto simp: ac_ok_def)
    have v: "val_of c1 x = (if x = ?n then e else val_of c x)" for x
      using None by (simp add: c1_def val_of_def update_conv')
    have k: "el \<in> set (ac_ll c) \<Longrightarrow> ae_key (val_of c el) \<noteq> ae_key e" for el
      using ok None unfolding ac_ok_def by (metis option.distinct(1))
    have "fst ` set (ac_vals c1) = insert ?n (set (ac_ll c))"
      using ok gm.keys_put [of "ac_vals c" ?n e] None by (auto simp: ac_ok_def c1_def)
    moreover have "map_of (ac_m c1) k' = Some el \<longleftrightarrow> el \<in> set (ac_ll c1) \<and> ae_key (val_of c1 el) = k'" for k' el
      using ok n k None unfolding v by (auto simp: c1_def ac_ok_def update_conv')
    ultimately have "ac_ok c1"
      using ok n None by (auto simp: ac_ok_def c1_def)
    moreover have "ac_abs c1 = e # ac_abs c"
      using n None v by (auto simp: ac_abs_def c1_def intro!: map_cong)
    moreover have "lru_remove (ae_key e) (ac_abs c) = ac_abs c"
      using k by (auto simp: lru_remove_def ac_abs_def filter_eq_self_iff)
    ultimately show ?thesis
      using None by (simp add: c1_def)
  qed
  then show ?thesis
    using evict_loop_refines [of "c1\<lparr>ac_st := (ac_st c1)\<lparr>st_inserts := st_inserts (ac_st c1) + 1\<rparr>\<rparr>"] max
    by (simp add: ac_put_def Let_def c1_def [symmetric] spec_put_def)
qed

section \<open>Entries\<close>

lemma clamp_bounds: "min lo hi \<le> clamp d lo hi \<and> clamp d lo hi \<le> max lo hi"
  by (auto simp: clamp_def)

text \<open>What an entry may hold, by its kind.\<close>

definition entry_ok :: "ac_config \<Rightarrow> ac_entry \<Rightarrow> bool" where
  "entry_ok cfg e =
     (case ae_kind e of
        kindFail \<Rightarrow> ae_msg e = None \<and> ae_ttl e = FailTTL cfg
      | kindPositive \<Rightarrow>
          (\<exists>m. ae_msg e = Some m \<and> msg_id m = 0 \<and> \<not> msg_tc m \<and> \<not> list_ex is_opt (msg_extra m) \<and>
             msg_rcode m = RcodeSuccess) \<and>
          min (MinTTL cfg) (MaxTTL cfg) \<le> ae_ttl e \<and> ae_ttl e \<le> max (MinTTL cfg) (MaxTTL cfg)
      | kindNegative \<Rightarrow>
          (\<exists>m. ae_msg e = Some m \<and> msg_id m = 0 \<and> \<not> msg_tc m \<and> \<not> list_ex is_opt (msg_extra m) \<and>
             (msg_rcode m = RcodeSuccess \<or> msg_rcode m = RcodeNameError)) \<and>
          min (NegMinTTL cfg) (NegMaxTTL cfg) \<le> ae_ttl e \<and> ae_ttl e \<le> max (NegMinTTL cfg) (NegMaxTTL cfg))"

lemma entry_ok_hits [simp]: "entry_ok cfg (e\<lparr>ae_hits := n\<rparr>) = entry_ok cfg e"
  by (simp add: entry_ok_def split: ac_kind.splits)

lemma cacheable_cases:
  assumes "cacheable cfg resp = Some (ttl, knd)"
  shows "\<exists>q. msg_question resp = [q] \<and> \<not> msg_tc resp \<and> q_type q \<noteq> TypeANY \<and>
    (knd = kindPositive \<and> msg_rcode resp = RcodeSuccess \<and> answersType (msg_answer resp) (q_type q) \<and>
       ttl = clamp (minTTL (msg_answer resp)) (MinTTL cfg) (MaxTTL cfg) \<or>
     knd = kindNegative \<and> (msg_rcode resp = RcodeSuccess \<or> msg_rcode resp = RcodeNameError) \<and>
       (\<exists>soa. findSOA (msg_ns resp) (q_name q) = Some soa \<and>
         ttl = clamp (soaTTL soa) (NegMinTTL cfg) (NegMaxTTL cfg)))"
  using assms by (auto simp: cacheable_def Let_def split: list.splits if_splits option.splits)

lemma store_entry_ok:
  assumes "cacheable cfg resp = Some (ttl, knd)"
  shows "entry_ok cfg \<lparr>ae_key = k, ae_msg = Some ((ac_stripOPT resp)\<lparr>msg_id := 0\<rparr>), ae_at = now,
            ae_ttl = ttl, ae_kind = knd, ae_hits = 0\<rparr>"
  using cacheable_cases [OF assms] clamp_bounds
  by (auto simp: entry_ok_def ac_stripOPT_def list_ex_iff)

lemma fail_entry_ok:
  "entry_ok cfg \<lparr>ae_key = k, ae_msg = None, ae_at = now, ae_ttl = FailTTL cfg, ae_kind = kindFail,
     ae_hits = 0\<rparr>"
  by (simp add: entry_ok_def)

section \<open>The cache as a machine\<close>

datatype ac_op =
    Op_Lookup time ac_key
  | Op_NoteStale
  | Op_Store time ac_key dns_msg
  | Op_StoreFail time ac_key
  | Op_Flush

fun ac_step :: "ac_op \<Rightarrow> ac_cache \<Rightarrow> ac_cache" where
  "ac_step (Op_Lookup now k) c = snd (ac_lookup now k c)"
| "ac_step Op_NoteStale c = NoteStaleServed c"
| "ac_step (Op_Store now k resp) c = ac_store now k resp c"
| "ac_step (Op_StoreFail now k) c = StoreFail now k c"
| "ac_step Op_Flush c = Flush c"

fun spec_step :: "ac_config \<Rightarrow> ac_op \<Rightarrow> ac_entry list \<Rightarrow> ac_entry list" where
  "spec_step cfg (Op_Lookup now k) es = snd (spec_lookup cfg now k es)"
| "spec_step cfg Op_NoteStale es = es"
| "spec_step cfg (Op_Store now k resp) es =
     (case cacheable cfg resp of
        None \<Rightarrow> es
      | Some (ttl, knd) \<Rightarrow>
          spec_put cfg \<lparr>ae_key = k, ae_msg = Some ((ac_stripOPT resp)\<lparr>msg_id := 0\<rparr>), ae_at = now,
            ae_ttl = ttl, ae_kind = knd, ae_hits = 0\<rparr> es)"
| "spec_step cfg (Op_StoreFail now k) es =
     spec_put cfg \<lparr>ae_key = k, ae_msg = None, ae_at = now, ae_ttl = FailTTL cfg, ae_kind = kindFail,
       ae_hits = 0\<rparr> es"
| "spec_step cfg Op_Flush es = []"

definition ac_inv :: "ac_cache \<Rightarrow> bool" where
  "ac_inv c \<longleftrightarrow> ac_ok c \<and> 0 < MaxEntries (ac_cfg c) \<and>
     int (length (ac_abs c)) \<le> MaxEntries (ac_cfg c) \<and> (\<forall>e \<in> set (ac_abs c). entry_ok (ac_cfg c) e)"

lemma step_refines:
  assumes "ac_ok c" "0 \<le> MaxEntries (ac_cfg c)"
  shows "ac_ok (ac_step op c) \<and> ac_cfg (ac_step op c) = ac_cfg c \<and>
    ac_abs (ac_step op c) = spec_step (ac_cfg c) op (ac_abs c)"
proof (cases op)
  case (Op_Lookup now k)
  then show ?thesis
    using ac_lookup_refines [OF assms(1), of now k] by (auto dest: arg_cong [of _ _ snd])
next
  case (Op_Store now k resp)
  then show ?thesis
    using ac_put_refines [OF assms] assms by (simp add: ac_store_def split: option.splits)
next
  case (Op_StoreFail now k)
  then show ?thesis
    using ac_put_refines [OF assms] by (simp add: StoreFail_def)
next
  case Op_Flush
  then show ?thesis
    by (simp add: Flush_def ac_ok_def ac_abs_def gm_ok_def)
qed (use assms in \<open>simp add: NoteStaleServed_def\<close>)

lemma lru_find_set: "lru_find k es = Some e \<Longrightarrow> e \<in> set es"
  by (auto simp: lru_find_def find_Some_iff)

lemma spec_lookup_length: "length (snd (spec_lookup cfg now k es)) \<le> length es"
proof (cases "lru_find k es")
  case (Some e)
  then have "e \<in> set es" "ae_key e = k"
    by (auto simp: lru_find_def find_Some_iff)
  then have "length (lru_remove k es) < length es"
    by (auto simp: lru_remove_def intro!: length_filter_less)
  with Some show ?thesis
    by (simp add: spec_lookup_def Let_def)
qed (simp add: spec_lookup_def)

lemma spec_lookup_entries:
  "(\<forall>e \<in> set es. entry_ok cfg e) \<Longrightarrow> \<forall>e \<in> set (snd (spec_lookup cfg now k es)). entry_ok cfg e"
  using lru_find_set [of k es] by (auto simp: spec_lookup_def lru_remove_def Let_def split: option.splits)

lemma spec_put_bound: "0 < MaxEntries cfg \<Longrightarrow> int (length (spec_put cfg e es)) \<le> MaxEntries cfg"
  by (simp add: spec_put_def)

lemma spec_put_entries:
  "(\<forall>e \<in> set es. entry_ok cfg e) \<Longrightarrow> entry_ok cfg e' \<Longrightarrow> \<forall>e \<in> set (spec_put cfg e' es). entry_ok cfg e"
  unfolding spec_put_def lru_remove_def by (auto dest!: in_set_takeD)

lemma spec_step_inv:
  assumes "0 < MaxEntries cfg" "int (length es) \<le> MaxEntries cfg" "\<forall>e \<in> set es. entry_ok cfg e"
  shows "int (length (spec_step cfg op es)) \<le> MaxEntries cfg \<and> (\<forall>e \<in> set (spec_step cfg op es). entry_ok cfg e)"
proof (cases op)
  case (Op_Lookup now k)
  then show ?thesis
    using spec_lookup_length [of cfg now k es] spec_lookup_entries [OF assms(3)] assms(2) by auto
next
  case (Op_Store now k resp)
  show ?thesis
  proof (cases "cacheable cfg resp")
    case (Some p)
    then obtain ttl knd where "cacheable cfg resp = Some (ttl, knd)"
      by (cases p) auto
    with Op_Store show ?thesis
      using spec_put_bound [OF assms(1)] spec_put_entries [OF assms(3) store_entry_ok] by simp
  qed (use assms Op_Store in simp)
next
  case (Op_StoreFail now k)
  then show ?thesis
    using spec_put_bound [OF assms(1)] spec_put_entries [OF assms(3) fail_entry_ok] by simp
qed (use assms in auto)

interpretation acm: op_machine ac_step ac_inv
proof
  show "ac_inv (ac_step op c)" if "ac_inv c" for op c
    using that step_refines [of c op] spec_step_inv [of "ac_cfg c" "ac_abs c" op]
    by (auto simp: ac_inv_def)
qed

lemma ac_normalize_pos: "0 < MaxEntries (ac_normalize cfg)"
  by (simp add: ac_normalize_def Let_def ac_defaults_def)

lemma ac_new_inv: "ac_inv (ac_new cfg)"
  using ac_normalize_pos [of cfg] by (simp add: ac_inv_def ac_new_def ac_ok_def ac_abs_def gm_ok_def)

section \<open>Properties\<close>

text \<open>
  C20. In every state that any sequence of cache operations can reach, the linked
  list and the map describe the same set of entries with one entry per key, the
  cache is within its capacity, and every entry is well formed: a failure marker
  has no message, a stored message is neither truncated nor carries EDNS options,
  its response code is NOERROR or (for a negative entry) NXDOMAIN, and its
  lifetime is within the configured bounds.
\<close>

theorem cache_reachable_invariant: "ac_inv (fold ac_step ops (ac_new cfg))"
  by (rule acm.run_inv) (rule ac_new_inv)

text \<open>
  C1. The cache implements a list of recently used entries: after any sequence of
  operations its contents, read from the front of the linked list, are those of
  the specification that keeps one entry per key, moves an entry that is used to
  the front and cuts the list at the capacity, and the next lookup gives the
  specification's answer.
\<close>

theorem cache_refines_lru:
  "let c = fold ac_step ops (ac_new cfg); es = fold (spec_step (ac_normalize cfg)) ops [] in
   ac_abs c = es \<and> fst (ac_lookup now k c) = fst (spec_lookup (ac_normalize cfg) now k es)"
proof -
  have "ac_ok c \<Longrightarrow> 0 \<le> MaxEntries (ac_cfg c) \<Longrightarrow>
      ac_ok (fold ac_step ops c) \<and> ac_cfg (fold ac_step ops c) = ac_cfg c \<and>
      ac_abs (fold ac_step ops c) = fold (spec_step (ac_cfg c)) ops (ac_abs c)" for c
    by (induction ops arbitrary: c) (simp_all add: step_refines)
  from this [of "ac_new cfg"] have run: "ac_ok (fold ac_step ops (ac_new cfg))"
    "ac_cfg (fold ac_step ops (ac_new cfg)) = ac_normalize cfg"
    "ac_abs (fold ac_step ops (ac_new cfg)) = fold (spec_step (ac_normalize cfg)) ops []"
    using ac_new_inv [of cfg] ac_normalize_pos [of cfg]
    by (auto simp: ac_inv_def ac_new_def ac_abs_def)
  have "(fst (ac_lookup now k (fold ac_step ops (ac_new cfg))),
      ac_abs (snd (ac_lookup now k (fold ac_step ops (ac_new cfg))))) =
     spec_lookup (ac_normalize cfg) now k (fold (spec_step (ac_normalize cfg)) ops [])"
    using ac_lookup_refines(3) [OF run(1), of now k] unfolding run(2,3) .
  with run(3) show ?thesis
    by (auto simp: Let_def dest: arg_cong [of _ _ fst])
qed

lemma store_lookup_spec:
  assumes "0 < MaxEntries cfg" "ae_key e = k"
  shows "lru_find k (spec_put cfg e es) = Some e"
proof -
  obtain n where "nat (MaxEntries cfg) = Suc n"
    using assms(1) by (metis gr0_conv_Suc zero_less_nat_eq)
  then show ?thesis
    using assms(2) by (simp add: spec_put_def lru_find_def)
qed

lemma store_then_lookup:
  assumes "ac_inv c" and "cacheable (ac_cfg c) resp = Some (ttl, knd)"
  shows "fst (ac_lookup now k (ac_store t k resp c)) =
    (let stored = (ac_stripOPT resp)\<lparr>msg_id := 0\<rparr> in
     if now - t < ttl then (Some (decrementTTL stored (now - t)), Fresh)
     else if ServeStale (ac_cfg c) \<and> now - t < ttl + StaleMaxAge (ac_cfg c)
       then (Some (stampTTL stored (StaleTTL (ac_cfg c))), Stale)
     else (None, Miss))"
proof -
  have ok: "ac_ok c" "0 < MaxEntries (ac_cfg c)"
    using assms(1) by (auto simp: ac_inv_def)
  have knd: "knd \<noteq> kindFail"
    using cacheable_cases [OF assms(2)] by auto
  let ?e = "\<lparr>ae_key = k, ae_msg = Some ((ac_stripOPT resp)\<lparr>msg_id := 0\<rparr>), ae_at = t,
            ae_ttl = ttl, ae_kind = knd, ae_hits = 0\<rparr>"
  have put: "ac_ok (ac_put ?e c)" "ac_cfg (ac_put ?e c) = ac_cfg c"
    "ac_abs (ac_put ?e c) = spec_put (ac_cfg c) ?e (ac_abs c)"
    using ac_put_refines [OF ok(1), of ?e] ok(2) by auto
  have "fst (ac_lookup now k (ac_put ?e c)) =
      fst (spec_lookup (ac_cfg c) now k (spec_put (ac_cfg c) ?e (ac_abs c)))"
    using ac_lookup_refines(3) [OF put(1), of now k] unfolding put(2,3)
    by (auto dest: arg_cong [of _ _ fst])
  then show ?thesis
    using assms(2) knd store_lookup_spec [OF ok(2), of ?e k "ac_abs c"]
    by (simp add: ac_store_def spec_lookup_def Let_def)
qed

lemma store_fail_then_lookup:
  assumes "ac_inv c"
  shows "fst (ac_lookup now k (StoreFail t k c)) =
    (if now - t < FailTTL (ac_cfg c) then (None, Fail) else (None, Miss))"
proof -
  have ok: "ac_ok c" "0 < MaxEntries (ac_cfg c)"
    using assms by (auto simp: ac_inv_def)
  let ?e = "\<lparr>ae_key = k, ae_msg = None, ae_at = t, ae_ttl = FailTTL (ac_cfg c), ae_kind = kindFail, ae_hits = 0\<rparr>"
  have put: "ac_ok (ac_put ?e c)" "ac_cfg (ac_put ?e c) = ac_cfg c"
    "ac_abs (ac_put ?e c) = spec_put (ac_cfg c) ?e (ac_abs c)"
    using ac_put_refines [OF ok(1), of ?e] ok(2) by auto
  have "fst (ac_lookup now k (ac_put ?e c)) =
      fst (spec_lookup (ac_cfg c) now k (spec_put (ac_cfg c) ?e (ac_abs c)))"
    using ac_lookup_refines(3) [OF put(1), of now k] unfolding put(2,3)
    by (auto dest: arg_cong [of _ _ fst])
  then show ?thesis
    using store_lookup_spec [OF ok(2), of ?e k "ac_abs c"]
    by (simp add: StoreFail_def spec_lookup_def Let_def)
qed

text \<open>
  What a lookup gives after a store: the stored answer, with its lifetime
  counted down, while it is within its lifetime; the same answer stamped with the
  stale lifetime while serve-stale applies; nothing afterwards.
\<close>

theorem lookup_after_store:
  assumes "ac_inv c" and "cacheable (ac_cfg c) resp = Some (ttl, knd)"
  shows "fst (ac_lookup now k (ac_store t k resp c)) =
    (let stored = (ac_stripOPT resp)\<lparr>msg_id := 0\<rparr> in
     if now - t < ttl then (Some (decrementTTL stored (now - t)), Fresh)
     else if ServeStale (ac_cfg c) \<and> now - t < ttl + StaleMaxAge (ac_cfg c)
       then (Some (stampTTL stored (StaleTTL (ac_cfg c))), Stale)
     else (None, Miss))"
  using assms by (rule store_then_lookup)

definition demo_key :: ac_key where
  "demo_key = \<lparr>k_name = ''a.example.org.'', k_qtype = TypeA, k_qclass = 1, k_do = False\<rparr>"

definition demo_resp :: dns_msg where
  "demo_resp = new_msg\<lparr>msg_id := 9, msg_response := True,
     msg_question := [\<lparr>q_name = ''a.example.org.'', q_type = TypeA, q_class = 1\<rparr>],
     msg_answer := [\<lparr>dr_name = ''a.example.org.'', dr_type = TypeA, dr_class = 1, dr_ttl = 60,
       dr_data = RD_A (Addr4 0xcb007107)\<rparr>],
     msg_extra := [opt_rr 1232 False]\<rparr>"

theorem lookup_after_store_witness:
  "(let c = ac_store 0 demo_key demo_resp (ac_new ac_defaults) in
    map_option (\<lambda>m. map dr_ttl (msg_answer m)) (fst (fst (ac_lookup (20 * second) demo_key c))) = Some [40] \<and>
    snd (fst (ac_lookup (20 * second) demo_key c)) = Fresh \<and>
    snd (fst (ac_lookup (90 * second) demo_key c)) = Stale \<and>
    snd (fst (ac_lookup (25 * hour) demo_key c)) = Miss)"
proof -
  have c: "cacheable (ac_cfg (ac_new ac_defaults)) demo_resp = Some (60 * second, kindPositive)"
    by code_simp
  note r = lookup_after_store [OF ac_new_inv c]
  have "ServeStale (ac_cfg (ac_new ac_defaults)) \<and> StaleMaxAge (ac_cfg (ac_new ac_defaults)) = 24 * hour \<and>
     map dr_ttl (msg_answer (decrementTTL ((ac_stripOPT demo_resp)\<lparr>msg_id := 0\<rparr>) (20 * second))) = [40]"
    by code_simp
  then show ?thesis
    unfolding Let_def r by simp
qed

text \<open>
  Served lifetimes count down: a fresh answer's records carry their original
  lifetime less the whole seconds since it was stored, but at least one second,
  for every age below 136 years.
\<close>

theorem adjust_ttl_counts_down:
  assumes "0 \<le> age" and "age < 4294967295 * second" and "t < 4294967296"
  shows "adjust_ttl (to_uint32 (go_quot age second)) t = max 1 (t - nat (age div second))"
proof -
  have "age div second < 4294967295" "0 \<le> age div second"
    using assms(1,2) by linarith+
  then obtain r where r: "age div second = int r" "r < 4294967295"
    using zero_le_imp_eq_int by fastforce
  then have "to_uint32 (go_quot age second) = r" "(r + 1) mod 4294967296 = r + 1"
    using assms(1) by simp_all
  then show ?thesis
    using assms(3) r by (auto simp: adjust_ttl_def mod_pos_pos_trivial)
qed

theorem adjust_ttl_counts_down_witness:
  "adjust_ttl (to_uint32 (go_quot (90 * second) second)) 300 = 210 \<and>
   adjust_ttl (to_uint32 (go_quot (90 * second) second)) 60 = 1"
  using adjust_ttl_counts_down [of "90 * second" 300] adjust_ttl_counts_down [of "90 * second" 60] by simp

text \<open>An SOA record of the queried name's own ancestry.\<close>

definition soa_covers :: "dns_rr \<Rightarrow> string \<Rightarrow> bool" where
  "soa_covers soa qname \<longleftrightarrow> soa_minimum (dr_data soa) \<noteq> None \<and>
     (ToLower (dr_name soa) = ''.'' \<or> ToLower qname = ToLower (dr_name soa) \<or>
      HasSuffix (ToLower qname) (''.'' @ ToLower (dr_name soa)))"

lemma findSOA_covers: "findSOA rrs qname = Some soa \<Longrightarrow> soa \<in> set rrs \<and> soa_covers soa qname"
  unfolding findSOA_def soa_covers_def
  by (induction rrs) (auto simp: Let_def split: if_splits)

text \<open>
  What is never cached: a truncated answer, an answer to several questions or
  to ANY, and any response code but NOERROR and NXDOMAIN; a negative answer is
  cached only with an SOA record of the queried name's own ancestry, so an
  unrelated SOA cannot set its lifetime.
\<close>

theorem cacheable_sound:
  assumes "cacheable cfg resp = Some (ttl, knd)"
  shows "\<exists>q. msg_question resp = [q] \<and> \<not> msg_tc resp \<and> q_type q \<noteq> TypeANY \<and>
    (msg_rcode resp = RcodeSuccess \<or> msg_rcode resp = RcodeNameError) \<and>
    (if answersType (msg_answer resp) (q_type q) \<and> msg_rcode resp = RcodeSuccess then knd = kindPositive
     else knd = kindNegative \<and> (\<exists>soa \<in> set (msg_ns resp). soa_covers soa (q_name q)))"
proof -
  obtain q where q: "msg_question resp = [q]"
    using cacheable_cases [OF assms] by blast
  have "\<not> msg_tc resp \<and> q_type q \<noteq> TypeANY \<and>
    (msg_rcode resp = RcodeSuccess \<or> msg_rcode resp = RcodeNameError) \<and>
    (if answersType (msg_answer resp) (q_type q) \<and> msg_rcode resp = RcodeSuccess then knd = kindPositive
     else knd = kindNegative \<and> (\<exists>soa. findSOA (msg_ns resp) (q_name q) = Some soa))"
    using assms q by (auto simp: cacheable_def Let_def split: if_splits option.splits)
  then show ?thesis
    using q findSOA_covers [of "msg_ns resp" "q_name q"] by (auto split: if_splits)
qed

theorem cacheable_sound_witness:
  "cacheable ac_defaults demo_resp = Some (60 * second, kindPositive) \<and> \<not> msg_tc demo_resp"
proof -
  have c: "cacheable ac_defaults demo_resp = Some (60 * second, kindPositive)"
    by code_simp
  from cacheable_sound [OF c] c show ?thesis by blast
qed

section \<open>How long an entry stays\<close>

text \<open>
  The list holds \<open>e\<close>, up to its count of hits, and every entry in front of it has one of
  the other keys in \<open>K\<close>.
\<close>

definition lru_holds :: "ac_entry \<Rightarrow> ac_key set \<Rightarrow> ac_entry list \<Rightarrow> bool" where
  "lru_holds e K es \<longleftrightarrow> distinct (map ae_key es) \<and>
     (\<exists>pre n post. es = pre @ e\<lparr>ae_hits := n\<rparr> # post \<and> ae_key ` set pre \<subseteq> K - {ae_key e})"

lemma lru_holds_find: "lru_holds e K es \<Longrightarrow> \<exists>n. lru_find (ae_key e) es = Some (e\<lparr>ae_hits := n\<rparr>)"
proof -
  assume "lru_holds e K es"
  then obtain pre n post where es: "es = pre @ e\<lparr>ae_hits := n\<rparr> # post" "ae_key ` set pre \<subseteq> K - {ae_key e}"
    by (auto simp: lru_holds_def)
  from es(2) have "find (\<lambda>x. ae_key x = ae_key e) (pre @ e\<lparr>ae_hits := n\<rparr> # post) = Some (e\<lparr>ae_hits := n\<rparr>)"
    by (induction pre) auto
  then show ?thesis
    using es(1) by (auto simp: lru_find_def)
qed

lemma lru_holds_remove: "lru_holds e K es \<Longrightarrow> k \<noteq> ae_key e \<Longrightarrow> lru_holds e K (lru_remove k es)"
proof -
  assume k: "lru_holds e K es" "k \<noteq> ae_key e"
  then obtain pre n post where es: "es = pre @ e\<lparr>ae_hits := n\<rparr> # post" "ae_key ` set pre \<subseteq> K - {ae_key e}"
    by (auto simp: lru_holds_def)
  have "lru_remove k es = lru_remove k pre @ e\<lparr>ae_hits := n\<rparr> # lru_remove k post" "ae_key ` set (lru_remove k pre) \<subseteq> K - {ae_key e}"
    using es k(2) by (auto simp: lru_remove_def)
  moreover have "distinct (map ae_key (lru_remove k es))"
    using k(1) by (simp add: lru_holds_def lru_remove_def distinct_map_filter)
  ultimately show ?thesis
    unfolding lru_holds_def by blast
qed

lemma lru_holds_other:
  assumes "lru_holds e K es" "ae_key x \<noteq> ae_key e" "ae_key x \<in> K"
  shows "lru_holds e K (x # lru_remove (ae_key x) es)"
proof -
  have r: "lru_holds e K (lru_remove (ae_key x) es)"
    by (rule lru_holds_remove [OF assms(1,2)])
  then obtain pre n post where "lru_remove (ae_key x) es = pre @ e\<lparr>ae_hits := n\<rparr> # post" "ae_key ` set pre \<subseteq> K - {ae_key e}"
    by (auto simp: lru_holds_def)
  then have "x # lru_remove (ae_key x) es = (x # pre) @ e\<lparr>ae_hits := n\<rparr> # post" "ae_key ` set (x # pre) \<subseteq> K - {ae_key e}"
    using assms(2,3) by auto
  moreover have "ae_key x \<notin> ae_key ` set (lru_remove (ae_key x) es)"
    by (auto simp: lru_remove_def)
  ultimately show ?thesis
    using r unfolding lru_holds_def by (metis (no_types, lifting) distinct.simps(2) list.simps(9) set_map)
qed

lemma lru_holds_self: "distinct (map ae_key es) \<Longrightarrow> lru_holds e K (e\<lparr>ae_hits := n\<rparr> # lru_remove (ae_key e) es)"
  unfolding lru_holds_def by (auto simp: lru_remove_def distinct_map_filter intro!: exI [of _ "[]"])

text \<open>The keys in front are different, so there are at most as many as keys in \<open>K\<close>.\<close>

lemma lru_holds_take:
  assumes "lru_holds e K es" "finite K" "int (card (K - {ae_key e})) < m"
  shows "lru_holds e K (take (nat m) es)"
proof -
  obtain pre n post where es: "es = pre @ e\<lparr>ae_hits := n\<rparr> # post" "ae_key ` set pre \<subseteq> K - {ae_key e}"
    "distinct (map ae_key es)"
    using assms(1) by (auto simp: lru_holds_def)
  have "length pre = card (ae_key ` set pre)"
    using es(1,3) by (metis distinct_append distinct_card length_map list.set_map map_append)
  also have "\<dots> \<le> card (K - {ae_key e})"
    using es(2) assms(2) by (intro card_mono) auto
  finally have "length pre < nat m"
    using assms(3) by linarith
  then have "take (nat m) es = pre @ e\<lparr>ae_hits := n\<rparr> # take (nat m - length pre - 1) post"
    by (simp add: es(1) take_Cons')
  moreover have "distinct (map ae_key (take (nat m) es))"
    using es(3) by (simp add: take_map [symmetric] distinct_take)
  ultimately show ?thesis
    using es(2) unfolding lru_holds_def by blast
qed

text \<open>Operations that do not end the life of an entry.\<close>

fun undisturbed :: "ac_entry \<Rightarrow> ac_op \<Rightarrow> bool" where
  "undisturbed e (Op_Lookup now k) = (k = ae_key e \<longrightarrow> now - ae_at e < ae_ttl e)"
| "undisturbed e Op_NoteStale = True"
| "undisturbed e (Op_Store now k resp) = (k \<noteq> ae_key e)"
| "undisturbed e (Op_StoreFail now k) = (k \<noteq> ae_key e)"
| "undisturbed e Op_Flush = False"

fun op_keys :: "ac_op \<Rightarrow> ac_key set" where
  "op_keys (Op_Lookup now k) = {k}"
| "op_keys (Op_Store now k resp) = {k}"
| "op_keys (Op_StoreFail now k) = {k}"
| "op_keys _ = {}"

lemma lru_holds_put:
  assumes "lru_holds e K es" "ae_key x \<noteq> ae_key e" "ae_key x \<in> K" "finite K" "int (card (K - {ae_key e})) < MaxEntries cfg"
  shows "lru_holds e K (spec_put cfg x es)"
  unfolding spec_put_def by (rule lru_holds_take [OF lru_holds_other [OF assms(1-3)] assms(4,5)])

lemma lru_holds_lookup:
  assumes "lru_holds e K es" "undisturbed e (Op_Lookup now k)" "k \<in> K"
  shows "lru_holds e K (snd (spec_lookup cfg now k es))"
proof (cases "k = ae_key e")
  case True
  then show ?thesis
    using lru_holds_find [OF assms(1)] assms(1,2) lru_holds_self [of es e K] by (auto simp: spec_lookup_def lru_holds_def Let_def)
next
  case False
  show ?thesis
  proof (cases "lru_find k es")
    case (Some x)
    then have "ae_key x = k"
      by (auto simp: lru_find_def find_Some_iff)
    then show ?thesis
      using False assms lru_holds_remove [OF assms(1) False] lru_holds_other [OF assms(1), of x]
        lru_holds_other [OF assms(1), of "x\<lparr>ae_hits := ae_hits x + 1\<rparr>"] Some by (simp add: spec_lookup_def Let_def)
  qed (use assms in \<open>simp add: spec_lookup_def\<close>)
qed

definition keeps :: "ac_entry \<Rightarrow> ac_key set \<Rightarrow> ac_cache \<Rightarrow> bool" where
  "keeps e K c \<longleftrightarrow> ac_inv c \<and> lru_holds e K (ac_abs c)"

lemma keeps_step:
  assumes "keeps e K c" "undisturbed e op" "op_keys op \<subseteq> K" "finite K" "int (card (K - {ae_key e})) < MaxEntries (ac_cfg c)"
  shows "keeps e K (ac_step op c) \<and> ac_cfg (ac_step op c) = ac_cfg c"
proof -
  have inv: "ac_inv c" "lru_holds e K (ac_abs c)"
    using assms(1) by (simp_all add: keeps_def)
  then have r: "ac_cfg (ac_step op c) = ac_cfg c" "ac_abs (ac_step op c) = spec_step (ac_cfg c) op (ac_abs c)"
    using step_refines [of c op] by (auto simp: ac_inv_def)
  have "lru_holds e K (spec_step (ac_cfg c) op (ac_abs c))"
  proof (cases op)
    case (Op_Lookup now k)
    then show ?thesis
      using lru_holds_lookup [OF inv(2)] assms(2,3) by simp
  next
    case (Op_Store now k resp)
    then show ?thesis
      using lru_holds_put [OF inv(2) _ _ assms(4,5)] inv(2) assms(2,3) by (simp split: option.splits)
  next
    case (Op_StoreFail now k)
    then show ?thesis
      using lru_holds_put [OF inv(2) _ _ assms(4,5)] assms(2,3) by simp
  qed (use inv(2) assms(2) in simp_all)
  then show ?thesis
    using r acm.step_inv [OF inv(1)] by (simp add: keeps_def)
qed

lemma keeps_run:
  assumes "keeps e K c" "\<forall>op\<in>set ops. undisturbed e op \<and> op_keys op \<subseteq> K" "finite K"
    "int (card (K - {ae_key e})) < MaxEntries (ac_cfg c)"
  shows "keeps e K (fold ac_step ops c) \<and> ac_cfg (fold ac_step ops c) = ac_cfg c"
  using assms
proof (induction ops arbitrary: c)
  case (Cons op ops)
  then have "keeps e K (ac_step op c) \<and> ac_cfg (ac_step op c) = ac_cfg c"
    by (intro keeps_step) simp_all
  then show ?case
    using Cons by simp
qed simp

lemma keeps_put:
  assumes "ac_inv c" "entry_ok (ac_cfg c) e"
  shows "keeps e K (ac_put e c) \<and> ac_cfg (ac_put e c) = ac_cfg c"
proof -
  have ok: "ac_ok c" "0 < MaxEntries (ac_cfg c)"
    using assms(1) by (auto simp: ac_inv_def)
  have put: "ac_ok (ac_put e c)" "ac_cfg (ac_put e c) = ac_cfg c" "ac_abs (ac_put e c) = spec_put (ac_cfg c) e (ac_abs c)"
    using ac_put_refines [OF ok(1), of e] ok(2) by auto
  obtain n where n: "nat (MaxEntries (ac_cfg c)) = Suc n"
    using ok(2) by (metis gr0_conv_Suc zero_less_nat_eq)
  have "distinct (map ae_key (lru_remove (ae_key e) (ac_abs c)))"
    using ac_ok_keys_distinct [OF ok(1)] by (simp add: lru_remove_def distinct_map_filter)
  then have "distinct (map ae_key (take n (lru_remove (ae_key e) (ac_abs c))))"
    by (simp add: take_map [symmetric] distinct_take)
  moreover have "\<exists>n. e = e\<lparr>ae_hits := n\<rparr>"
    by (rule exI [of _ "ae_hits e"]) simp
  moreover have "ae_key e \<notin> ae_key ` set (take n (lru_remove (ae_key e) (ac_abs c)))"
    by (auto simp: lru_remove_def dest!: in_set_takeD)
  ultimately have "lru_holds e K (spec_put (ac_cfg c) e (ac_abs c))"
    unfolding lru_holds_def spec_put_def n by (auto intro!: exI [of _ "[]"])
  moreover have "\<forall>x\<in>set (spec_put (ac_cfg c) e (ac_abs c)). entry_ok (ac_cfg c) x"
    using assms by (intro spec_put_entries) (auto simp: ac_inv_def)
  ultimately show ?thesis
    using put ok(2) spec_put_bound [OF ok(2)] by (simp add: keeps_def ac_inv_def)
qed

lemma keeps_lookup:
  assumes "keeps e K c" "now - ae_at e < ae_ttl e"
  shows "fst (ac_lookup now (ae_key e) c) =
    (if ae_kind e = kindFail then (None, Fail) else (map_option (\<lambda>m. decrementTTL m (now - ae_at e)) (ae_msg e), Fresh))"
proof -
  have ok: "ac_ok c" "lru_holds e K (ac_abs c)"
    using assms(1) by (auto simp: keeps_def ac_inv_def)
  have "fst (ac_lookup now (ae_key e) c) = fst (spec_lookup (ac_cfg c) now (ae_key e) (ac_abs c))"
    using ac_lookup_refines(3) [OF ok(1), of now "ae_key e"] by (auto dest: arg_cong [of _ _ fst])
  then show ?thesis
    using lru_holds_find [OF ok(2)] assms(2) by (auto simp: spec_lookup_def Let_def)
qed

text \<open>
  C36. The cache keeps what is in use: after an answer is stored, any sequence of
  lookups, stores and failure markers that does not replace the answer, does not look it
  up after its lifetime, and uses fewer other keys than the cache has room for, leaves it
  in place, however many operations there are: a lookup within its lifetime returns
  it, with the lifetimes of its records counted down.
\<close>

theorem stored_answer_stays:
  assumes "ac_inv c" and "cacheable (ac_cfg c) resp = Some (ttl, knd)"
    and "\<forall>op\<in>set ops. undisturbed
      \<lparr>ae_key = k, ae_msg = Some ((ac_stripOPT resp)\<lparr>msg_id := 0\<rparr>), ae_at = t, ae_ttl = ttl, ae_kind = knd, ae_hits = 0\<rparr> op"
    and "int (card ((\<Union>op\<in>set ops. op_keys op) - {k})) < MaxEntries (ac_cfg c)"
    and "now - t < ttl"
  shows "fst (ac_lookup now k (fold ac_step ops (ac_store t k resp c))) =
    (Some (decrementTTL ((ac_stripOPT resp)\<lparr>msg_id := 0\<rparr>) (now - t)), Fresh)"
proof -
  let ?e = "\<lparr>ae_key = k, ae_msg = Some ((ac_stripOPT resp)\<lparr>msg_id := 0\<rparr>), ae_at = t, ae_ttl = ttl, ae_kind = knd, ae_hits = 0\<rparr>"
  let ?K = "\<Union>op\<in>set ops. op_keys op"
  have "finite (op_keys op)" for op
    by (cases op) auto
  then have fin: "finite ?K"
    by simp
  have put: "keeps ?e ?K (ac_store t k resp c) \<and> ac_cfg (ac_store t k resp c) = ac_cfg c"
    using keeps_put [OF assms(1) store_entry_ok [OF assms(2)]] assms(2) by (simp add: ac_store_def)
  have "keeps ?e ?K (fold ac_step ops (ac_store t k resp c))"
    using keeps_run [of ?e ?K "ac_store t k resp c" ops] put assms(3,4) fin by auto
  moreover have "knd \<noteq> kindFail"
    using cacheable_cases [OF assms(2)] by auto
  ultimately show ?thesis
    using keeps_lookup [of ?e ?K _ now] assms(5) by simp
qed

definition demo_key2 :: ac_key where
  "demo_key2 = demo_key\<lparr>k_name := ''b.example.org.''\<rparr>"

theorem stored_answer_stays_witness:
  "let c = ac_store 0 demo_key demo_resp (ac_new (ac_defaults\<lparr>MaxEntries := 2\<rparr>)) in
   snd (fst (ac_lookup (50 * second) demo_key (fold ac_step
     [Op_Lookup second demo_key2, Op_StoreFail (2 * second) demo_key2, Op_Lookup (9 * second) demo_key2,
      Op_Lookup (40 * second) demo_key, Op_StoreFail (41 * second) demo_key2] c))) = Fresh"
proof -
  let ?c = "ac_new (ac_defaults\<lparr>MaxEntries := 2\<rparr>)"
  have c: "cacheable (ac_cfg ?c) demo_resp = Some (60 * second, kindPositive) \<and> MaxEntries (ac_cfg ?c) = 2 \<and> demo_key2 \<noteq> demo_key"
    by code_simp
  then have "card ({demo_key2, demo_key} - {demo_key}) = 1"
    by (simp add: insert_Diff_if)
  then show ?thesis
    using c stored_answer_stays [OF ac_new_inv conjunct1 [OF c],
      of "[Op_Lookup second demo_key2, Op_StoreFail (2 * second) demo_key2, Op_Lookup (9 * second) demo_key2,
      Op_Lookup (40 * second) demo_key, Op_StoreFail (41 * second) demo_key2]" demo_key 0 "50 * second"]
    by (simp add: Let_def insert_commute)
qed

end
