(* ===== verification/Breaker.thy ===== *)
theory Breaker
  imports Prelude
begin

text \<open>
  Package \<^verbatim>\<open>internal/forwarder\<close>, file \<^verbatim>\<open>breaker.go\<close>: the circuit breaker of
  one upstream, a state machine over a bucketed window of outcomes.  The clock
  value an operation reads is its argument.  A float64 ratio is a rational and is
  compared exactly.  The loop that rolls the window forward does not end when the
  bucket length is zero: it is a partial function, and None is not returning.
\<close>

section \<open>State and operations\<close>

datatype cb_state = cbClosed | cbOpen | cbHalfOpen

record policy =
  pol_window :: duration
  pol_buckets :: int
  pol_min_samples :: int
  pol_fail_ratio :: rat
  pol_consec_fail :: int
  pol_cooldown :: duration
  pol_half_open_max :: int

definition DefaultPolicy :: policy where
  "DefaultPolicy = \<lparr>pol_window = 30 * second, pol_buckets = 6, pol_min_samples = 10,
     pol_fail_ratio = 1 / 2, pol_consec_fail = 5, pol_cooldown = 5 * second, pol_half_open_max = 1\<rparr>"

record cb_bucket =
  bk_ok :: nat
  bk_fail :: nat

definition zero_bucket :: cb_bucket where
  "zero_bucket = \<lparr>bk_ok = 0, bk_fail = 0\<rparr>"

text \<open>The zero time of the window head, which asks for a new start, is None.\<close>

record breaker =
  br_pol :: policy
  br_state :: cb_state
  br_consec :: int
  br_opened_at :: time
  br_half_open :: int
  br_buckets :: "cb_bucket list"
  br_bucket_dur :: duration
  br_head_start :: "time option"
  br_head_idx :: nat

definition newBreaker :: "policy \<Rightarrow> breaker" where
  "newBreaker pol0 =
     (let pol1 = (if pol_buckets pol0 < 1 then pol0\<lparr>pol_buckets := 1\<rparr> else pol0);
          pol = (if pol_half_open_max pol1 < 1 then pol1\<lparr>pol_half_open_max := 1\<rparr> else pol1) in
      \<lparr>br_pol = pol, br_state = cbClosed, br_consec = 0, br_opened_at = 0, br_half_open = 0,
       br_buckets = replicate (nat (pol_buckets pol)) zero_bucket,
       br_bucket_dur = go_quot (pol_window pol) (pol_buckets pol),
       br_head_start = None, br_head_idx = 0\<rparr>)"

definition br_allow :: "time \<Rightarrow> breaker \<Rightarrow> bool \<times> breaker" where
  "br_allow now b =
     (case br_state b of
        cbOpen \<Rightarrow>
          if now - br_opened_at b \<ge> pol_cooldown (br_pol b) then
            (True, b\<lparr>br_state := cbHalfOpen, br_half_open := 1\<rparr>)
          else (False, b)
      | cbHalfOpen \<Rightarrow>
          if br_half_open b < pol_half_open_max (br_pol b) then
            (True, b\<lparr>br_half_open := br_half_open b + 1\<rparr>)
          else (False, b)
      | cbClosed \<Rightarrow> (True, b))"

definition br_trip :: "time \<Rightarrow> breaker \<Rightarrow> breaker" where
  "br_trip t b = b\<lparr>br_state := cbOpen, br_opened_at := t, br_half_open := 0\<rparr>"

definition clear_buckets :: "breaker \<Rightarrow> breaker" where
  "clear_buckets b = b\<lparr>br_buckets := map (\<lambda>_. zero_bucket) (br_buckets b)\<rparr>"

definition closeLocked :: "breaker \<Rightarrow> breaker" where
  "closeLocked b = (clear_buckets (b\<lparr>br_state := cbClosed, br_half_open := 0\<rparr>))\<lparr>br_head_start := None\<rparr>"

definition window_ok :: "breaker \<Rightarrow> nat" where
  "window_ok b = sum_list (map bk_ok (br_buckets b))"

definition window_fail :: "breaker \<Rightarrow> nat" where
  "window_fail b = sum_list (map bk_fail (br_buckets b))"

text \<open>
  With no outcome in the window the quotient is the float64 NaN, and no comparison
  with it holds.
\<close>

definition shouldTripLocked :: "breaker \<Rightarrow> bool" where
  "shouldTripLocked b =
     (if pol_consec_fail (br_pol b) > 0 \<and> br_consec b \<ge> pol_consec_fail (br_pol b) then True
      else
        (let total = window_ok b + window_fail b in
         int total \<ge> pol_min_samples (br_pol b) \<and> total \<noteq> 0 \<and>
         of_nat (window_fail b) / of_nat total \<ge> pol_fail_ratio (br_pol b)))"

partial_function (option) advance_loop :: "duration \<Rightarrow> breaker \<Rightarrow> breaker option" where
  "advance_loop elapsed b =
     (if elapsed \<ge> br_bucket_dur b then
        (let idx = (br_head_idx b + 1) mod length (br_buckets b) in
         advance_loop (elapsed - br_bucket_dur b)
           (b\<lparr>br_head_idx := idx, br_buckets := (br_buckets b)[idx := zero_bucket],
              br_head_start := map_option (\<lambda>s. s + br_bucket_dur b) (br_head_start b)\<rparr>))
      else Some b)"

definition advanceLocked :: "time \<Rightarrow> breaker \<Rightarrow> breaker option" where
  "advanceLocked t b =
     (case br_head_start b of
        None \<Rightarrow> Some (b\<lparr>br_head_start := Some t\<rparr>)
      | Some s \<Rightarrow>
          (let elapsed = t - s in
           if elapsed \<ge> pol_window (br_pol b) then
             Some ((clear_buckets b)\<lparr>br_head_start := Some t, br_head_idx := 0\<rparr>)
           else advance_loop elapsed b))"

definition bump :: "bool \<Rightarrow> breaker \<Rightarrow> breaker" where
  "bump ok b =
     (let i = br_head_idx b; bk = br_buckets b ! i in
      b\<lparr>br_buckets := (br_buckets b)[i :=
         (if ok then bk\<lparr>bk_ok := bk_ok bk + 1\<rparr> else bk\<lparr>bk_fail := bk_fail bk + 1\<rparr>)]\<rparr>)"

definition br_record :: "time \<Rightarrow> bool \<Rightarrow> breaker \<Rightarrow> breaker option" where
  "br_record t ok b0 =
     (case advanceLocked t b0 of
        None \<Rightarrow> None
      | Some b \<Rightarrow>
          if ok then
            (let b1 = (bump True b)\<lparr>br_consec := 0\<rparr> in
             Some (if br_state b1 \<noteq> cbClosed then closeLocked b1 else b1))
          else
            (let b1 = (bump False b)\<lparr>br_consec := br_consec b + 1\<rparr> in
             Some (case br_state b1 of
                 cbHalfOpen \<Rightarrow> br_trip t b1
               | cbClosed \<Rightarrow> (if shouldTripLocked b1 then br_trip t b1 else b1)
               | cbOpen \<Rightarrow> b1)))"

record br_status_info =
  bs_state :: string
  bs_consec :: int
  bs_ratio :: rat
  bs_open_for :: duration
  bs_cooldown_left :: duration

definition br_status :: "time \<Rightarrow> breaker \<Rightarrow> br_status_info" where
  "br_status t b =
     (let total = window_ok b + window_fail b;
          ratio = (if total > 0 then of_nat (window_fail b) / of_nat total else 0) in
      case br_state b of
        cbOpen \<Rightarrow>
          (let open_for = t - br_opened_at b; rem = pol_cooldown (br_pol b) - open_for in
           \<lparr>bs_state = ''open'', bs_consec = br_consec b, bs_ratio = ratio, bs_open_for = open_for,
            bs_cooldown_left = (if rem > 0 then rem else 0)\<rparr>)
      | cbHalfOpen \<Rightarrow>
          \<lparr>bs_state = ''half-open'', bs_consec = br_consec b, bs_ratio = ratio,
           bs_open_for = t - br_opened_at b, bs_cooldown_left = 0\<rparr>
      | cbClosed \<Rightarrow>
          \<lparr>bs_state = ''closed'', bs_consec = br_consec b, bs_ratio = ratio,
           bs_open_for = 0, bs_cooldown_left = 0\<rparr>)"

section \<open>Invariant\<close>

definition br_inv :: "breaker \<Rightarrow> bool" where
  "br_inv b \<longleftrightarrow>
     1 \<le> pol_buckets (br_pol b) \<and> length (br_buckets b) = nat (pol_buckets (br_pol b)) \<and>
     br_head_idx b < length (br_buckets b) \<and> 0 < br_bucket_dur b \<and>
     1 \<le> pol_half_open_max (br_pol b) \<and> 0 \<le> br_consec b \<and>
     (case br_state b of
        cbClosed \<Rightarrow> br_half_open b = 0 \<and>
          (0 < pol_consec_fail (br_pol b) \<longrightarrow> br_consec b < pol_consec_fail (br_pol b))
      | cbOpen \<Rightarrow> br_half_open b = 0
      | cbHalfOpen \<Rightarrow> 1 \<le> br_half_open b \<and> br_half_open b \<le> pol_half_open_max (br_pol b))"

text \<open>The fields that rolling the window leaves alone.\<close>

definition same_mode :: "breaker \<Rightarrow> breaker \<Rightarrow> bool" where
  "same_mode b b' \<longleftrightarrow> br_pol b' = br_pol b \<and> br_state b' = br_state b \<and> br_consec b' = br_consec b \<and>
     br_opened_at b' = br_opened_at b \<and> br_half_open b' = br_half_open b \<and>
     br_bucket_dur b' = br_bucket_dur b \<and> length (br_buckets b') = length (br_buckets b) \<and>
     (br_head_idx b < length (br_buckets b) \<longrightarrow> br_head_idx b' < length (br_buckets b))"

lemma advance_loop_returns:
  "0 < br_bucket_dur b \<Longrightarrow> \<exists>b'. advance_loop elapsed b = Some b' \<and> same_mode b b'"
proof (induction "nat elapsed" arbitrary: elapsed b rule: less_induct)
  case less
  show ?case
  proof (cases "elapsed \<ge> br_bucket_dur b")
    case True
    let ?idx = "(br_head_idx b + 1) mod length (br_buckets b)"
    let ?b = "b\<lparr>br_head_idx := ?idx, br_buckets := (br_buckets b)[?idx := zero_bucket],
              br_head_start := map_option (\<lambda>s. s + br_bucket_dur b) (br_head_start b)\<rparr>"
    have "nat (elapsed - br_bucket_dur b) < nat elapsed"
      using True less.prems by linarith
    then obtain b' where "advance_loop (elapsed - br_bucket_dur b) ?b = Some b'" "same_mode ?b b'"
      using less.hyps [of "elapsed - br_bucket_dur b" ?b] less.prems by auto
    moreover have "br_head_idx b < length (br_buckets b) \<longrightarrow> ?idx < length (br_buckets b)"
      by (metis less_nat_zero_code mod_less_divisor not_gr_zero)
    ultimately show ?thesis
      using True by (subst advance_loop.simps) (auto simp: Let_def same_mode_def)
  next
    case False
    then show ?thesis
      by (subst advance_loop.simps) (simp add: same_mode_def)
  qed
qed

lemma advanceLocked_returns:
  assumes "br_inv b"
  shows "\<exists>b'. advanceLocked t b = Some b' \<and> same_mode b b'"
  using assms advance_loop_returns [of b]
  by (auto simp: advanceLocked_def br_inv_def Let_def same_mode_def clear_buckets_def split: option.splits)

lemma same_mode_inv: "same_mode b b' \<Longrightarrow> br_inv b \<Longrightarrow> br_inv b'"
  by (auto simp: same_mode_def br_inv_def split: cb_state.splits)

lemma bump_simps [simp]:
  "br_pol (bump ok b) = br_pol b" "br_state (bump ok b) = br_state b"
  "br_consec (bump ok b) = br_consec b" "br_half_open (bump ok b) = br_half_open b"
  "br_bucket_dur (bump ok b) = br_bucket_dur b" "br_head_idx (bump ok b) = br_head_idx b"
  "length (br_buckets (bump ok b)) = length (br_buckets b)"
  by (simp_all add: bump_def Let_def)

lemma shouldTrip_consec:
  "0 < pol_consec_fail (br_pol b) \<Longrightarrow> \<not> shouldTripLocked b \<Longrightarrow> br_consec b < pol_consec_fail (br_pol b)"
  by (auto simp: shouldTripLocked_def split: if_splits)

lemma br_record_ok:
  assumes "br_inv b"
  shows "\<exists>b'. br_record t True b = Some b' \<and> br_inv b' \<and> br_state b' = cbClosed \<and> br_consec b' = 0 \<and>
    br_pol b' = br_pol b"
proof -
  obtain b1 where b1: "advanceLocked t b = Some b1" "same_mode b b1"
    using advanceLocked_returns [OF assms] by blast
  then have "br_inv b1" "br_pol b1 = br_pol b"
    using same_mode_inv assms by (auto simp: same_mode_def)
  then show ?thesis
    using b1(1) by (auto simp: br_record_def Let_def br_inv_def closeLocked_def clear_buckets_def
        split: cb_state.splits)
qed

lemma br_record_fail:
  assumes "br_inv b"
  shows "\<exists>b'. br_record t False b = Some b' \<and> br_inv b' \<and> br_consec b' = br_consec b + 1 \<and>
    br_pol b' = br_pol b \<and> br_state b' \<noteq> cbHalfOpen \<and> (br_state b \<noteq> cbClosed \<longrightarrow> br_state b' = cbOpen)"
proof -
  obtain b1 where b1: "advanceLocked t b = Some b1" "same_mode b b1"
    using advanceLocked_returns [OF assms] by blast
  let ?b2 = "(bump False b1)\<lparr>br_consec := br_consec b1 + 1\<rparr>"
  have i: "br_inv b1" "br_pol b1 = br_pol b" "br_consec b1 = br_consec b" "br_state b1 = br_state b"
    using same_mode_inv b1(2) assms by (auto simp: same_mode_def)
  show ?thesis
    using i b1(1) shouldTrip_consec [of ?b2]
    by (cases "br_state b") (auto simp: br_record_def Let_def br_inv_def br_trip_def)
qed

lemma br_allow_inv: "br_inv b \<Longrightarrow> br_inv (snd (br_allow t b))"
  by (auto simp: br_allow_def br_inv_def split: cb_state.splits)

lemma br_allow_pol [simp]: "br_pol (snd (br_allow t b)) = br_pol b"
  by (auto simp: br_allow_def split: cb_state.splits)

lemma newBreaker_inv:
  assumes "max 1 (pol_buckets pol) \<le> pol_window pol"
  shows "br_inv (newBreaker pol)"
proof -
  have "0 < pol_window pol div n" if "1 \<le> n" "n \<le> pol_window pol" for n
    using that by (simp add: pos_imp_zdiv_pos_iff)
  then show ?thesis
    using assms by (auto simp: br_inv_def newBreaker_def Let_def max_def split: if_splits)
qed

section \<open>Reachable states\<close>

text \<open>The steps other goroutines can take: a request for admission, and the report of an outcome.\<close>

inductive br_reachable :: "policy \<Rightarrow> breaker \<Rightarrow> bool" for pol where
  fresh: "br_reachable pol (newBreaker pol)"
| admit: "br_reachable pol b \<Longrightarrow> br_reachable pol (snd (br_allow t b))"
| outcome: "br_reachable pol b \<Longrightarrow> br_record t ok b = Some b' \<Longrightarrow> br_reachable pol b'"

lemma br_reachable_inv:
  assumes "br_reachable pol b" "max 1 (pol_buckets pol) \<le> pol_window pol"
  shows "br_inv b"
  using assms
proof (induction rule: br_reachable.induct)
  case (outcome b t ok b')
  then show ?case
    using br_record_ok [of b t] br_record_fail [of b t] by (cases ok) auto
qed (auto simp: newBreaker_inv br_allow_inv)

text \<open>
  C13. The breaker never hangs and never leaves its state space: for a window of at
  least one nanosecond per bucket, in every reachable state an outcome can be
  recorded, the window index is in range, a closed or open breaker has no probe
  out, a half-open one has between one and the configured number, and a closed
  breaker is below the consecutive-failure limit.
\<close>

theorem breaker_safe:
  assumes "br_reachable pol b" and "max 1 (pol_buckets pol) \<le> pol_window pol"
  shows "br_inv b \<and> (\<exists>b'. br_record t ok b = Some b' \<and> br_inv b')"
  using br_reachable_inv [OF assms] br_record_ok [of b t] br_record_fail [of b t] by (cases ok) auto

theorem breaker_safe_witness:
  "br_inv (newBreaker DefaultPolicy) \<and>
   (\<exists>b'. br_record 5 False (newBreaker DefaultPolicy) = Some b' \<and> br_inv b')"
  by (rule breaker_safe [OF br_reachable.fresh]) (simp add: DefaultPolicy_def)

fun record_all :: "(time \<times> bool) list \<Rightarrow> breaker \<Rightarrow> breaker option" where
  "record_all [] b = Some b"
| "record_all ((t, ok) # os) b =
     (case br_record t ok b of None \<Rightarrow> None | Some b' \<Rightarrow> record_all os b')"

lemma record_fails:
  assumes "br_inv b"
  shows "\<exists>b'. record_all (map (\<lambda>t. (t, False)) ts) b = Some b' \<and> br_inv b' \<and> br_pol b' = br_pol b \<and>
    br_consec b' = br_consec b + int (length ts) \<and>
    (ts \<noteq> [] \<longrightarrow> br_state b' \<noteq> cbHalfOpen) \<and> (br_state b = cbOpen \<longrightarrow> br_state b' = cbOpen)"
  using assms
proof (induction ts arbitrary: b)
  case (Cons t ts)
  obtain b1 where "br_record t False b = Some b1" "br_inv b1" "br_consec b1 = br_consec b + 1"
    "br_pol b1 = br_pol b" "br_state b1 \<noteq> cbHalfOpen" "br_state b \<noteq> cbClosed \<longrightarrow> br_state b1 = cbOpen"
    using br_record_fail [OF Cons.prems] by blast
  then show ?case
    using Cons.IH [of b1] by (cases "ts = []") auto
qed simp

text \<open>
  C35. A dead upstream trips: when the limit of consecutive failures is set, that
  many failures in a row, at whatever times, leave the breaker open, from any
  state.
\<close>

theorem breaker_trips_on_consecutive_failures:
  assumes "br_inv b" and "0 < pol_consec_fail (br_pol b)"
    and "pol_consec_fail (br_pol b) \<le> int (length ts)"
  shows "\<exists>b'. record_all (map (\<lambda>t. (t, False)) ts) b = Some b' \<and> br_state b' = cbOpen"
proof -
  obtain b' where b': "record_all (map (\<lambda>t. (t, False)) ts) b = Some b'" "br_inv b'" "br_pol b' = br_pol b"
    "br_consec b' = br_consec b + int (length ts)" "ts \<noteq> [] \<longrightarrow> br_state b' \<noteq> cbHalfOpen"
    using record_fails [OF assms(1)] by blast
  have "ts \<noteq> []" "pol_consec_fail (br_pol b') \<le> br_consec b'"
    using assms b' by (auto simp: br_inv_def)
  then show ?thesis
    using b' assms(2) by (cases "br_state b'") (auto simp: br_inv_def)
qed

theorem breaker_trips_on_consecutive_failures_witness:
  "\<exists>b'. record_all (map (\<lambda>t. (t, False)) [1, 2, 3, 4, 5]) (newBreaker DefaultPolicy) = Some b' \<and>
     br_state b' = cbOpen"
  by (rule breaker_trips_on_consecutive_failures)
    (rule newBreaker_inv, simp_all add: DefaultPolicy_def newBreaker_def)

fun allow_all :: "time list \<Rightarrow> breaker \<Rightarrow> bool list" where
  "allow_all [] b = []"
| "allow_all (t # ts) b = fst (br_allow t b) # allow_all ts (snd (br_allow t b))"

lemma half_open_admits:
  "br_inv b \<Longrightarrow> br_state b = cbHalfOpen \<Longrightarrow>
   int (length (filter (\<lambda>a. a) (allow_all ts b))) \<le> pol_half_open_max (br_pol b) - br_half_open b"
proof (induction ts arbitrary: b)
  case (Cons t ts)
  have "br_inv (snd (br_allow t b))"
    using Cons.prems br_allow_inv by blast
  moreover have "br_state (snd (br_allow t b)) = cbHalfOpen"
    using Cons.prems by (simp add: br_allow_def)
  ultimately show ?case
    using Cons.IH [of "snd (br_allow t b)"] Cons.prems
    by (auto simp: br_allow_def split: if_splits)
qed (simp add: br_inv_def)

text \<open>
  An open breaker protects its upstream: it admits nothing before the
  cooldown has passed, and until an outcome is recorded it admits at most the
  configured number of probes, however many requests arrive.
\<close>

theorem breaker_bounds_probes:
  assumes "br_inv b" and "br_state b = cbOpen"
  shows "int (length (filter (\<lambda>a. a) (allow_all ts b))) \<le> pol_half_open_max (br_pol b) \<and>
    (now - br_opened_at b < pol_cooldown (br_pol b) \<longrightarrow> br_allow now b = (False, b))"
proof -
  have "br_inv b \<Longrightarrow> br_state b = cbOpen \<Longrightarrow>
      int (length (filter (\<lambda>a. a) (allow_all ts b))) \<le> pol_half_open_max (br_pol b)" for b
  proof (induction ts arbitrary: b)
    case (Cons t ts)
    show ?case
    proof (cases "t - br_opened_at b \<ge> pol_cooldown (br_pol b)")
      case True
      then show ?thesis
        using Cons.prems br_allow_inv [of b t] half_open_admits [of "snd (br_allow t b)" ts]
        by (simp add: br_allow_def)
    next
      case False
      then show ?thesis
        using Cons by (simp add: br_allow_def)
    qed
  qed (simp add: br_inv_def)
  then show ?thesis
    using assms by (simp add: br_allow_def)
qed

theorem breaker_bounds_probes_witness:
  "(let b = br_trip 0 (newBreaker DefaultPolicy) in
    allow_all [1, 6 * second, 7 * second, 8 * second] b = [False, True, False, False] \<and>
    int (length (filter (\<lambda>a. a) (allow_all [1, 6 * second, 7 * second, 8 * second] b))) \<le> pol_half_open_max (br_pol b))"
proof -
  let ?b = "br_trip 0 (newBreaker DefaultPolicy)"
  have "br_inv ?b" "br_state ?b = cbOpen"
    by (simp_all add: br_inv_def br_trip_def newBreaker_def DefaultPolicy_def Let_def)
  moreover have "allow_all [1, 6 * second, 7 * second, 8 * second] ?b = [False, True, False, False]"
    by (simp add: br_allow_def br_trip_def newBreaker_def DefaultPolicy_def Let_def)
  ultimately show ?thesis
    unfolding Let_def using breaker_bounds_probes [of ?b "[1, 6 * second, 7 * second, 8 * second]"] by blast
qed

text \<open>With an empty bucket length the window never catches up: the loop does not return.\<close>

lemma advance_loop_hangs:
  assumes "br_bucket_dur b = 0" "0 \<le> elapsed"
  shows "advance_loop elapsed b = None"
proof -
  have "br_bucket_dur b' = 0 \<longrightarrow> 0 \<le> e \<longrightarrow> False" if "advance_loop e b' = Some r" for e b' r
    using that
    by (rule advance_loop.raw_induct [where P = "\<lambda>e b' r. br_bucket_dur b' = 0 \<longrightarrow> 0 \<le> e \<longrightarrow> False", rotated])
      (fastforce simp: Let_def split: if_splits)
  then show ?thesis
    using assms by (cases "advance_loop elapsed b") auto
qed

end
