(* ===== verification/Forwarder.thy ===== *)
theory Forwarder
  imports Breaker Dns "HOL-Library.Monad_Syntax"
begin

text \<open>
  Package \<^verbatim>\<open>internal/forwarder\<close>, file \<^verbatim>\<open>forwarder.go\<close>: the ordered list of upstreams,
  their circuit breakers, the fail-open pass and the cleartext fallback.  The
  network and the clock are an environment: what the n-th exchange of a run
  returns (the vendored DNS client, the deadline of the context included) and what
  the n-th reading of the clock gives.  A state carries the forwarder, the list of
  exchanges made so far, the number of clock readings and the audit lines.  One
  call runs at a time; the result None of a step is a breaker that does not return.
\<close>

section \<open>State\<close>

definition dotNames :: "(string, string) gomap" where
  "dotNames =
    [(''1.1.1.1'', ''cloudflare-dns.com''), (''1.0.0.1'', ''cloudflare-dns.com''),
     (''2606:4700:4700::1111'', ''cloudflare-dns.com''), (''2606:4700:4700::1001'', ''cloudflare-dns.com''),
     (''8.8.8.8'', ''dns.google''), (''8.8.4.4'', ''dns.google''),
     (''2001:4860:4860::8888'', ''dns.google''), (''2001:4860:4860::8844'', ''dns.google''),
     (''9.9.9.9'', ''dns.quad9.net''), (''149.112.112.112'', ''dns.quad9.net'')]"

record upstream =
  up_addr :: string
  up_net :: string
  up_server_name :: string

text \<open>The client of the DNS library: transport, timeout, and the TLS name it verifies.\<close>

record dns_client =
  cl_net :: string
  cl_timeout :: duration
  cl_tls :: "string option"

record backend_stat =
  bst_queries :: nat
  bst_failures :: nat
  bst_ok_latency :: duration
  bst_last_ok :: duration

record forwarder =
  fw_primary :: "upstream list"
  fw_fallback :: "upstream list"
  fw_cleartext :: bool
  fw_per_try :: duration
  fw_overall :: duration
  fw_breaker_enabled :: bool
  fw_policy :: policy
  fw_clients :: "(string, dns_client) gomap"
  fw_breakers :: "(string, breaker) gomap"
  fw_disabled :: "(string, bool) gomap"
  fw_bstats :: "(string, backend_stat) gomap"

datatype fw_err =
    NoServerName string
  | ManuallyDisabled string
  | BreakerOpen string
  | ExchangeErr string string string
  | DoTFailed fw_err
  | AllFailed fw_err
  | StubsFailed fw_err
  | NoServers

record exchange =
  ex_client :: dns_client
  ex_addr :: string

record fw_env =
  env_exchange :: "nat \<Rightarrow> exchange \<Rightarrow> dns_msg \<Rightarrow> string + dns_msg"
  env_now :: "nat \<Rightarrow> time"

record fw_state =
  st_fw :: forwarder
  st_log :: "exchange list"
  st_ticks :: nat
  st_audit :: "(fw_err \<times> string) list"

definition fw_tick :: "fw_env \<Rightarrow> fw_state \<Rightarrow> time \<times> fw_state" where
  "fw_tick env st = (env_now env (st_ticks st), st\<lparr>st_ticks := st_ticks st + 1\<rparr>)"

definition upkey :: "upstream \<Rightarrow> string" where
  "upkey u = up_net u @ ''|'' @ up_addr u"

section \<open>Construction\<close>

type_synonym fw_option = "forwarder \<Rightarrow> forwarder"

definition WithBreaker :: "bool \<Rightarrow> fw_option" where
  "WithBreaker enabled f = f\<lparr>fw_breaker_enabled := enabled\<rparr>"

definition WithPolicy :: "policy \<Rightarrow> fw_option" where
  "WithPolicy p f = f\<lparr>fw_policy := p\<rparr>"

definition newForwarder :: "bool \<Rightarrow> fw_option list \<Rightarrow> forwarder" where
  "newForwarder cleartext opts =
     foldl (\<lambda>f opt. opt f)
       \<lparr>fw_primary = [], fw_fallback = [], fw_cleartext = cleartext,
        fw_per_try = 1500000000, fw_overall = 4 * second, fw_breaker_enabled = True,
        fw_policy = DefaultPolicy, fw_clients = [], fw_breakers = [], fw_disabled = [],
        fw_bstats = []\<rparr> opts"

definition JoinHostPort :: "string \<Rightarrow> string \<Rightarrow> string" where
  "JoinHostPort host port =
     (if ContainsByte host CHR '':'' then ''['' @ host @ '']:'' @ port else host @ '':'' @ port)"

definition add_server :: "forwarder \<Rightarrow> string \<Rightarrow> forwarder" where
  "add_server f s =
     (let (host, sni0) =
            (case IndexByte s CHR ''@'' of None \<Rightarrow> (s, []) | Some i \<Rightarrow> (take i s, drop (i + 1) s));
          (ip, port) = (case SplitHostPort host of None \<Rightarrow> (host, []) | Some hp \<Rightarrow> hp);
          sni = (if sni0 = [] then gm_str dotNames ip else sni0);
          dotPort = (if port = [] \<or> port = ''53'' then ''853'' else port) in
      f\<lparr>fw_primary := fw_primary f @
          [\<lparr>up_addr = JoinHostPort ip dotPort, up_net = ''tcp-tls'', up_server_name = sni\<rparr>],
        fw_fallback := fw_fallback f @
          [\<lparr>up_addr = JoinHostPort ip ''53'', up_net = ''udp'', up_server_name = []\<rparr>]\<rparr>)"

definition Build :: "string list \<Rightarrow> bool \<Rightarrow> fw_option list \<Rightarrow> fw_err + forwarder" where
  "Build servers cleartext opts =
     (let f = foldl add_server (newForwarder cleartext opts) servers in
      if fw_primary f = [] then Inl NoServers else Inr f)"

definition NewWithUpstreams ::
    "upstream list \<Rightarrow> upstream list \<Rightarrow> bool \<Rightarrow> fw_option list \<Rightarrow> forwarder" where
  "NewWithUpstreams primary fallback cleartext opts =
     (newForwarder cleartext opts)\<lparr>fw_primary := primary, fw_fallback := fallback\<rparr>"

section \<open>Per-upstream state\<close>

definition isDisabled :: "forwarder \<Rightarrow> string \<Rightarrow> bool" where
  "isDisabled f addr = (gm_get (fw_disabled f) addr = Some True)"

definition knownAddr :: "forwarder \<Rightarrow> string \<Rightarrow> bool" where
  "knownAddr f addr =
     ((\<exists>u\<in>set (fw_primary f). up_addr u = addr) \<or> (\<exists>u\<in>set (fw_fallback f). up_addr u = addr))"

definition SetBackendEnabled :: "string \<Rightarrow> bool \<Rightarrow> forwarder \<Rightarrow> bool \<times> forwarder" where
  "SetBackendEnabled addr enabled f =
     (if \<not> knownAddr f addr then (False, f)
      else if enabled then (True, f\<lparr>fw_disabled := gm_del (fw_disabled f) addr\<rparr>)
      else (True, f\<lparr>fw_disabled := gm_set (fw_disabled f) addr True\<rparr>))"

definition ResetBackends :: "forwarder \<Rightarrow> forwarder" where
  "ResetBackends f = f\<lparr>fw_disabled := []\<rparr>"

definition peekBreaker :: "forwarder \<Rightarrow> upstream \<Rightarrow> breaker option" where
  "peekBreaker f u = (if \<not> fw_breaker_enabled f then None else gm_get (fw_breakers f) (upkey u))"

definition breakerFor :: "upstream \<Rightarrow> forwarder \<Rightarrow> breaker option \<times> forwarder" where
  "breakerFor u f =
     (if \<not> fw_breaker_enabled f then (None, f)
      else case gm_get (fw_breakers f) (upkey u) of
        Some b \<Rightarrow> (Some b, f)
      | None \<Rightarrow>
          (let b = newBreaker (fw_policy f) in
           (Some b, f\<lparr>fw_breakers := gm_set (fw_breakers f) (upkey u) b\<rparr>)))"

definition set_breaker :: "upstream \<Rightarrow> breaker \<Rightarrow> forwarder \<Rightarrow> forwarder" where
  "set_breaker u b f = f\<lparr>fw_breakers := gm_set (fw_breakers f) (upkey u) b\<rparr>"

definition noteAttempt :: "upstream \<Rightarrow> bool \<Rightarrow> duration \<Rightarrow> forwarder \<Rightarrow> forwarder" where
  "noteAttempt u ok d f =
     (let key = upkey u;
          bs = (case gm_get (fw_bstats f) key of
                  None \<Rightarrow> \<lparr>bst_queries = 0, bst_failures = 0, bst_ok_latency = 0, bst_last_ok = 0\<rparr>
                | Some bs \<Rightarrow> bs);
          bs1 = bs\<lparr>bst_queries := bst_queries bs + 1\<rparr>;
          bs2 = (if ok then bs1\<lparr>bst_ok_latency := bst_ok_latency bs1 + d, bst_last_ok := d\<rparr>
                 else bs1\<lparr>bst_failures := bst_failures bs1 + 1\<rparr>) in
      f\<lparr>fw_bstats := gm_set (fw_bstats f) key bs2\<rparr>)"

definition statSnapshot :: "forwarder \<Rightarrow> upstream \<Rightarrow> nat \<times> nat \<times> duration \<times> duration" where
  "statSnapshot f u =
     (case gm_get (fw_bstats f) (upkey u) of
        None \<Rightarrow> (0, 0, 0, 0)
      | Some bs \<Rightarrow>
          (let ok = bst_queries bs - bst_failures bs;
               avg = (if ok > 0 then go_quot (bst_ok_latency bs) (int ok) else 0) in
           (bst_queries bs, bst_failures bs, avg, bst_last_ok bs)))"

record backend_status =
  be_addr :: string
  be_net :: string
  be_role :: string
  be_state :: string
  be_healthy :: bool
  be_disabled :: bool
  be_consec :: int
  be_fail_ratio :: rat
  be_open_for :: duration
  be_cooldown :: duration
  be_queries :: nat
  be_failures :: nat
  be_avg_rtt :: duration
  be_last_rtt :: duration

definition backend_of :: "time \<Rightarrow> forwarder \<Rightarrow> string \<Rightarrow> upstream \<Rightarrow> backend_status" where
  "backend_of now f role u =
     (let (q, fl, avg, last_ok) = statSnapshot f u;
          bs = \<lparr>be_addr = up_addr u, be_net = up_net u, be_role = role, be_state = ''n/a'',
                be_healthy = True, be_disabled = False, be_consec = 0, be_fail_ratio = 0,
                be_open_for = 0, be_cooldown = 0, be_queries = q, be_failures = fl,
                be_avg_rtt = avg, be_last_rtt = last_ok\<rparr> in
      if isDisabled f (up_addr u) then
        bs\<lparr>be_state := ''disabled'', be_disabled := True, be_healthy := False\<rparr>
      else if fw_breaker_enabled f then
        (case peekBreaker f u of
           None \<Rightarrow> bs\<lparr>be_state := ''closed''\<rparr>
         | Some b \<Rightarrow>
             (let s = br_status now b in
              bs\<lparr>be_state := bs_state s, be_consec := bs_consec s, be_fail_ratio := bs_ratio s,
                 be_open_for := bs_open_for s, be_cooldown := bs_cooldown_left s,
                 be_healthy := (bs_state s \<noteq> ''open'')\<rparr>))
      else bs)"

definition Backends :: "time \<Rightarrow> forwarder \<Rightarrow> backend_status list" where
  "Backends now f =
     map (backend_of now f ''primary'') (fw_primary f) @
     (if fw_cleartext f then map (backend_of now f ''fallback'') (fw_fallback f) else [])"

section \<open>Exchanges\<close>

definition new_client :: "duration \<Rightarrow> upstream \<Rightarrow> dns_client" where
  "new_client per_try u =
     \<lparr>cl_net = up_net u, cl_timeout = per_try,
      cl_tls = (if up_net u = ''tcp-tls'' then Some (up_server_name u) else None)\<rparr>"

definition clkey :: "upstream \<Rightarrow> string" where
  "clkey u = up_net u @ ''|'' @ up_server_name u"

definition clientFor :: "upstream \<Rightarrow> forwarder \<Rightarrow> dns_client \<times> forwarder" where
  "clientFor u f =
     (case gm_get (fw_clients f) (clkey u) of
        Some c \<Rightarrow> (c, f)
      | None \<Rightarrow>
          (let c = new_client (fw_per_try f) u in
           (c, f\<lparr>fw_clients := gm_set (fw_clients f) (clkey u) c\<rparr>)))"

definition fw_exchange :: "fw_env \<Rightarrow> upstream \<Rightarrow> dns_msg \<Rightarrow> fw_state \<Rightarrow> (fw_err + dns_msg) \<times> fw_state" where
  "fw_exchange env u req st =
     (let (c, f) = clientFor u (st_fw st);
          ex = \<lparr>ex_client = c, ex_addr = up_addr u\<rparr>;
          st' = st\<lparr>st_fw := f, st_log := st_log st @ [ex]\<rparr> in
      case env_exchange env (length (st_log st)) ex req of
        Inl e \<Rightarrow> (Inl (ExchangeErr (up_net u) (up_addr u) e), st')
      | Inr resp \<Rightarrow> (Inr resp, st'))"

definition tcp_of :: "upstream \<Rightarrow> upstream" where
  "tcp_of u = \<lparr>up_addr = up_addr u, up_net = ''tcp'', up_server_name = []\<rparr>"

definition attempt :: "fw_env \<Rightarrow> upstream \<Rightarrow> dns_msg \<Rightarrow> fw_state \<Rightarrow> (fw_err + dns_msg) \<times> fw_state" where
  "attempt env u req st =
     (case fw_exchange env u req st of
        (Inl e, st1) \<Rightarrow> (Inl e, st1)
      | (Inr resp, st1) \<Rightarrow>
          if msg_tc resp \<and> up_net u = ''udp'' then
            (case fw_exchange env (tcp_of u) req st1 of
               (Inr tcp, st2) \<Rightarrow> (Inr tcp, st2)
             | (Inl _, st2) \<Rightarrow> (Inr resp, st2))
          else (Inr resp, st1))"

text \<open>Asking the breaker reads the clock only when the breaker is open.\<close>

definition fw_allow :: "fw_env \<Rightarrow> upstream \<Rightarrow> fw_state \<Rightarrow> bool \<times> fw_state" where
  "fw_allow env u st =
     (case breakerFor u (st_fw st) of
        (None, f) \<Rightarrow> (True, st\<lparr>st_fw := f\<rparr>)
      | (Some b, f) \<Rightarrow>
          (let (now, st1) = (if br_state b = cbOpen then fw_tick env st else (0, st));
               (ok, b') = br_allow now b in
           (ok, st1\<lparr>st_fw := set_breaker u b' f\<rparr>)))"

definition fw_record :: "fw_env \<Rightarrow> upstream \<Rightarrow> bool \<Rightarrow> fw_state \<Rightarrow> fw_state option" where
  "fw_record env u ok st =
     (case breakerFor u (st_fw st) of
        (None, f) \<Rightarrow> Some (st\<lparr>st_fw := f\<rparr>)
      | (Some b, f) \<Rightarrow>
          (let (now, st1) = fw_tick env st in
           do { b' \<leftarrow> br_record now ok b; Some (st1\<lparr>st_fw := set_breaker u b' f\<rparr>) }))"

text \<open>
  One attempt with its bookkeeping, the part the two passes share: the clock before
  and after, the exchange, the counters and the breaker.
\<close>

definition tracked_attempt ::
    "fw_env \<Rightarrow> upstream \<Rightarrow> dns_msg \<Rightarrow> fw_state \<Rightarrow> ((fw_err + dns_msg) \<times> fw_state) option" where
  "tracked_attempt env u req st =
     (let (start, st1) = fw_tick env st;
          (r, st2) = attempt env u req st1;
          ok = (case r of Inl _ \<Rightarrow> False | Inr _ \<Rightarrow> True);
          (stop, st3) = fw_tick env st2;
          st4 = st3\<lparr>st_fw := noteAttempt u ok (stop - start) (st_fw st3)\<rparr> in
      do { st5 \<leftarrow> fw_record env u ok st4; Some (r, st5) })"

definition lacks_sni :: "bool \<Rightarrow> upstream \<Rightarrow> bool" where
  "lacks_sni requireSNI u \<longleftrightarrow> requireSNI \<and> up_net u = ''tcp-tls'' \<and> up_server_name u = []"

text \<open>
  A pass gives the response that ended it, if any, the last error, and whether some
  upstream was allowed.
\<close>

type_synonym pass_result = "dns_msg option \<times> fw_err option \<times> bool \<times> fw_state"

fun first_pass ::
    "fw_env \<Rightarrow> dns_msg \<Rightarrow> bool \<Rightarrow> upstream list \<Rightarrow> fw_err option \<Rightarrow> bool \<Rightarrow> fw_state \<Rightarrow> pass_result option" where
  "first_pass env req sni [] lastErr allowedAny st = Some (None, lastErr, allowedAny, st)"
| "first_pass env req sni (u # us) lastErr allowedAny st =
     (if lacks_sni sni u then
        first_pass env req sni us (Some (NoServerName (up_addr u))) allowedAny st
      else if isDisabled (st_fw st) (up_addr u) then
        first_pass env req sni us (Some (ManuallyDisabled (up_addr u))) allowedAny st
      else
        (let (allowed, st1) = fw_allow env u st in
         if \<not> allowed then first_pass env req sni us (Some (BreakerOpen (up_addr u))) allowedAny st1
         else do {
           (r, st2) \<leftarrow> tracked_attempt env u req st1;
           case r of
             Inr resp \<Rightarrow> Some (Some resp, lastErr, True, st2)
           | Inl e \<Rightarrow> first_pass env req sni us (Some e) True st2 }))"

fun forced_pass ::
    "fw_env \<Rightarrow> dns_msg \<Rightarrow> bool \<Rightarrow> upstream list \<Rightarrow> fw_err option \<Rightarrow> fw_state \<Rightarrow>
     (dns_msg option \<times> fw_err option \<times> fw_state) option" where
  "forced_pass env req sni [] lastErr st = Some (None, lastErr, st)"
| "forced_pass env req sni (u # us) lastErr st =
     (if lacks_sni sni u \<or> isDisabled (st_fw st) (up_addr u) then forced_pass env req sni us lastErr st
      else do {
        (r, st1) \<leftarrow> tracked_attempt env u req st;
        case r of
          Inr resp \<Rightarrow> Some (Some resp, lastErr, st1)
        | Inl e \<Rightarrow> forced_pass env req sni us (Some e) st1 })"

text \<open>
  The pair of Go results.  Without upstreams both are nil: no response and no error.
\<close>

type_synonym fw_result = "(dns_msg option \<times> fw_err option) \<times> fw_state"

definition tryAll :: "fw_env \<Rightarrow> dns_msg \<Rightarrow> upstream list \<Rightarrow> bool \<Rightarrow> fw_state \<Rightarrow> fw_result option" where
  "tryAll env req ups requireSNI st =
     do {
       (resp, lastErr, allowedAny, st1) \<leftarrow> first_pass env req requireSNI ups None False st;
       case resp of
         Some m \<Rightarrow> Some ((Some m, None), st1)
       | None \<Rightarrow>
           if fw_breaker_enabled (st_fw st1) \<and> \<not> allowedAny then do {
             (resp2, lastErr2, st2) \<leftarrow> forced_pass env req requireSNI ups lastErr st1;
             case resp2 of
               Some m \<Rightarrow> Some ((Some m, None), st2)
             | None \<Rightarrow> Some ((None, lastErr2), st2) }
           else Some ((None, lastErr), st1) }"

definition fw_qname :: "dns_msg \<Rightarrow> string" where
  "fw_qname m = (case msg_question m of [] \<Rightarrow> ''?'' | q # _ \<Rightarrow> q_name q)"

definition Forward :: "fw_env \<Rightarrow> dns_msg \<Rightarrow> fw_state \<Rightarrow> fw_result option" where
  "Forward env req st =
     do {
       ((resp, err), st1) \<leftarrow> tryAll env req (fw_primary (st_fw st)) True st;
       case err of
         None \<Rightarrow> Some ((resp, None), st1)
       | Some e \<Rightarrow>
           if \<not> fw_cleartext (st_fw st1) then Some ((None, Some (DoTFailed e)), st1)
           else do {
             let st2 = st1\<lparr>st_audit := st_audit st1 @ [(e, fw_qname req)]\<rparr>;
             ((resp2, ferr), st3) \<leftarrow> tryAll env req (fw_fallback (st_fw st2)) False st2;
             case ferr of
               None \<Rightarrow> Some ((resp2, None), st3)
             | Some fe \<Rightarrow> Some ((None, Some (AllFailed fe)), st3) } }"

definition ForwardTo :: "fw_env \<Rightarrow> string list \<Rightarrow> dns_msg \<Rightarrow> fw_state \<Rightarrow> fw_result option" where
  "ForwardTo env targets req st =
     do {
       ((resp, err), st1) \<leftarrow>
         tryAll env req (map (\<lambda>a. \<lparr>up_addr = a, up_net = ''udp'', up_server_name = []\<rparr>) targets) False st;
       case err of
         None \<Rightarrow> Some ((resp, None), st1)
       | Some e \<Rightarrow> Some ((None, Some (StubsFailed e)), st1) }"

text \<open>Stub targets are checked when the configuration is read.\<close>

definition Atoi :: "string \<Rightarrow> int option" where
  "Atoi s =
     (let (neg, ds) = (case s of CHR ''-'' # r \<Rightarrow> (True, r) | CHR ''+'' # r \<Rightarrow> (False, r) | _ \<Rightarrow> (False, s)) in
      case AtoiU ds of
        None \<Rightarrow> None
      | Some n \<Rightarrow>
          if neg then (if n \<le> 2 ^ 63 then Some (- int n) else None)
          else (if n < 2 ^ 63 then Some (int n) else None))"

fun ParseAddrPorts :: "string list \<Rightarrow> string option" where
  "ParseAddrPorts [] = None"
| "ParseAddrPorts (t # ts) =
     (case SplitHostPort t of
        None \<Rightarrow> Some (''bad target '' @ t)
      | Some (_, p) \<Rightarrow> (if Atoi p = None then Some (''bad port in '' @ t) else ParseAddrPorts ts))"

section \<open>Invariant and runs\<close>

definition net_ok :: "upstream \<Rightarrow> bool" where
  "net_ok u \<longleftrightarrow> CHR ''|'' \<notin> set (up_net u)"

definition fw_inv :: "forwarder \<Rightarrow> bool" where
  "fw_inv f \<longleftrightarrow>
     max 1 (pol_buckets (fw_policy f)) \<le> pol_window (fw_policy f) \<and>
     (\<forall>k b. gm_get (fw_breakers f) k = Some b \<longrightarrow> br_inv b) \<and>
     (\<forall>k c. gm_get (fw_clients f) k = Some c \<longrightarrow>
        (\<exists>u. net_ok u \<and> clkey u = k \<and> c = new_client (fw_per_try f) u)) \<and>
     (\<forall>u\<in>set (fw_primary f) \<union> set (fw_fallback f). net_ok u)"

text \<open>What no exchange changes: the configuration and the manual switches.\<close>

definition same_cfg :: "forwarder \<Rightarrow> forwarder \<Rightarrow> bool" where
  "same_cfg f f' \<longleftrightarrow> fw_primary f' = fw_primary f \<and> fw_fallback f' = fw_fallback f \<and>
     fw_cleartext f' = fw_cleartext f \<and> fw_per_try f' = fw_per_try f \<and>
     fw_breaker_enabled f' = fw_breaker_enabled f \<and> fw_policy f' = fw_policy f \<and>
     fw_disabled f' = fw_disabled f"

lemma same_cfg_refl [simp]: "same_cfg f f"
  by (simp add: same_cfg_def)

lemma same_cfg_trans: "same_cfg f g \<Longrightarrow> same_cfg g h \<Longrightarrow> same_cfg f h"
  by (simp add: same_cfg_def)

lemma same_cfg_isDisabled: "same_cfg f g \<Longrightarrow> isDisabled g = isDisabled f"
  by (rule ext) (simp add: same_cfg_def isDisabled_def)

text \<open>What the environment gave for the exchanges \<open>l\<close> when the first of them is number \<open>n\<close>.\<close>

fun results :: "fw_env \<Rightarrow> dns_msg \<Rightarrow> nat \<Rightarrow> exchange list \<Rightarrow> (string + dns_msg) list" where
  "results env req n [] = []"
| "results env req n (ex # l) = env_exchange env n ex req # results env req (Suc n) l"

lemma results_append [simp]:
  "results env req n (l @ l') = results env req n l @ results env req (n + length l) l'"
  by (induction l arbitrary: n) simp_all

definition contact :: "duration \<Rightarrow> upstream \<Rightarrow> exchange" where
  "contact per_try u = \<lparr>ex_client = new_client per_try u, ex_addr = up_addr u\<rparr>"

definition with_tcp :: "upstream set \<Rightarrow> upstream set" where
  "with_tcp U = U \<union> tcp_of ` {u \<in> U. up_net u = ''udp''}"

text \<open>
  A run from one state to another that makes the exchanges \<open>l\<close>, all of them with
  members of \<open>U\<close> (or, for a UDP member, its TCP form), and that ends with the answer
  of one of them, or without an answer after every one of them failed.
\<close>

definition fw_run :: "fw_env \<Rightarrow> dns_msg \<Rightarrow> upstream set \<Rightarrow> fw_state \<Rightarrow> exchange list \<Rightarrow> dns_msg option \<Rightarrow> fw_state \<Rightarrow> bool" where
  "fw_run env req U st l r st' \<longleftrightarrow>
     same_cfg (st_fw st) (st_fw st') \<and> fw_inv (st_fw st') \<and> st_audit st' = st_audit st \<and>
     st_log st' = st_log st @ l \<and> set l \<subseteq> contact (fw_per_try (st_fw st)) ` with_tcp U \<and>
     (case r of
        None \<Rightarrow> \<forall>x\<in>set (results env req (length (st_log st)) l). isl x
      | Some m \<Rightarrow> Inr m \<in> set (results env req (length (st_log st)) l))"

lemma fw_run_refl: "fw_inv (st_fw st) \<Longrightarrow> fw_run env req U st [] None st"
  by (simp add: fw_run_def)

lemma with_tcp_mono: "U \<subseteq> V \<Longrightarrow> with_tcp U \<subseteq> with_tcp V"
  by (auto simp: with_tcp_def)

lemma fw_run_trans:
  assumes "fw_run env req U st l None st1" "fw_run env req V st1 l' r st2" "U \<subseteq> W" "V \<subseteq> W"
  shows "fw_run env req W st (l @ l') r st2"
proof -
  let ?p = "fw_per_try (st_fw st)"
  have p: "fw_per_try (st_fw st1) = ?p"
    using assms(1) by (simp add: fw_run_def same_cfg_def)
  have "contact ?p ` with_tcp U \<subseteq> contact ?p ` with_tcp W" "contact ?p ` with_tcp V \<subseteq> contact ?p ` with_tcp W"
    using assms(3,4) with_tcp_mono by (simp_all add: image_mono)
  then have "set (l @ l') \<subseteq> contact ?p ` with_tcp W"
    using assms(1,2) unfolding fw_run_def p set_append by blast
  moreover have "same_cfg (st_fw st) (st_fw st2)"
    using assms(1,2) same_cfg_trans unfolding fw_run_def by blast
  ultimately show ?thesis
    using assms(1,2) unfolding fw_run_def by (cases r) auto
qed

lemma fw_run_mono: "fw_run env req U st l r st' \<Longrightarrow> U \<subseteq> V \<Longrightarrow> fw_run env req V st l r st'"
  using with_tcp_mono [of U V] unfolding fw_run_def by (meson image_mono subset_trans)

section \<open>One upstream\<close>

lemma clkey_eq:
  assumes "net_ok u" "net_ok v" "clkey u = clkey v"
  shows "up_net u = up_net v \<and> up_server_name u = up_server_name v"
proof -
  have *: "takeWhile (\<lambda>c. c \<noteq> CHR ''|'') (clkey w) = up_net w" if "net_ok w" for w
  proof -
    have "\<forall>c\<in>set (up_net w). c \<noteq> CHR ''|''"
      using that by (auto simp: net_ok_def)
    then show ?thesis
      by (simp add: clkey_def takeWhile_append2)
  qed
  show ?thesis
    using * [OF assms(1)] * [OF assms(2)] assms(3) by (auto simp: clkey_def)
qed

lemma fw_inv_client:
  assumes "fw_inv f" "gm_get (fw_clients f) (clkey u) = Some c" "net_ok u"
  shows "c = new_client (fw_per_try f) u"
proof -
  obtain v where "net_ok v" "clkey v = clkey u" "c = new_client (fw_per_try f) v"
    using assms(1,2) unfolding fw_inv_def by blast
  then show ?thesis
    using clkey_eq [of v u] assms(3) by (simp add: new_client_def)
qed

lemma clientFor_spec:
  assumes "fw_inv f" "net_ok u"
  shows "\<exists>f'. clientFor u f = (new_client (fw_per_try f) u, f') \<and> fw_inv f' \<and> same_cfg f f'"
proof (cases "gm_get (fw_clients f) (clkey u)")
  case None
  let ?f = "f\<lparr>fw_clients := gm_set (fw_clients f) (clkey u) (new_client (fw_per_try f) u)\<rparr>"
  have "fw_inv ?f"
    using assms by (auto simp: fw_inv_def update_conv' split: if_splits)
  then show ?thesis
    using None by (auto simp: clientFor_def same_cfg_def Let_def)
next
  case (Some c)
  then show ?thesis
    using assms fw_inv_client [OF assms(1) Some assms(2)] by (simp add: clientFor_def)
qed

lemma fw_exchange_spec:
  assumes "fw_inv (st_fw st)" "net_ok u"
  shows "\<exists>r st'. fw_exchange env u req st = (r, st') \<and> same_cfg (st_fw st) (st_fw st') \<and>
    fw_inv (st_fw st') \<and> st_audit st' = st_audit st \<and>
    st_log st' = st_log st @ [contact (fw_per_try (st_fw st)) u] \<and>
    (case r of
       Inl _ \<Rightarrow> isl (env_exchange env (length (st_log st)) (contact (fw_per_try (st_fw st)) u) req)
     | Inr m \<Rightarrow> env_exchange env (length (st_log st)) (contact (fw_per_try (st_fw st)) u) req = Inr m)"
proof -
  obtain f' where "clientFor u (st_fw st) = (new_client (fw_per_try (st_fw st)) u, f')"
    "fw_inv f'" "same_cfg (st_fw st) f'"
    using clientFor_spec [OF assms] by blast
  then show ?thesis
    by (auto simp: fw_exchange_def contact_def Let_def split: sum.splits)
qed

lemma net_ok_tcp [simp]: "net_ok (tcp_of u)"
  by (simp add: net_ok_def tcp_of_def)

text \<open>The answer an attempt gives, as an option.\<close>

abbreviation ans :: "fw_err + dns_msg \<Rightarrow> dns_msg option" where
  "ans r \<equiv> (case r of Inl _ \<Rightarrow> None | Inr m \<Rightarrow> Some m)"

lemma attempt_run:
  assumes "fw_inv (st_fw st)" "net_ok u"
  shows "\<exists>r st' l. attempt env u req st = (r, st') \<and> l \<noteq> [] \<and> fw_run env req {u} st l (ans r) st'"
proof -
  let ?p = "fw_per_try (st_fw st)"
  obtain r1 st1 where 1: "fw_exchange env u req st = (r1, st1)" "same_cfg (st_fw st) (st_fw st1)"
    "fw_inv (st_fw st1)" "st_audit st1 = st_audit st" "st_log st1 = st_log st @ [contact ?p u]"
    "case r1 of Inl _ \<Rightarrow> isl (env_exchange env (length (st_log st)) (contact ?p u) req)
     | Inr m \<Rightarrow> env_exchange env (length (st_log st)) (contact ?p u) req = Inr m"
    using fw_exchange_spec [OF assms] by blast
  have p: "fw_per_try (st_fw st1) = ?p"
    using 1(2) by (simp add: same_cfg_def)
  obtain r2 st2 where 2: "fw_exchange env (tcp_of u) req st1 = (r2, st2)" "same_cfg (st_fw st1) (st_fw st2)"
    "fw_inv (st_fw st2)" "st_audit st2 = st_audit st1" "st_log st2 = st_log st1 @ [contact ?p (tcp_of u)]"
    "case r2 of Inl _ \<Rightarrow> isl (env_exchange env (length (st_log st1)) (contact ?p (tcp_of u)) req)
     | Inr m \<Rightarrow> env_exchange env (length (st_log st1)) (contact ?p (tcp_of u)) req = Inr m"
    using fw_exchange_spec [OF 1(3) net_ok_tcp [of u], of env req] unfolding p by blast
  have cfg: "same_cfg (st_fw st) (st_fw st2)"
    using 1(2) 2(2) by (rule same_cfg_trans)
  have one: "fw_run env req {u} st [contact ?p u] (ans r1) st1"
    using 1 by (auto simp: fw_run_def with_tcp_def split: sum.splits)
  have two: "fw_run env req {u} st [contact ?p u, contact ?p (tcp_of u)] (Some m) st2"
    if "up_net u = ''udp''" "r1 = Inr m1" "m = (case r2 of Inl _ \<Rightarrow> m1 | Inr m2 \<Rightarrow> m2)" for m m1
    using 1(4-6) 2 cfg that by (auto simp: fw_run_def with_tcp_def split: sum.splits)
  show ?thesis
  proof (cases "\<exists>m. r1 = Inr m \<and> msg_tc m \<and> up_net u = ''udp''")
    case True
    then obtain m where m: "r1 = Inr m" "msg_tc m" "up_net u = ''udp''"
      by blast
    then have "attempt env u req st = (Inr (case r2 of Inl _ \<Rightarrow> m | Inr m2 \<Rightarrow> m2), st2)"
      using 1(1) 2(1) by (simp add: attempt_def split: sum.splits)
    moreover have "fw_run env req {u} st [contact ?p u, contact ?p (tcp_of u)]
        (ans (Inr (case r2 of Inl _ \<Rightarrow> m | Inr m2 \<Rightarrow> m2))) st2"
      using two [OF m(3,1) refl] by simp
    ultimately show ?thesis
      by blast
  next
    case False
    then have "attempt env u req st = (r1, st1)"
      using 1(1) by (auto simp: attempt_def split: sum.splits)
    then show ?thesis
      using one by blast
  qed
qed

lemma breakerFor_spec:
  assumes "fw_inv f"
  shows "fw_inv (snd (breakerFor u f)) \<and> same_cfg f (snd (breakerFor u f)) \<and>
    (\<forall>b. fst (breakerFor u f) = Some b \<longrightarrow> br_inv b)"
  using assms newBreaker_inv [of "fw_policy f"]
  by (auto simp: breakerFor_def fw_inv_def same_cfg_def update_conv' Let_def split: option.splits)

lemma set_breaker_spec:
  "fw_inv f \<Longrightarrow> br_inv b \<Longrightarrow> fw_inv (set_breaker u b f) \<and> same_cfg f (set_breaker u b f)"
  by (auto simp: set_breaker_def fw_inv_def same_cfg_def update_conv' split: if_splits)

lemma fw_allow_run:
  assumes "fw_inv (st_fw st)"
  shows "\<exists>ok st'. fw_allow env u st = (ok, st') \<and> fw_run env req U st [] None st' \<and>
    (\<not> fw_breaker_enabled (st_fw st) \<longrightarrow> ok)"
proof (cases "fst (breakerFor u (st_fw st))")
  case None
  then show ?thesis
    using assms breakerFor_spec [OF assms, of u]
    by (auto simp: fw_allow_def fw_run_def split: prod.splits)
next
  case (Some b)
  let ?f = "snd (breakerFor u (st_fw st))"
  have b: "br_inv b" "fw_inv ?f" "same_cfg (st_fw st) ?f" "fw_breaker_enabled (st_fw st)"
    using Some breakerFor_spec [OF assms, of u] by (auto simp: breakerFor_def split: if_splits)
  have "fw_inv (set_breaker u b' ?f) \<and> same_cfg (st_fw st) (set_breaker u b' ?f)"
    if "br_allow now b = (ok, b')" for now ok b'
    using b set_breaker_spec [of ?f b' u] br_allow_inv [OF b(1), of now] same_cfg_trans that by auto
  then show ?thesis
    using Some b(4) by (auto simp: fw_allow_def fw_run_def fw_tick_def Let_def split: prod.splits)
qed

lemma fw_record_run:
  assumes "fw_inv (st_fw st)"
  shows "\<exists>st'. fw_record env u ok st = Some st' \<and> fw_run env req U st [] None st'"
proof (cases "fst (breakerFor u (st_fw st))")
  case None
  then show ?thesis
    using assms breakerFor_spec [OF assms, of u]
    by (auto simp: fw_record_def fw_run_def split: prod.splits)
next
  case (Some b)
  let ?f = "snd (breakerFor u (st_fw st))" and ?t = "env_now env (st_ticks st)"
  have b: "br_inv b" "fw_inv ?f" "same_cfg (st_fw st) ?f"
    using Some breakerFor_spec [OF assms, of u] by auto
  obtain b' where "br_record ?t ok b = Some b'" "br_inv b'"
    using br_record_ok [OF b(1), of ?t] br_record_fail [OF b(1), of ?t] by (cases ok) auto
  moreover from this have "fw_inv (set_breaker u b' ?f) \<and> same_cfg (st_fw st) (set_breaker u b' ?f)"
    using b set_breaker_spec same_cfg_trans by blast
  ultimately show ?thesis
    using Some by (auto simp: fw_record_def fw_run_def fw_tick_def Let_def split: prod.splits)
qed

lemma fw_run_tick: "fw_inv (st_fw st) \<Longrightarrow> fw_run env req U st [] None (snd (fw_tick env st))"
  by (simp add: fw_run_def fw_tick_def)

lemma fw_run_end:
  assumes "fw_run env req U st l r st1" "fw_run env req U st1 [] None st2"
  shows "fw_run env req U st l r st2"
  using assms same_cfg_trans unfolding fw_run_def by (metis append_Nil2)

lemma fw_run_note:
  assumes "fw_inv (st_fw st)"
  shows "fw_run env req U st [] None (st\<lparr>st_fw := noteAttempt u ok d (st_fw st)\<rparr>)"
  using assms by (simp add: fw_run_def noteAttempt_def same_cfg_def fw_inv_def Let_def)

lemma fw_run_inv: "fw_run env req U st l r st' \<Longrightarrow> fw_inv (st_fw st')"
  by (simp add: fw_run_def)

lemma tracked_attempt_run:
  assumes "fw_inv (st_fw st)" "net_ok u"
  shows "\<exists>r st' l. tracked_attempt env u req st = Some (r, st') \<and> l \<noteq> [] \<and> fw_run env req {u} st l (ans r) st'"
proof -
  obtain t0 st1 where 1: "fw_tick env st = (t0, st1)" "fw_run env req {u} st [] None st1"
    using fw_run_tick [OF assms(1), of env req "{u}"] by (metis prod.collapse)
  obtain r st2 l where 2: "attempt env u req st1 = (r, st2)" "l \<noteq> []" "fw_run env req {u} st1 l (ans r) st2"
    using attempt_run [OF fw_run_inv [OF 1(2)] assms(2)] by blast
  obtain t1 st3 where 3: "fw_tick env st2 = (t1, st3)" "fw_run env req {u} st2 [] None st3"
    using fw_run_tick [OF fw_run_inv [OF 2(3)], of env req "{u}"] by (metis prod.collapse)
  let ?ok = "case r of Inl _ \<Rightarrow> False | Inr _ \<Rightarrow> True"
  let ?st4 = "st3\<lparr>st_fw := noteAttempt u ?ok (t1 - t0) (st_fw st3)\<rparr>"
  have 4: "fw_run env req {u} st3 [] None ?st4"
    using fw_run_note [OF fw_run_inv [OF 3(2)]] .
  obtain st5 where 5: "fw_record env u ?ok ?st4 = Some st5" "fw_run env req {u} ?st4 [] None st5"
    using fw_record_run [OF fw_run_inv [OF 4]] by blast
  have "fw_run env req {u} st ([] @ l) (ans r) st2"
    using fw_run_trans [OF 1(2) 2(3)] by blast
  then have "fw_run env req {u} st l (ans r) st5"
    using fw_run_end 3(2) 4 5(2) by (metis append_Nil)
  moreover have "tracked_attempt env u req st = Some (r, st5)"
    using 1(1) 2(1) 3(1) 5(1) by (simp add: tracked_attempt_def)
  ultimately show ?thesis
    using 2(2) by blast
qed

section \<open>The two passes\<close>

definition eligible :: "forwarder \<Rightarrow> bool \<Rightarrow> upstream list \<Rightarrow> upstream set" where
  "eligible f sni us = {u \<in> set us. \<not> lacks_sni sni u \<and> \<not> isDisabled f (up_addr u)}"

lemma eligible_cong: "same_cfg f g \<Longrightarrow> eligible g sni us = eligible f sni us"
  by (simp add: eligible_def same_cfg_isDisabled)

lemma eligible_Cons: "eligible f sni us \<subseteq> eligible f sni (u # us)"
  by (auto simp: eligible_def)

lemma fw_run_cfg: "fw_run env req U st l r st' \<Longrightarrow> same_cfg (st_fw st) (st_fw st')"
  by (simp add: fw_run_def)

definition forced_spec where
  "forced_spec env req sni us lastErr st r e st' l \<longleftrightarrow>
     forced_pass env req sni us lastErr st = Some (r, e, st') \<and>
     fw_run env req (eligible (st_fw st) sni us) st l r st' \<and>
     (eligible (st_fw st) sni us \<noteq> {} \<longrightarrow> l \<noteq> []) \<and> (lastErr \<noteq> None \<longrightarrow> e \<noteq> None)"

lemma forced_pass_run:
  assumes "fw_inv (st_fw st)" "\<forall>u\<in>set us. net_ok u"
  shows "\<exists>r e st' l. forced_spec env req sni us lastErr st r e st' l"
  using assms
proof (induction us arbitrary: lastErr st)
  case Nil
  then show ?case
    by (auto simp: forced_spec_def eligible_def intro: fw_run_refl)
next
  case (Cons u us)
  show ?case
  proof (cases "lacks_sni sni u \<or> isDisabled (st_fw st) (up_addr u)")
    case True
    then have "eligible (st_fw st) sni (u # us) = eligible (st_fw st) sni us"
      by (auto simp: eligible_def)
    then show ?thesis
      using Cons.IH [of st lastErr] Cons.prems True by (simp add: forced_spec_def)
  next
    case False
    then have u: "u \<in> eligible (st_fw st) sni (u # us)"
      by (simp add: eligible_def)
    obtain r st1 l where 1: "tracked_attempt env u req st = Some (r, st1)" "l \<noteq> []"
      "fw_run env req {u} st l (ans r) st1"
      using tracked_attempt_run [of st u env req] Cons.prems by auto
    show ?thesis
    proof (cases r)
      case (Inr m)
      then show ?thesis
        using 1 False u fw_run_mono [OF 1(3), of "eligible (st_fw st) sni (u # us)"]
        by (auto simp: forced_spec_def)
    next
      case (Inl e)
      obtain r' e' st' l' where 2: "forced_spec env req sni us (Some e) st1 r' e' st' l'"
        using Cons.IH [of st1 "Some e"] fw_run_inv [OF 1(3)] Cons.prems(2) by auto
      have "eligible (st_fw st1) sni us \<subseteq> eligible (st_fw st) sni (u # us)"
        using eligible_cong [OF fw_run_cfg [OF 1(3)]] eligible_Cons by metis
      then have "fw_run env req (eligible (st_fw st) sni (u # us)) st (l @ l') r' st'"
        using fw_run_trans [of env req "{u}" st l st1 "eligible (st_fw st1) sni us" l' r' st'] 1(3) 2 u Inl
        by (simp add: forced_spec_def)
      then have "forced_spec env req sni (u # us) lastErr st r' e' st' (l @ l')"
        using 1 2 Inl False by (simp add: forced_spec_def)
      then show ?thesis
        by blast
    qed
  qed
qed

definition first_spec where
  "first_spec env req sni us lastErr allowedAny st r e a st' l \<longleftrightarrow>
     first_pass env req sni us lastErr allowedAny st = Some (r, e, a, st') \<and>
     fw_run env req (eligible (st_fw st) sni us) st l r st' \<and>
     (r \<noteq> None \<longrightarrow> l \<noteq> []) \<and> (a \<longleftrightarrow> allowedAny \<or> l \<noteq> []) \<and>
     (\<not> fw_breaker_enabled (st_fw st) \<longrightarrow> eligible (st_fw st) sni us \<noteq> {} \<longrightarrow> l \<noteq> []) \<and>
     (r = None \<longrightarrow> lastErr \<noteq> None \<or> us \<noteq> [] \<longrightarrow> e \<noteq> None)"

lemma first_pass_run:
  assumes "fw_inv (st_fw st)" "\<forall>u\<in>set us. net_ok u"
  shows "\<exists>r e a st' l. first_spec env req sni us lastErr allowedAny st r e a st' l"
  using assms
proof (induction us arbitrary: lastErr allowedAny st)
  case Nil
  then show ?case
    by (auto simp: first_spec_def eligible_def intro: fw_run_refl)
next
  case (Cons u us)
  show ?case
  proof (cases "lacks_sni sni u \<or> isDisabled (st_fw st) (up_addr u)")
    case True
    then have "eligible (st_fw st) sni (u # us) = eligible (st_fw st) sni us"
      by (auto simp: eligible_def)
    then show ?thesis
      using Cons.IH [of st "Some (NoServerName (up_addr u))" allowedAny]
        Cons.IH [of st "Some (ManuallyDisabled (up_addr u))" allowedAny] Cons.prems True
      by (cases "lacks_sni sni u") (simp_all add: first_spec_def)
  next
    case False
    let ?E = "eligible (st_fw st) sni (u # us)"
    have u: "u \<in> ?E"
      using False by (simp add: eligible_def)
    obtain ok st0 where 0: "fw_allow env u st = (ok, st0)" "fw_run env req ?E st [] None st0"
      "\<not> fw_breaker_enabled (st_fw st) \<longrightarrow> ok"
      using fw_allow_run Cons.prems(1) by blast
    have sub: "eligible (st_fw st1) sni us \<subseteq> ?E" if "same_cfg (st_fw st) (st_fw st1)" for st1
      using eligible_cong [OF that] eligible_Cons by metis
    show ?thesis
    proof (cases ok)
      case ok: False
      obtain r e a st' l where 1: "first_spec env req sni us (Some (BreakerOpen (up_addr u))) allowedAny st0 r e a st' l"
        using Cons.IH [OF fw_run_inv [OF 0(2)]] Cons.prems(2) by fastforce
      have "fw_run env req ?E st ([] @ l) r st'"
        using 1 fw_run_trans [OF 0(2), of "eligible (st_fw st0) sni us" l r st' ?E] sub [OF fw_run_cfg [OF 0(2)]]
        by (simp add: first_spec_def)
      then have "first_spec env req sni (u # us) lastErr allowedAny st r e a st' l"
        using 0 1 ok False by (simp add: first_spec_def)
      then show ?thesis
        by blast
    next
      case ok: True
      obtain r st1 l where 1: "tracked_attempt env u req st0 = Some (r, st1)" "l \<noteq> []"
        "fw_run env req {u} st0 l (ans r) st1"
        using tracked_attempt_run [OF fw_run_inv [OF 0(2)], of u env req] Cons.prems(2) by auto
      have 2: "fw_run env req ?E st l (ans r) st1"
        using fw_run_trans [OF 0(2) 1(3), of ?E] u by simp
      show ?thesis
      proof (cases r)
        case (Inr m)
        then have "first_spec env req sni (u # us) lastErr allowedAny st (Some m) lastErr True st1 l"
          using 0 1 2 ok False by (simp add: first_spec_def)
        then show ?thesis
          by blast
      next
        case (Inl e0)
        obtain r' e a st' l' where 3: "first_spec env req sni us (Some e0) True st1 r' e a st' l'"
          using Cons.IH [OF fw_run_inv [OF 2]] Cons.prems(2) by fastforce
        have "fw_run env req ?E st (l @ l') r' st'"
          using 2 3 fw_run_trans [of env req ?E st l st1 "eligible (st_fw st1) sni us" l' r' st' ?E]
            sub [OF fw_run_cfg [OF 2]] Inl by (simp add: first_spec_def)
        then have "first_spec env req sni (u # us) lastErr allowedAny st r' e a st' (l @ l')"
          using 0 1 3 Inl ok False by (simp add: first_spec_def)
        then show ?thesis
          by blast
      qed
    qed
  qed
qed

lemma tryAll_run:
  assumes "fw_inv (st_fw st)" "\<forall>u\<in>set us. net_ok u"
  shows "\<exists>r e st' l. tryAll env req us sni st = Some ((r, e), st') \<and>
    fw_run env req (eligible (st_fw st) sni us) st l r st' \<and>
    (eligible (st_fw st) sni us \<noteq> {} \<longrightarrow> l \<noteq> []) \<and> (us \<noteq> [] \<longrightarrow> (e = None \<longleftrightarrow> r \<noteq> None)) \<and>
    (r \<noteq> None \<longrightarrow> e = None)"
proof -
  let ?E = "eligible (st_fw st) sni us"
  obtain r e a st1 l where 1: "first_spec env req sni us None False st r e a st1 l"
    using first_pass_run [OF assms] by blast
  then have pass: "first_pass env req sni us None False st = Some (r, e, a, st1)"
    and run: "fw_run env req ?E st l r st1" and l: "r \<noteq> None \<longrightarrow> l \<noteq> []" "a \<longleftrightarrow> l \<noteq> []"
    "\<not> fw_breaker_enabled (st_fw st) \<longrightarrow> ?E \<noteq> {} \<longrightarrow> l \<noteq> []" and e: "r = None \<longrightarrow> us \<noteq> [] \<longrightarrow> e \<noteq> None"
    by (simp_all add: first_spec_def)
  have cfg: "same_cfg (st_fw st) (st_fw st1)"
    using run by (rule fw_run_cfg)
  show ?thesis
  proof (cases "r = None \<and> fw_breaker_enabled (st_fw st1) \<and> \<not> a")
    case True
    obtain r2 e2 st2 l2 where 2: "forced_spec env req sni us e st1 r2 e2 st2 l2"
      using forced_pass_run [OF fw_run_inv [OF run] assms(2)] by blast
    then have pass2: "forced_pass env req sni us e st1 = Some (r2, e2, st2)"
      and run2: "fw_run env req ?E st1 l2 r2 st2" and l2: "?E \<noteq> {} \<longrightarrow> l2 \<noteq> []" "e \<noteq> None \<longrightarrow> e2 \<noteq> None"
      by (simp_all add: forced_spec_def eligible_cong [OF cfg])
    have "fw_run env req ?E st (l @ l2) r2 st2"
      using run run2 True fw_run_trans [of env req ?E st l st1 ?E l2 r2 st2 ?E] by simp
    moreover have "tryAll env req us sni st = Some ((r2, if r2 = None then e2 else None), st2)"
      using pass pass2 True by (cases r2) (simp_all add: tryAll_def)
    moreover have "?E \<noteq> {} \<longrightarrow> l @ l2 \<noteq> []" "us \<noteq> [] \<longrightarrow> e2 \<noteq> None"
      using l2 e True by auto
    ultimately show ?thesis
      by (intro exI [of _ r2] exI [of _ "if r2 = None then e2 else None"] exI [of _ st2] exI [of _ "l @ l2"]) auto
  next
    case False
    then have "tryAll env req us sni st = Some ((r, if r = None then e else None), st1)"
      using pass by (cases r) (auto simp: tryAll_def)
    moreover have "?E \<noteq> {} \<longrightarrow> l \<noteq> []"
      using l False cfg by (cases "l = []") (simp_all add: same_cfg_def)
    ultimately show ?thesis
      using run e
      by (intro exI [of _ r] exI [of _ "if r = None then e else None"] exI [of _ st1] exI [of _ l]) auto
  qed
qed


section \<open>Forwarding\<close>

lemma tryAll_net_ok:
  assumes "fw_inv f"
  shows "\<forall>u\<in>set (fw_primary f). net_ok u" "\<forall>u\<in>set (fw_fallback f). net_ok u"
  using assms by (auto simp: fw_inv_def)

lemma fw_inv_audit [simp]: "st_fw (st\<lparr>st_audit := a\<rparr>) = st_fw st" "st_log (st\<lparr>st_audit := a\<rparr>) = st_log st"
  by simp_all

text \<open>
  A request is at most two rounds: the exchanges \<open>l1\<close> with eligible primaries and,
  only with cleartext enabled, after every one of them failed and with an audit
  line, the exchanges \<open>l2\<close> with eligible fallbacks.
\<close>

definition forward_rounds where
  "forward_rounds env req st r e st' l1 l2 \<longleftrightarrow>
     Forward env req st = Some ((r, e), st') \<and> same_cfg (st_fw st) (st_fw st') \<and> fw_inv (st_fw st') \<and>
     st_log st' = st_log st @ l1 @ l2 \<and>
     set l1 \<subseteq> contact (fw_per_try (st_fw st)) ` with_tcp (eligible (st_fw st) True (fw_primary (st_fw st))) \<and>
     set l2 \<subseteq> contact (fw_per_try (st_fw st)) ` with_tcp (eligible (st_fw st) False (fw_fallback (st_fw st))) \<and>
     (eligible (st_fw st) True (fw_primary (st_fw st)) \<noteq> {} \<longrightarrow> l1 \<noteq> []) \<and>
     (case r of
        None \<Rightarrow> \<forall>x\<in>set (results env req (length (st_log st)) (l1 @ l2)). isl x
      | Some m \<Rightarrow> Inr m \<in> set (results env req (length (st_log st)) (l1 @ l2)) \<and> e = None) \<and>
     (l2 \<noteq> [] \<longrightarrow> fw_cleartext (st_fw st) \<and> (\<forall>x\<in>set (results env req (length (st_log st)) l1). isl x) \<and>
        (\<exists>err. st_audit st' = st_audit st @ [(err, fw_qname req)])) \<and>
     (r = None \<longrightarrow> fw_primary (st_fw st) \<noteq> [] \<longrightarrow> fw_fallback (st_fw st) \<noteq> [] \<longrightarrow> e \<noteq> None)"

lemma Forward_rounds:
  assumes "fw_inv (st_fw st)"
  shows "\<exists>r e st' l1 l2. forward_rounds env req st r e st' l1 l2"
proof -
  let ?E = "eligible (st_fw st) True (fw_primary (st_fw st))"
  let ?F = "eligible (st_fw st) False (fw_fallback (st_fw st))"
  obtain r1 e1 st1 l1 where 1: "tryAll env req (fw_primary (st_fw st)) True st = Some ((r1, e1), st1)"
    and run1: "fw_run env req ?E st l1 r1 st1" and l1: "?E \<noteq> {} \<longrightarrow> l1 \<noteq> []"
    "fw_primary (st_fw st) \<noteq> [] \<longrightarrow> (e1 = None \<longleftrightarrow> r1 \<noteq> None)" "r1 \<noteq> None \<longrightarrow> e1 = None"
    using tryAll_run [OF assms tryAll_net_ok(1) [OF assms]] by blast
  have cfg: "same_cfg (st_fw st) (st_fw st1)"
    using run1 by (rule fw_run_cfg)
  show ?thesis
  proof (cases "e1 \<noteq> None \<and> fw_cleartext (st_fw st)")
    case False
    then have "Forward env req st = Some ((r1, map_option DoTFailed e1), st1)"
      using 1 cfg l1(3) by (cases e1; cases r1) (simp_all add: Forward_def same_cfg_def)
    then have "forward_rounds env req st r1 (map_option DoTFailed e1) st1 l1 []"
      using run1 l1 by (auto simp: forward_rounds_def fw_run_def split: option.splits)
    then show ?thesis
      by blast
  next
    case True
    then obtain err where err: "e1 = Some err" "r1 = None"
      using l1(3) by auto
    let ?st2 = "st1\<lparr>st_audit := st_audit st1 @ [(err, fw_qname req)]\<rparr>"
    have inv2: "fw_inv (st_fw ?st2)" and fb: "fw_fallback (st_fw st1) = fw_fallback (st_fw st)"
      and p: "fw_per_try (st_fw st1) = fw_per_try (st_fw st)"
      using fw_run_inv [OF run1] cfg by (simp_all add: same_cfg_def)
    have F: "eligible (st_fw ?st2) False (fw_fallback (st_fw st)) = ?F"
      using eligible_cong [OF cfg] by simp
    obtain r3 e3 st3 l2 where 3: "tryAll env req (fw_fallback (st_fw st)) False ?st2 = Some ((r3, e3), st3)"
      and run3: "fw_run env req ?F ?st2 l2 r3 st3"
      and l2: "fw_fallback (st_fw st) \<noteq> [] \<longrightarrow> (e3 = None \<longleftrightarrow> r3 \<noteq> None)" "r3 \<noteq> None \<longrightarrow> e3 = None"
      using tryAll_run [OF inv2 tryAll_net_ok(2) [OF assms], of env req False] unfolding F by blast
    have "Forward env req st = Some ((r3, map_option AllFailed e3), st3)"
      using 1 3 cfg True err l2(2) fb by (cases e3; cases r3) (simp_all add: Forward_def same_cfg_def)
    moreover have "same_cfg (st_fw st) (st_fw st3)"
      using cfg fw_run_cfg [OF run3] same_cfg_trans by simp
    ultimately have "forward_rounds env req st r3 (map_option AllFailed e3) st3 l1 l2"
      using run1 run3 l1 l2 err True
      by (auto simp: forward_rounds_def fw_run_def p split: option.splits)
    then show ?thesis
      by blast
  qed
qed

section \<open>A configured forwarder\<close>

lemma add_server_spec:
  "\<exists>u v. fw_primary (add_server f s) = fw_primary f @ [u] \<and> fw_fallback (add_server f s) = fw_fallback f @ [v] \<and>
     up_net u = ''tcp-tls'' \<and> up_net v = ''udp'' \<and> fw_cleartext (add_server f s) = fw_cleartext f \<and>
     fw_policy (add_server f s) = fw_policy f \<and> fw_breakers (add_server f s) = fw_breakers f \<and>
     fw_clients (add_server f s) = fw_clients f"
  by (simp add: add_server_def Let_def split: prod.splits)

text \<open>The shape of a configuration that came from server strings.\<close>

definition dot_config :: "bool \<Rightarrow> forwarder \<Rightarrow> bool" where
  "dot_config cleartext f \<longleftrightarrow> fw_cleartext f = cleartext \<and>
     (\<forall>u\<in>set (fw_primary f). up_net u = ''tcp-tls'') \<and> (\<forall>u\<in>set (fw_fallback f). up_net u = ''udp'') \<and>
     length (fw_primary f) = length (fw_fallback f)"

lemma add_servers_spec:
  "dot_config c f \<Longrightarrow> dot_config c (foldl add_server f ss) \<and>
     fw_policy (foldl add_server f ss) = fw_policy f \<and> fw_breakers (foldl add_server f ss) = fw_breakers f \<and>
     fw_clients (foldl add_server f ss) = fw_clients f"
proof (induction ss arbitrary: f)
  case (Cons s ss)
  obtain u v where uv: "fw_primary (add_server f s) = fw_primary f @ [u]" "fw_fallback (add_server f s) = fw_fallback f @ [v]"
     "up_net u = ''tcp-tls''" "up_net v = ''udp''" "fw_cleartext (add_server f s) = fw_cleartext f"
     "fw_policy (add_server f s) = fw_policy f" "fw_breakers (add_server f s) = fw_breakers f"
     "fw_clients (add_server f s) = fw_clients f"
    using add_server_spec [of f s] by blast
  have "dot_config c (add_server f s)"
    using uv Cons.prems by (auto simp: dot_config_def)
  then show ?case
    using Cons.IH uv(6-8) by simp
qed simp

lemma dot_config_net_ok: "dot_config c f \<Longrightarrow> \<forall>u\<in>set (fw_primary f) \<union> set (fw_fallback f). net_ok u"
  by (auto simp: dot_config_def net_ok_def)

lemma Build_spec:
  assumes "Build servers cleartext [WithBreaker b, WithPolicy p] = Inr f" "max 1 (pol_buckets p) \<le> pol_window p"
  shows "fw_inv f \<and> dot_config cleartext f \<and> fw_primary f \<noteq> []"
proof -
  let ?f0 = "newForwarder cleartext [WithBreaker b, WithPolicy p]"
  have 0: "dot_config cleartext ?f0" "fw_policy ?f0 = p" "fw_breakers ?f0 = []" "fw_clients ?f0 = []"
    by (simp_all add: newForwarder_def WithBreaker_def WithPolicy_def dot_config_def)
  have f: "f = foldl add_server ?f0 servers" "fw_primary f \<noteq> []"
    using assms(1) by (auto simp: Build_def Let_def split: if_splits)
  have "dot_config cleartext f" "fw_policy f = p" "fw_breakers f = []" "fw_clients f = []"
    unfolding f(1) using add_servers_spec [OF 0(1), of servers] 0 by simp_all
  then show ?thesis
    using dot_config_net_ok f(2) assms(2) by (simp add: fw_inv_def)
qed

definition fw_start :: "forwarder \<Rightarrow> fw_state" where
  "fw_start f = \<lparr>st_fw = f, st_log = [], st_ticks = 0, st_audit = []\<rparr>"

text \<open>What a running daemon does with its forwarder: requests, stub requests and manual switches.\<close>

inductive fw_reachable :: "forwarder \<Rightarrow> fw_state \<Rightarrow> bool" for f where
  begin_run: "fw_reachable f (fw_start f)"
| forward: "fw_reachable f st \<Longrightarrow> Forward env req st = Some (r, st') \<Longrightarrow> fw_reachable f st'"
| stub: "fw_reachable f st \<Longrightarrow> ForwardTo env targets req st = Some (r, st') \<Longrightarrow> fw_reachable f st'"
| switch: "fw_reachable f st \<Longrightarrow>
    fw_reachable f (st\<lparr>st_fw := snd (SetBackendEnabled addr enabled (st_fw st))\<rparr>)"
| reset: "fw_reachable f st \<Longrightarrow> fw_reachable f (st\<lparr>st_fw := ResetBackends (st_fw st)\<rparr>)"

lemma ForwardTo_spec:
  assumes "fw_inv (st_fw st)"
  shows "\<exists>r st'. ForwardTo env targets req st = Some (r, st') \<and> same_cfg (st_fw st) (st_fw st') \<and>
    fw_inv (st_fw st') \<and> st_audit st' = st_audit st"
proof -
  let ?us = "map (\<lambda>a. \<lparr>up_addr = a, up_net = ''udp'', up_server_name = []\<rparr>) targets"
  have "\<forall>u\<in>set ?us. net_ok u"
    by (simp add: net_ok_def)
  from tryAll_run [OF assms this, of env req False] show ?thesis
    by (force simp: ForwardTo_def fw_run_def split: option.splits)
qed

lemma switch_spec:
  "fw_inv (snd (SetBackendEnabled addr enabled f)) = fw_inv f"
  "dot_config c (snd (SetBackendEnabled addr enabled f)) = dot_config c f"
  "fw_primary (snd (SetBackendEnabled addr enabled f)) = fw_primary f"
  "fw_inv (ResetBackends f) = fw_inv f" "dot_config c (ResetBackends f) = dot_config c f"
  "fw_primary (ResetBackends f) = fw_primary f"
  by (simp_all add: SetBackendEnabled_def ResetBackends_def fw_inv_def dot_config_def)

lemma same_cfg_dot: "same_cfg f g \<Longrightarrow> dot_config c g = dot_config c f \<and> fw_primary g = fw_primary f"
  by (simp add: same_cfg_def dot_config_def)

lemma fw_reachable_spec:
  assumes "fw_reachable f st" "fw_inv f" "dot_config c f"
  shows "fw_inv (st_fw st) \<and> dot_config c (st_fw st) \<and> fw_primary (st_fw st) = fw_primary f"
  using assms
proof (induction rule: fw_reachable.induct)
  case (forward st env req r st')
  obtain r' e st1 l1 l2 where "forward_rounds env req st r' e st1 l1 l2"
    using Forward_rounds forward by blast
  then have "st1 = st'" "same_cfg (st_fw st) (st_fw st')" "fw_inv (st_fw st')"
    using forward by (auto simp: forward_rounds_def)
  then show ?case
    using forward same_cfg_dot by metis
next
  case (stub st env targets req r st')
  then have "same_cfg (st_fw st) (st_fw st')" "fw_inv (st_fw st')"
    using ForwardTo_spec [of st env targets req] by auto
  then show ?case
    using stub same_cfg_dot by metis
qed (simp_all add: fw_start_def switch_spec)

text \<open>
  C5. Forwarding never loses an answer and never hangs: for a forwarder built from
  server strings, in every state its requests, stub requests and manual switches can
  reach, a request returns; it gives a response exactly when it gives no error, the
  response is one that an exchange of this request brought, and it gives an error
  only when every exchange it made failed.  When some upstream has a TLS name and is
  not switched off, at least one exchange is made, whatever the circuit breakers
  say.
\<close>

theorem Forward_returns_answer:
  assumes "Build servers cleartext [WithBreaker b, WithPolicy p] = Inr f"
    and "max 1 (pol_buckets p) \<le> pol_window p" and "fw_reachable f st"
  shows "\<exists>r e st' l. Forward env req st = Some ((r, e), st') \<and> st_log st' = st_log st @ l \<and>
    (e = None \<longleftrightarrow> r \<noteq> None) \<and>
    (\<forall>m. r = Some m \<longrightarrow> Inr m \<in> set (results env req (length (st_log st)) l)) \<and>
    (r = None \<longrightarrow> (\<forall>x\<in>set (results env req (length (st_log st)) l). isl x)) \<and>
    ((\<exists>u\<in>set (fw_primary f). up_server_name u \<noteq> [] \<and> \<not> isDisabled (st_fw st) (up_addr u)) \<longrightarrow> l \<noteq> [])"
proof -
  have f: "fw_inv f" "dot_config cleartext f" "fw_primary f \<noteq> []"
    using Build_spec [OF assms(1,2)] by auto
  have st: "fw_inv (st_fw st)" "dot_config cleartext (st_fw st)" "fw_primary (st_fw st) = fw_primary f"
    using fw_reachable_spec [OF assms(3) f(1,2)] by auto
  obtain r e st' l1 l2 where rounds: "forward_rounds env req st r e st' l1 l2"
    using Forward_rounds [OF st(1)] by blast
  have "fw_fallback (st_fw st) \<noteq> []"
    using st f(3) by (auto simp: dot_config_def)
  moreover have "eligible (st_fw st) True (fw_primary (st_fw st)) \<noteq> {}"
    if "\<exists>u\<in>set (fw_primary f). up_server_name u \<noteq> [] \<and> \<not> isDisabled (st_fw st) (up_addr u)"
    using that st by (auto simp: eligible_def lacks_sni_def)
  ultimately show ?thesis
    using rounds st f(3) unfolding forward_rounds_def
    by (intro exI [of _ r] exI [of _ e] exI [of _ st'] exI [of _ "l1 @ l2"]) (cases r; auto)
qed

definition demo_dead :: fw_env where
  "demo_dead = \<lparr>env_exchange = (\<lambda>n ex req. Inl ''i/o timeout''), env_now = (\<lambda>n. int n)\<rparr>"

definition demo_servers :: "string list" where
  "demo_servers = [''9.9.9.9'', ''10.0.0.1@dns.lan'']"

definition demo_fw :: forwarder where
  "demo_fw = (newForwarder True [])\<lparr>
     fw_primary := [\<lparr>up_addr = ''9.9.9.9:853'', up_net = ''tcp-tls'', up_server_name = ''dns.quad9.net''\<rparr>,
                    \<lparr>up_addr = ''10.0.0.1:853'', up_net = ''tcp-tls'', up_server_name = ''dns.lan''\<rparr>],
     fw_fallback := [\<lparr>up_addr = ''9.9.9.9:53'', up_net = ''udp'', up_server_name = []\<rparr>,
                     \<lparr>up_addr = ''10.0.0.1:53'', up_net = ''udp'', up_server_name = []\<rparr>]\<rparr>"

lemma demo_Build: "Build demo_servers True [WithBreaker True, WithPolicy DefaultPolicy] = Inr demo_fw"
  by code_simp

lemma demo_policy: "max 1 (pol_buckets DefaultPolicy) \<le> pol_window DefaultPolicy"
  by (simp add: DefaultPolicy_def)

theorem Forward_returns_answer_witness:
  "\<exists>r e st' l. Forward demo_dead new_msg (fw_start demo_fw) = Some ((r, e), st') \<and>
     st_log st' = l \<and> l \<noteq> [] \<and> r = None \<and> e \<noteq> None"
proof -
  have dead: "x = Inl ''i/o timeout''" if "x \<in> set (results demo_dead new_msg n l)" for x n l
    using that by (induction l arbitrary: n) (auto simp: demo_dead_def)
  have some: "\<exists>u\<in>set (fw_primary demo_fw). up_server_name u \<noteq> [] \<and> \<not> isDisabled (st_fw (fw_start demo_fw)) (up_addr u)"
    by (simp add: demo_fw_def fw_start_def isDisabled_def newForwarder_def)
  obtain r e st' l where "Forward demo_dead new_msg (fw_start demo_fw) = Some ((r, e), st')"
    "st_log st' = st_log (fw_start demo_fw) @ l" "e = None \<longleftrightarrow> r \<noteq> None" "l \<noteq> []"
    "\<forall>m. r = Some m \<longrightarrow> Inr m \<in> set (results demo_dead new_msg (length (st_log (fw_start demo_fw))) l)"
    using Forward_returns_answer [OF demo_Build demo_policy fw_reachable.begin_run, of demo_dead new_msg] some
    by blast
  then show ?thesis
    using dead by (cases r) (auto simp: fw_start_def)
qed

text \<open>
  C24. No query leaves in the clear unless that is enabled and audited: the exchanges
  of a request are first TLS exchanges, each verifying a non-empty server name, and
  then, only if cleartext is enabled, only after every TLS exchange failed and with
  one audit line, cleartext ones.  No exchange goes to an address that is switched
  off.
\<close>

theorem Forward_encrypted_first:
  assumes "Build servers cleartext [WithBreaker b, WithPolicy p] = Inr f"
    and "max 1 (pol_buckets p) \<le> pol_window p" and "fw_reachable f st"
    and "Forward env req st = Some (res, st')"
  shows "\<exists>l1 l2. st_log st' = st_log st @ l1 @ l2 \<and>
    (\<forall>ex\<in>set l1. cl_net (ex_client ex) = ''tcp-tls'' \<and> (\<exists>sni. cl_tls (ex_client ex) = Some sni \<and> sni \<noteq> [])) \<and>
    (\<forall>ex\<in>set (l1 @ l2). \<not> isDisabled (st_fw st) (ex_addr ex)) \<and>
    (l2 \<noteq> [] \<longrightarrow> cleartext \<and> (\<forall>x\<in>set (results env req (length (st_log st)) l1). isl x) \<and>
       (\<exists>err. st_audit st' = st_audit st @ [(err, fw_qname req)]))"
proof -
  have f: "fw_inv f" "dot_config cleartext f"
    using Build_spec [OF assms(1,2)] by auto
  have st: "fw_inv (st_fw st)" "dot_config cleartext (st_fw st)"
    using fw_reachable_spec [OF assms(3) f] by auto
  obtain r e st1 l1 l2 where "forward_rounds env req st r e st1 l1 l2"
    using Forward_rounds [OF st(1)] by blast
  moreover from this have "st1 = st'"
    using assms(4) by (simp add: forward_rounds_def)
  ultimately have rounds: "forward_rounds env req st r e st' l1 l2"
    by simp
  let ?p = "fw_per_try (st_fw st)" and ?E = "eligible (st_fw st) True (fw_primary (st_fw st))"
    and ?F = "eligible (st_fw st) False (fw_fallback (st_fw st))"
  have sub: "set l1 \<subseteq> contact ?p ` with_tcp ?E" "set l2 \<subseteq> contact ?p ` with_tcp ?F"
    using rounds by (simp_all add: forward_rounds_def)
  have tls: "cl_net (ex_client ex) = ''tcp-tls'' \<and> (\<exists>sni. cl_tls (ex_client ex) = Some sni \<and> sni \<noteq> [])"
    if ex: "ex \<in> set l1" for ex
  proof -
    obtain u where u: "u \<in> with_tcp ?E" "ex = contact ?p u"
      using ex sub(1) by blast
    have "up_net v = ''tcp-tls'' \<and> up_server_name v \<noteq> []" if "v \<in> ?E" for v
      using that st(2) by (auto simp: eligible_def dot_config_def lacks_sni_def)
    then show ?thesis
      using u by (auto simp: with_tcp_def contact_def new_client_def)
  qed
  have "\<not> isDisabled (st_fw st) (ex_addr ex)" if ex: "ex \<in> set (l1 @ l2)" for ex
  proof -
    obtain u where "u \<in> with_tcp ?E \<union> with_tcp ?F" "ex = contact ?p u"
      using ex sub by auto
    then show ?thesis
      by (auto simp: with_tcp_def contact_def eligible_def tcp_of_def)
  qed
  then show ?thesis
    using rounds st(2) tls unfolding forward_rounds_def dot_config_def by blast
qed

theorem Forward_encrypted_first_witness:
  "\<exists>res st' l1 l2. Forward demo_dead new_msg (fw_start demo_fw) = Some (res, st') \<and> st_log st' = l1 @ l2 \<and>
     (\<forall>ex\<in>set l1. cl_net (ex_client ex) = ''tcp-tls'')"
proof -
  have "fw_inv (st_fw (fw_start demo_fw))"
    using Build_spec [OF demo_Build demo_policy] by (simp add: fw_start_def)
  then obtain r e st' l1 l2 where "forward_rounds demo_dead new_msg (fw_start demo_fw) r e st' l1 l2"
    using Forward_rounds by blast
  then have run: "Forward demo_dead new_msg (fw_start demo_fw) = Some ((r, e), st')"
    by (simp add: forward_rounds_def)
  from Forward_encrypted_first [OF demo_Build demo_policy fw_reachable.begin_run run] run show ?thesis
    by (fastforce simp: fw_start_def)
qed

definition demo_half :: fw_env where
  "demo_half = \<lparr>env_exchange = (\<lambda>n ex req. if ex_addr ex = ''10.0.0.1:853'' then Inr req else Inl ''i/o timeout''),
     env_now = (\<lambda>n. int n)\<rparr>"

definition demo_tripped :: "bool \<Rightarrow> fw_state" where
  "demo_tripped breakers =
     fw_start (set_breaker \<lparr>up_addr = ''10.0.0.1:853'', up_net = ''tcp-tls'', up_server_name = ''dns.lan''\<rparr>
       (br_trip 0 (newBreaker DefaultPolicy))
       ((newForwarder False [WithBreaker breakers])\<lparr>
         fw_primary := [\<lparr>up_addr = ''9.9.9.9:853'', up_net = ''tcp-tls'', up_server_name = ''dns.quad9.net''\<rparr>,
                        \<lparr>up_addr = ''10.0.0.1:853'', up_net = ''tcp-tls'', up_server_name = ''dns.lan''\<rparr>]\<rparr>))"

text \<open>
  A breaker can cost an answer: a configuration, a state and a network in which
  the same request gets an answer with the breakers off and an error with them on.
  The first upstream is allowed and fails, so the pass that ignores the breakers is
  not made, and the second, whose breaker is open, is not asked although it would
  answer.
\<close>

theorem breaker_can_cost_an_answer:
  "map_option fst (Forward demo_half new_msg (demo_tripped False)) = Some (Some new_msg, None) \<and>
   map_option fst (Forward demo_half new_msg (demo_tripped True)) =
     Some (None, Some (DoTFailed (BreakerOpen ''10.0.0.1:853'')))"
  by code_simp

end
