(* ===== verification/Netmatch.thy ===== *)
theory Netmatch
  imports Netip
begin

text \<open>
  Package \<^verbatim>\<open>internal/netmatch\<close>: prefix sets, the query access policy, the
  rebinding block list of the forward path, the eligibility test of the dynamic
  DNS writer, and the choice of listen addresses.  The interfaces of the host are
  an argument of the last one.
\<close>

section \<open>Prefix sets and the access policy\<close>

definition DefaultPrivateClients :: "string list" where
  "DefaultPrivateClients =
     [''10.0.0.0/8'', ''172.16.0.0/12'', ''192.168.0.0/16'', ''127.0.0.0/8'',
      ''169.254.0.0/16'', ''fc00::/7'', ''::1/128'', ''fe80::/10'']"

record net_set =
  set_prefixes :: "net_prefix list"

text \<open>The error names the text that is not a CIDR block.\<close>

fun parse_set_loop :: "net_prefix list \<Rightarrow> string list \<Rightarrow> string + net_set" where
  "parse_set_loop ps [] = Inr \<lparr>set_prefixes = ps\<rparr>"
| "parse_set_loop ps (c # cs) =
     (let t = TrimSpace c in
      if t = [] then parse_set_loop ps cs
      else (case ParsePrefix t of
          None \<Rightarrow> Inl t
        | Some p \<Rightarrow> parse_set_loop (ps @ [Masked p]) cs))"

definition ParseSet :: "string list \<Rightarrow> string + net_set" where
  "ParseSet cidrs = parse_set_loop [] cidrs"

definition SetContains :: "net_set option \<Rightarrow> addr \<Rightarrow> bool" where
  "SetContains s a =
     (case s of None \<Rightarrow> False
      | Some st \<Rightarrow> list_ex (\<lambda>p. PrefixContains p (Unmap a)) (set_prefixes st))"

definition SetEmpty :: "net_set option \<Rightarrow> bool" where
  "SetEmpty s = (case s of None \<Rightarrow> True | Some st \<Rightarrow> set_prefixes st = [])"

record access =
  Allow :: "net_set option"
  Refuse :: "net_set option"

definition Allowed :: "access \<Rightarrow> addr \<Rightarrow> bool" where
  "Allowed acc a =
     (if Refuse acc \<noteq> None \<and> SetContains (Refuse acc) a then False
      else Allow acc \<noteq> None \<and> SetContains (Allow acc) a)"

definition IsLocalScope :: "addr \<Rightarrow> bool" where
  "IsLocalScope a =
     (let u = Unmap a in IsLoopback u \<or> IsPrivate u \<or> IsLinkLocalUnicast u)"

section \<open>Rebinding block list and public addresses\<close>

text \<open>A literal that does not parse panics when the package is loaded: None.\<close>

fun mustPrefixes :: "string list \<Rightarrow> net_prefix list option" where
  "mustPrefixes [] = Some []"
| "mustPrefixes (c # cs) =
     (case ParsePrefix c of None \<Rightarrow> None
      | Some p \<Rightarrow> map_option ((#) p) (mustPrefixes cs))"

definition forwardBlock :: "net_prefix list" where
  "forwardBlock = the (mustPrefixes
     [''10.0.0.0/8'', ''172.16.0.0/12'', ''192.168.0.0/16'', ''169.254.0.0/16'',
      ''192.0.0.0/24'', ''198.18.0.0/15'',
      ''fc00::/7'', ''fe80::/10'', ''::1/128'', ''::/128''])"

definition IsForwardBlocked :: "addr \<Rightarrow> bool" where
  "IsForwardBlocked a =
     (let u = Unmap a in
      if \<not> IsValid u then False
      else list_ex (\<lambda>p. PrefixContains p u) forwardBlock)"

definition nonRoutableSpecial :: "net_prefix list" where
  "nonRoutableSpecial = the (mustPrefixes
     [''100.64.0.0/10'', ''192.0.2.0/24'', ''198.51.100.0/24'', ''203.0.113.0/24'',
      ''2001:db8::/32''])"

definition IsDDNSEligible :: "addr \<Rightarrow> bool" where
  "IsDDNSEligible a =
     (let u = Unmap a in
      if \<not> IsValid u \<or> \<not> IsGlobalUnicast u then False
      else if IsPrivate u \<or> IsLinkLocalUnicast u \<or> IsLoopback u then False
      else \<not> list_ex (\<lambda>p. PrefixContains p u) nonRoutableSpecial)"

section \<open>Listen addresses\<close>

text \<open>An interface as the operating system reports it; its address list may be unreadable.\<close>

datatype iface_addr = IPNet "nat list" | OtherAddr

record iface =
  if_name :: string
  if_up :: bool
  if_addrs :: "iface_addr list option"

datatype listen_error = EnumerateInterfaces | UnknownListenMode string

definition listen_addr :: "string \<Rightarrow> iface_addr \<Rightarrow> addr option" where
  "listen_addr nm ia =
     (case ia of
        OtherAddr \<Rightarrow> None
      | IPNet bs \<Rightarrow>
          (case AddrFromSlice bs of
             None \<Rightarrow> None
           | Some a0 \<Rightarrow>
               (let a = Unmap a0 in
                if \<not> IsLocalScope a then None
                else if Is6 a \<and> IsLinkLocalUnicast a then Some (WithZone a nm)
                else Some (WithZone a []))))"

definition add_endpoint :: "nat \<Rightarrow> addr \<Rightarrow> string list \<Rightarrow> string list" where
  "add_endpoint port a out =
     (let ap = AddrPortString a (port mod 65536) in
      if ap \<in> set out then out else out @ [ap])"

definition iface_listen :: "iface \<Rightarrow> addr list" where
  "iface_listen i =
     (if \<not> if_up i then []
      else (case if_addrs i of None \<Rightarrow> []
            | Some ias \<Rightarrow> List.map_filter (listen_addr (if_name i)) ias))"

definition SelectListenAddrs ::
  "iface list option \<Rightarrow> string \<Rightarrow> string list \<Rightarrow> nat \<Rightarrow> listen_error + string list" where
  "SelectListenAddrs ifaces mode explicit port =
     (if mode = ''explicit'' then Inr explicit
      else if mode = [] \<or> mode = ''private-auto'' then
        (case ifaces of
           None \<Rightarrow> Inl EnumerateInterfaces
         | Some is \<Rightarrow> Inr (fold (add_endpoint port) (concat (map iface_listen is)) []))
      else Inl (UnknownListenMode mode))"

definition ListenNetwork :: "string \<Rightarrow> string \<Rightarrow> string" where
  "ListenNetwork base hostport =
     (case SplitHostPort hostport of
        None \<Rightarrow> base
      | Some (host, _) \<Rightarrow>
          if host = [] then base
          else (case ParseAddr host of
              None \<Rightarrow> base
            | Some ip \<Rightarrow>
                if Is4 ip \<or> Is4In6 ip then base @ ''4''
                else if Is6 ip then base @ ''6''
                else base))"

section \<open>What the sets denote\<close>

text \<open>
  The addresses a prefix stands for, as an interval of numbers: the reading an
  operator has of a CIDR block.
\<close>

fun cidr_range :: "net_prefix \<Rightarrow> addr \<Rightarrow> bool" where
  "cidr_range (Prefix (Addr4 p) n) (Addr4 a) \<longleftrightarrow>
     unat p div 2 ^ (32 - n) * 2 ^ (32 - n) \<le> unat a \<and>
     unat a < (unat p div 2 ^ (32 - n) + 1) * 2 ^ (32 - n)"
| "cidr_range (Prefix (Addr6 p zp) n) (Addr6 a z) \<longleftrightarrow>
     z = [] \<and>
     unat p div 2 ^ (128 - n) * 2 ^ (128 - n) \<le> unat a \<and>
     unat a < (unat p div 2 ^ (128 - n) + 1) * 2 ^ (128 - n)"
| "cidr_range _ _ \<longleftrightarrow> False"

definition default_client_set :: net_set where
  "default_client_set = \<lparr>set_prefixes =
     [Prefix (Addr4 0x0a000000) 8, Prefix (Addr4 0xac100000) 12, Prefix (Addr4 0xc0a80000) 16,
      Prefix (Addr4 0x7f000000) 8, Prefix (Addr4 0xa9fe0000) 16,
      Prefix (Addr6 0xfc000000000000000000000000000000 []) 7,
      Prefix (Addr6 1 []) 128,
      Prefix (Addr6 0xfe800000000000000000000000000000 []) 10]\<rparr>"

lemma div_eq_interval:
  assumes "(0::nat) < d"
  shows "a div d = q \<longleftrightarrow> q * d \<le> a \<and> a < (q + 1) * d"
  using assms by (metis add.commute div_nat_eqI dividend_less_times_div mult.commute mult_Suc
      Suc_eq_plus1 times_div_less_eq_dividend plus_1_eq_Suc)

lemma PrefixContains_range: "PrefixContains p a = cidr_range p a"
  by (cases "(p, a)" rule: cidr_range.cases)
    (simp_all add: PrefixContains4_div PrefixContains6_div div_eq_interval
      del: PrefixContains.simps(1,2) add: PrefixContains.simps(3-))

definition set_denotes :: "net_set option \<Rightarrow> addr \<Rightarrow> bool" where
  "set_denotes s a \<longleftrightarrow> (\<exists>st. s = Some st \<and> (\<exists>p \<in> set (set_prefixes st). cidr_range p (Unmap a)))"

lemma SetContains_denotes: "SetContains s a = set_denotes s a"
  by (auto simp: SetContains_def set_denotes_def list_ex_iff PrefixContains_range
      split: option.splits)

section \<open>The tables, evaluated\<close>

lemma PrefixContains4_bits:
  "PrefixContains (Prefix (Addr4 p) n) (Addr4 a) \<longleftrightarrow> drop_bit (32 - n) a = drop_bit (32 - n) p"
  by (simp add: word_xor_eq_0)

lemma PrefixContains6_bits:
  "PrefixContains (Prefix (Addr6 p zp) n) (Addr6 a z) \<longleftrightarrow>
     z = [] \<and> drop_bit (128 - n) a = drop_bit (128 - n) p"
  by (simp add: mask6_def and_not_mask_eq_0 word_xor_eq_0)

lemma PrefixContains_family [simp]:
  "\<not> PrefixContains (Prefix (Addr4 p) n) (Addr6 a z)"
  "\<not> PrefixContains (Prefix (Addr6 p6 zp) n) (Addr4 b)"
  "\<not> PrefixContains q AddrNone"
  by simp_all 

lemmas PrefixContains_bits = PrefixContains4_bits PrefixContains6_bits PrefixContains_family

lemma IsLocalScope_un:
  "IsLocalScope a \<longleftrightarrow> loopback_un (Unmap a) \<or> private_un (Unmap a) \<or> linklocal_un (Unmap a)"
  by (simp add: IsLocalScope_def IsLoopback_def IsPrivate_def IsLinkLocalUnicast_def Let_def)

lemma IsDDNSEligible_un:
  "IsDDNSEligible a \<longleftrightarrow> IsGlobalUnicast (Unmap a) \<and> \<not> IsLocalScope a \<and>
     \<not> list_ex (\<lambda>p. PrefixContains p (Unmap a)) nonRoutableSpecial"
  by (cases "IsValid (Unmap a)")
    (simp_all add: IsDDNSEligible_def IsLocalScope_def Let_def,
      simp add: IsValid_def IsGlobalUnicast_def)

lemma drop_bit_interval:
  "drop_bit (numeral k) w = (numeral c :: 'a :: len word) \<longleftrightarrow>
     unat (numeral c :: 'a word) * 2 ^ numeral k \<le> unat w \<and>
     unat w < (unat (numeral c :: 'a word) + 1) * 2 ^ numeral k"
proof -
  have "drop_bit (numeral k) w = (numeral c :: 'a :: len word) \<longleftrightarrow>
    unat w div 2 ^ numeral k = unat (numeral c :: 'a word)"
    by (metis unat_drop_bit_eq drop_bit_eq_div word_unat_eq_iff)
  then show ?thesis
    using div_eq_interval [of "2 ^ numeral k"] by simp
qed

lemma forwardBlock_eq:
  "forwardBlock =
     [Prefix (Addr4 0x0a000000) 8, Prefix (Addr4 0xac100000) 12, Prefix (Addr4 0xc0a80000) 16,
      Prefix (Addr4 0xa9fe0000) 16, Prefix (Addr4 0xc0000000) 24, Prefix (Addr4 0xc6120000) 15,
      Prefix (Addr6 0xfc000000000000000000000000000000 []) 7,
      Prefix (Addr6 0xfe800000000000000000000000000000 []) 10,
      Prefix (Addr6 1 []) 128, Prefix (Addr6 0 []) 128]"
  by code_simp

lemma nonRoutableSpecial_eq:
  "nonRoutableSpecial =
     [Prefix (Addr4 0x64400000) 10, Prefix (Addr4 0xc0000200) 24, Prefix (Addr4 0xc6336400) 24,
      Prefix (Addr4 0xcb007100) 24, Prefix (Addr6 0x20010db8000000000000000000000000 []) 32]"
  by code_simp

lemma DefaultPrivateClients_eq: "ParseSet DefaultPrivateClients = Inr default_client_set"
  by code_simp

lemma default_client_set_iff:
  "SetContains (Some default_client_set) a \<longleftrightarrow> IsLocalScope a \<and> \<not> hasZone (Unmap a)"
  unfolding IsLocalScope_un SetContains_def default_client_set_def
  by (cases "Unmap a") (auto simp: PrefixContains_bits simp del: PrefixContains.simps(1,2))

lemma forward_blocked4:
  "Unmap a = Addr4 w \<Longrightarrow> IsForwardBlocked a \<longleftrightarrow>
     private_un (Addr4 w) \<or> linklocal_un (Addr4 w) \<or> drop_bit 8 w = 0xc00000 \<or> drop_bit 17 w = 0x6309"
  unfolding IsForwardBlocked_def forwardBlock_eq
  by (auto simp: IsValid_def Let_def PrefixContains_bits simp del: PrefixContains.simps(1,2))

lemma forward_blocked6:
  "Unmap a = Addr6 w z \<Longrightarrow> IsForwardBlocked a \<longleftrightarrow>
     z = [] \<and> (private_un (Addr6 w z) \<or> linklocal_un (Addr6 w z) \<or> w = 1 \<or> w = 0)"
  unfolding IsForwardBlocked_def forwardBlock_eq
  by (auto simp: IsValid_def Let_def PrefixContains_bits simp del: PrefixContains.simps(1,2))

lemma bench_eligible:
  assumes "drop_bit 8 w = (0xc00000 :: 32 word) \<or> drop_bit 17 w = (0x6309 :: 32 word)"
  shows "IsGlobalUnicast (Addr4 w)" "\<not> loopback_un (Addr4 w)" "\<not> private_un (Addr4 w)"
    "\<not> linklocal_un (Addr4 w)"
    "\<not> list_ex (\<lambda>p. PrefixContains p (Addr4 w)) nonRoutableSpecial"
proof -
  have n: "3221225472 \<le> unat w \<and> unat w < 3221225728 \<or> 3323068416 \<le> unat w \<and> unat w < 3323199488"
    using assms by (simp add: drop_bit_interval)
  have w: "w = 0 \<Longrightarrow> unat w = 0" "w = 0xffffffff \<Longrightarrow> unat w = 0xffffffff"
    by auto
  show "\<not> loopback_un (Addr4 w)" "\<not> private_un (Addr4 w)" "\<not> linklocal_un (Addr4 w)"
    "\<not> list_ex (\<lambda>p. PrefixContains p (Addr4 w)) nonRoutableSpecial"
    using n by (auto simp: drop_bit_interval nonRoutableSpecial_eq PrefixContains_bits
        simp del: PrefixContains.simps(1,2))
  then show "IsGlobalUnicast (Addr4 w)"
    using n w by (auto simp: IsGlobalUnicast_def IPv4Unspecified_def IPv6Unspecified_def
        drop_bit_interval)
qed

lemma add_endpoint_set: "set (add_endpoint port a out) = insert (AddrPortString a (port mod 65536)) (set out)"
  by (auto simp: add_endpoint_def Let_def)

lemma add_endpoint_distinct: "distinct out \<Longrightarrow> distinct (add_endpoint port a out)"
  by (auto simp: add_endpoint_def Let_def)

lemma fold_add_endpoint:
  "distinct out \<Longrightarrow> distinct (fold (add_endpoint port) as out) \<and>
   set (fold (add_endpoint port) as out) =
     set out \<union> (\<lambda>a. AddrPortString a (port mod 65536)) ` set as"
  by (induction as arbitrary: out) (auto simp: add_endpoint_distinct add_endpoint_set)

lemma IsLocalScope_WithZone: "IsLocalScope a \<Longrightarrow> \<not> Is4In6 a \<Longrightarrow> IsLocalScope (WithZone a z)"
  by (cases a) (auto simp: IsLocalScope_un)

lemma listen_addr_local: "listen_addr nm ia = Some a \<Longrightarrow> IsLocalScope a"
  by (auto simp: listen_addr_def Let_def IsLocalScope_WithZone
      split: iface_addr.splits option.splits if_splits)

section \<open>Properties\<close>

text \<open>
  The access policy on the numbers an operator writes down: a client may
  query exactly when its address (a v4-mapped one read as IPv4) lies in some
  interval of the allow list and in no interval of the refuse list; an absent
  allow list admits nobody.
\<close>

theorem Allowed_iff:
  "Allowed acc a \<longleftrightarrow> set_denotes (Allow acc) a \<and> \<not> set_denotes (Refuse acc) a"
  by (auto simp: Allowed_def SetContains_denotes) (auto simp: set_denotes_def)

text \<open>
  The default allow list parses, and it admits exactly the local-scope
  clients (loopback, private, link-local) that carry no zone; no global address
  is in it.
\<close>

theorem default_clients_local_scope:
  "\<exists>s. ParseSet DefaultPrivateClients = Inr s \<and>
     (\<forall>a. SetContains (Some s) a \<longleftrightarrow> IsLocalScope a \<and> \<not> hasZone (Unmap a))"
  using DefaultPrivateClients_eq default_client_set_iff by blast

text \<open>
  The two address tests of the package overlap: the addresses that the dynamic
  DNS writer takes for public although the forward path strips them as
  non-routable are exactly 192.0.0.0/24 and 198.18.0.0/15.
\<close>

theorem ddns_forward_overlap:
  "IsDDNSEligible a \<and> IsForwardBlocked a \<longleftrightarrow>
     (\<exists>w. Unmap a = Addr4 w \<and> (drop_bit 8 w = 0xc00000 \<or> drop_bit 17 w = 0x6309))"
proof (cases "Unmap a")
  case AddrNone
  then show ?thesis by (simp add: IsForwardBlocked_def IsValid_def)
next
  case (Addr4 w)
  show ?thesis
    unfolding IsDDNSEligible_un IsLocalScope_un forward_blocked4 [OF Addr4]
    using Addr4 bench_eligible [of w] by auto
next
  case (Addr6 w z)
  show ?thesis
    unfolding IsDDNSEligible_un IsLocalScope_un forward_blocked6 [OF Addr6]
    using Addr6 by (auto simp: IsGlobalUnicast_def IPv6Unspecified_def split: if_splits)
qed

text \<open>
  Automatic listen addresses: no endpoint is listed twice, and the listed
  endpoints are exactly those of the local-scope addresses of interfaces that are
  up, so a global address is never bound.
\<close>

theorem SelectListenAddrs_private_auto:
  assumes "SelectListenAddrs (Some is) ''private-auto'' explicit port = Inr out"
  shows "distinct out \<and>
    (\<forall>ep. ep \<in> set out \<longleftrightarrow>
      (\<exists>i a. i \<in> set is \<and> if_up i \<and> a \<in> set (iface_listen i) \<and> IsLocalScope a \<and>
             ep = AddrPortString a (port mod 65536)))"
proof -
  have out: "out = fold (add_endpoint port) (concat (map iface_listen is)) []"
    using assms by (simp add: SelectListenAddrs_def)
  have loc: "a \<in> set (iface_listen i) \<Longrightarrow> if_up i \<and> IsLocalScope a" for a i
    by (auto simp: iface_listen_def map_filter_set listen_addr_local split: if_splits option.splits)
  show ?thesis
    using fold_add_endpoint [of "[]" port "concat (map iface_listen is)"] loc
    by (auto simp: out image_iff)
qed

theorem SelectListenAddrs_private_auto_witness:
  "(let i = \<lparr>if_name = ''eth0'', if_up = True,
             if_addrs = Some [IPNet [10, 0, 0, 7], IPNet [8, 8, 8, 8]]\<rparr>;
        j = \<lparr>if_name = ''eth1'', if_up = False, if_addrs = Some [IPNet [10, 0, 0, 9]]\<rparr> in
    SelectListenAddrs (Some [i, j]) ''private-auto'' [] 53 = Inr [''10.0.0.7:53''] \<and>
    distinct [''10.0.0.7:53''] \<and>
    (\<exists>k a. k \<in> set [i, j] \<and> if_up k \<and> a \<in> set (iface_listen k) \<and> IsLocalScope a \<and>
             ''10.0.0.7:53'' = AddrPortString a (53 mod 65536)))"
proof -
  let ?i = "\<lparr>if_name = ''eth0'', if_up = True,
             if_addrs = Some [IPNet [10, 0, 0, 7], IPNet [8, 8, 8, 8]]\<rparr>"
  let ?j = "\<lparr>if_name = ''eth1'', if_up = False, if_addrs = Some [IPNet [10, 0, 0, 9]]\<rparr>"
  have r: "SelectListenAddrs (Some [?i, ?j]) ''private-auto'' [] 53 = Inr [''10.0.0.7:53'']"
    by code_simp
  from SelectListenAddrs_private_auto [OF r] r show ?thesis
    by (simp only: Let_def list.set insert_iff simp_thms) blast
qed

end
