(* ===== verification/Qlog.thy ===== *)
theory Qlog
  imports Netip "HOL-Library.Product_Lexorder"
begin

text \<open>
  Package \<^verbatim>\<open>internal/qlog\<close>: the ring of recent queries, the decision totals and the
  decaying activity scores.  A float64 score is a real number, so the decay is exact
  and the ring and the totals, which do not depend on it, evaluate.  The clock value an
  operation reads is its argument.
\<close>

section \<open>State\<close>

datatype decision = dLocal | dCacheHit | dStale | dForward | dStub | dRefused | dServfail | dDropped

record ql_entry =
  qe_seq :: nat
  qe_time :: time
  qe_client :: addr
  qe_transport :: string
  qe_name :: string
  qe_qtype :: string
  qe_decision :: decision
  qe_rcode :: string
  qe_latency :: duration

definition zero_entry :: ql_entry where
  "zero_entry = \<lparr>qe_seq = 0, qe_time = 0, qe_client = AddrNone, qe_transport = [], qe_name = [],
     qe_qtype = [], qe_decision = dLocal, qe_rcode = [], qe_latency = 0\<rparr>"

record name_count =
  nc_name :: string
  nc_count :: nat

record client_stat =
  cs_client :: addr
  cs_count :: nat
  cs_last_seen :: time
  cs_top_names :: "name_count list"
  cs_transports :: "name_count list"

text \<open>The zero time of the decay base is None.\<close>

record client_agg =
  ca_client :: addr
  ca_score :: real
  ca_names :: "(string, real) gomap"
  ca_transports :: "(string, nat) gomap"
  ca_last_seen :: time
  ca_decay_at :: "time option"

definition perClientNames :: nat where "perClientNames = 32"
definition nameFloor :: real where "nameFloor = 5 / 100"
definition clientFloor :: real where "clientFloor = 5 / 100"
definition defaultHalfLife :: duration where "defaultHalfLife = 10 * minute"
definition topNamesPerClient :: nat where "topNamesPerClient = 5"

record ql_totals =
  qt_total :: nat
  qt_by_decision :: "(decision, nat) gomap"
  qt_by_transport :: "(string, nat) gomap"
  qt_clients :: nat

record qlog =
  ql_max_clients :: int
  ql_lambda :: real
  ql_ring :: "ql_entry list"
  ql_next :: nat
  ql_count :: nat
  ql_clients :: "(addr, client_agg) gomap"
  ql_total :: nat
  ql_by_dec :: "(decision, nat) gomap"
  ql_by_xport :: "(string, nat) gomap"

definition secs :: "duration \<Rightarrow> real" where
  "secs d = of_int d / of_int second"

definition WithHalfLife :: "duration \<Rightarrow> qlog \<Rightarrow> qlog" where
  "WithHalfLife d l = l\<lparr>ql_lambda := (if d \<le> 0 then 0 else ln 2 / secs d)\<rparr>"

definition ql_new :: "int \<Rightarrow> int \<Rightarrow> (qlog \<Rightarrow> qlog) list \<Rightarrow> qlog" where
  "ql_new size0 max0 opts =
     (let size = (if size0 \<le> 0 then 512 else size0);
          maxClients = (if max0 \<le> 0 then 4096 else max0) in
      foldl (\<lambda>l opt. opt l)
        \<lparr>ql_max_clients = maxClients, ql_lambda = ln 2 / secs defaultHalfLife,
         ql_ring = replicate (nat size) zero_entry, ql_next = 0, ql_count = 0, ql_clients = [],
         ql_total = 0, ql_by_dec = [], ql_by_xport = []\<rparr> opts)"

section \<open>Recording\<close>

text \<open>Incrementing a map entry, which is zero when absent.\<close>

definition gm_incr :: "('k, nat) gomap \<Rightarrow> 'k \<Rightarrow> ('k, nat) gomap" where
  "gm_incr m k = gm_set m k ((case gm_get m k of None \<Rightarrow> 0 | Some n \<Rightarrow> n) + 1)"

definition decay_names :: "real \<Rightarrow> (string, real) gomap \<Rightarrow> (string, real) gomap" where
  "decay_names f ns = filter (\<lambda>(_, s). \<not> s < nameFloor) (map (\<lambda>(n, s). (n, s * f)) ns)"

definition decayTo :: "real \<Rightarrow> client_agg \<Rightarrow> time \<Rightarrow> client_agg" where
  "decayTo lambda ca t =
     (case ca_decay_at ca of
        None \<Rightarrow> ca\<lparr>ca_decay_at := Some t\<rparr>
      | Some t0 \<Rightarrow>
          if lambda = 0 then ca\<lparr>ca_decay_at := Some t\<rparr>
          else
            (let dt = secs (t - t0) in
             if dt \<le> 0 then ca
             else
               (let f = exp (- lambda * dt) in
                ca\<lparr>ca_decay_at := Some t, ca_score := ca_score ca * f,
                   ca_names := decay_names f (ca_names ca)\<rparr>)))"

definition add_name :: "string \<Rightarrow> (string, real) gomap \<Rightarrow> (string, real) gomap" where
  "add_name n ns =
     (if n \<noteq> [] \<and> (gm_has ns n \<or> length ns < perClientNames)
      then gm_set ns n ((case gm_get ns n of None \<Rightarrow> 0 | Some s \<Rightarrow> s) + 1) else ns)"

definition touch_client :: "real \<Rightarrow> ql_entry \<Rightarrow> client_agg \<Rightarrow> client_agg" where
  "touch_client lambda e ca0 =
     (let ca = decayTo lambda ca0 (qe_time e) in
      ca\<lparr>ca_score := ca_score ca + 1, ca_last_seen := qe_time e,
         ca_transports := (if qe_transport e \<noteq> [] then gm_incr (ca_transports ca) (qe_transport e)
                           else ca_transports ca),
         ca_names := add_name (qe_name e) (ca_names ca)\<rparr>)"

definition record_client :: "ql_entry \<Rightarrow> qlog \<Rightarrow> qlog" where
  "record_client e l =
     (if \<not> IsValid (qe_client e) then l
      else case gm_get (ql_clients l) (qe_client e) of
        Some ca \<Rightarrow>
          l\<lparr>ql_clients := gm_set (ql_clients l) (qe_client e) (touch_client (ql_lambda l) e ca)\<rparr>
      | None \<Rightarrow>
          if int (length (ql_clients l)) \<ge> ql_max_clients l then l
          else
            (let ca = \<lparr>ca_client = qe_client e, ca_score = 0, ca_names = [], ca_transports = [],
                       ca_last_seen = 0, ca_decay_at = Some (qe_time e)\<rparr> in
             l\<lparr>ql_clients := gm_set (ql_clients l) (qe_client e) (touch_client (ql_lambda l) e ca)\<rparr>))"

definition ql_record :: "ql_entry \<Rightarrow> qlog \<Rightarrow> qlog" where
  "ql_record e0 l =
     (let total = ql_total l + 1; e = e0\<lparr>qe_seq := total\<rparr> in
      record_client e
        (l\<lparr>ql_total := total, ql_ring := (ql_ring l)[ql_next l := e],
           ql_next := (ql_next l + 1) mod length (ql_ring l),
           ql_count := (if ql_count l < length (ql_ring l) then ql_count l + 1 else ql_count l),
           ql_by_dec := gm_incr (ql_by_dec l) (qe_decision e),
           ql_by_xport := (if qe_transport e \<noteq> [] then gm_incr (ql_by_xport l) (qe_transport e)
                           else ql_by_xport l)\<rparr>))"

section \<open>Reading\<close>

fun recent_loop :: "ql_entry list \<Rightarrow> nat \<Rightarrow> int \<Rightarrow> ql_entry list" where
  "recent_loop ring 0 idx = []"
| "recent_loop ring (Suc n) idx =
     (let i = (if idx < 0 then idx + int (length ring) else idx) in
      ring ! nat i # recent_loop ring n (i - 1))"

definition Recent :: "int \<Rightarrow> qlog \<Rightarrow> ql_entry list" where
  "Recent n l =
     recent_loop (ql_ring l) (if n \<le> 0 \<or> n > int (ql_count l) then ql_count l else nat n) (int (ql_next l) - 1)"

definition scoreCount :: "real \<Rightarrow> nat" where
  "scoreCount s = (let n = nat \<lfloor>s + 1 / 2\<rfloor> in if n > 0 then n else 1)"

text \<open>Sorting a list by a score, highest first, and then by a string.\<close>

definition rank_sort :: "('a \<Rightarrow> real) \<Rightarrow> ('a \<Rightarrow> string) \<Rightarrow> 'a list \<Rightarrow> 'a list" where
  "rank_sort score name = sort_key (\<lambda>x. (- score x, name x))"

definition topNames :: "(string, real) gomap \<Rightarrow> nat \<Rightarrow> name_count list" where
  "topNames ns k =
     (let sorted = rank_sort snd fst ns; cut = (if 0 < k \<and> k < length sorted then take k sorted else sorted) in
      map (\<lambda>(n, s). \<lparr>nc_name = n, nc_count = scoreCount s\<rparr>) cut)"

definition transportCounts :: "(string, nat) gomap \<Rightarrow> name_count list" where
  "transportCounts ts =
     map (\<lambda>(n, c). \<lparr>nc_name = n, nc_count = c\<rparr>) (rank_sort (\<lambda>x. of_nat (snd x)) fst ts)"

definition decay_clients :: "time \<Rightarrow> qlog \<Rightarrow> (addr, client_agg) gomap" where
  "decay_clients now l =
     filter (\<lambda>(_, ca). \<not> (ql_lambda l \<noteq> 0 \<and> ca_score ca < clientFloor))
       (map (\<lambda>(a, ca). (a, decayTo (ql_lambda l) ca now)) (ql_clients l))"

definition client_stat_of :: "client_agg \<Rightarrow> client_stat" where
  "client_stat_of ca = \<lparr>cs_client = ca_client ca, cs_count = scoreCount (ca_score ca),
     cs_last_seen = ca_last_seen ca, cs_top_names = topNames (ca_names ca) topNamesPerClient,
     cs_transports = transportCounts (ca_transports ca)\<rparr>"

definition TopClients :: "time \<Rightarrow> int \<Rightarrow> qlog \<Rightarrow> client_stat list \<times> qlog" where
  "TopClients now n l =
     (let cs = decay_clients now l;
          aggs = rank_sort ca_score (\<lambda>ca. AddrString (ca_client ca)) (map snd cs);
          cut = (if n > 0 \<and> n < int (length aggs) then take (nat n) aggs else aggs) in
      (map client_stat_of cut, l\<lparr>ql_clients := cs\<rparr>))"

definition Totals :: "qlog \<Rightarrow> ql_totals" where
  "Totals l = \<lparr>qt_total = ql_total l, qt_by_decision = ql_by_dec l, qt_by_transport = ql_by_xport l,
     qt_clients = length (ql_clients l)\<rparr>"

section \<open>The ring is the list of the last queries\<close>

datatype ql_op = QRecord ql_entry | QTop time int

fun ql_step :: "ql_op \<Rightarrow> qlog \<Rightarrow> qlog" where
  "ql_step (QRecord e) l = ql_record e l"
| "ql_step (QTop now n) l = snd (TopClients now n l)"

text \<open>The queries a sequence of operations records, newest first, with their numbers.\<close>

fun history :: "ql_op list \<Rightarrow> ql_entry list \<Rightarrow> ql_entry list" where
  "history [] h = h"
| "history (QRecord e # ops) h = history ops (e\<lparr>qe_seq := length h + 1\<rparr> # h)"
| "history (QTop now n # ops) h = history ops h"

definition ring_ok :: "nat \<Rightarrow> qlog \<Rightarrow> ql_entry list \<Rightarrow> bool" where
  "ring_ok N l h \<longleftrightarrow> 0 < N \<and> length (ql_ring l) = N \<and> ql_next l < N \<and> ql_total l = length h \<and>
     ql_count l = min (length h) N \<and>
     (\<forall>i < min (length h) N. ql_ring l ! nat ((int (ql_next l) - 1 - int i) mod int N) = h ! i)"

lemma record_client_ring [simp]:
  "ql_ring (record_client e l) = ql_ring l" "ql_next (record_client e l) = ql_next l"
  "ql_count (record_client e l) = ql_count l" "ql_total (record_client e l) = ql_total l"
  "ql_max_clients (record_client e l) = ql_max_clients l"
  by (simp_all add: record_client_def Let_def split: option.splits)

lemma recent_loop_map:
  assumes "0 < length ring" "- 1 \<le> idx" "idx < int (length ring)"
  shows "recent_loop ring n idx = map (\<lambda>i. ring ! nat ((idx - int i) mod int (length ring))) [0..<n]"
  using assms
proof (induction n arbitrary: idx)
  case (Suc n)
  let ?N = "int (length ring)"
  have wrap: "(if idx < 0 then idx + ?N else idx) = idx mod ?N"
  proof (cases "idx < 0")
    case True
    then have "idx = - 1"
      using Suc.prems by simp
    then show ?thesis
      using Suc.prems(1) by (simp add: zmod_minus1)
  qed (use Suc.prems in simp)
  have b: "0 \<le> idx mod ?N" "idx mod ?N < ?N"
    using Suc.prems(1) by simp_all
  have "recent_loop ring n (idx mod ?N - 1) = map (\<lambda>i. ring ! nat ((idx mod ?N - 1 - int i) mod ?N)) [0..<n]"
    using b Suc.prems(1) by (intro Suc.IH) linarith+
  moreover have "(idx mod ?N - 1 - int i) mod ?N = (idx - int (Suc i)) mod ?N" for i
    using mod_diff_left_eq [of idx ?N "1 + int i"] by (simp add: algebra_simps)
  ultimately show ?case
    by (simp add: wrap Let_def upt_conv_Cons map_Suc_upt [symmetric] del: upt_Suc)
qed simp

lemma ring_ok_record:
  assumes "ring_ok N l h"
  shows "ring_ok N (ql_record e l) (e\<lparr>qe_seq := length h + 1\<rparr> # h)"
proof -
  let ?e = "e\<lparr>qe_seq := length h + 1\<rparr>" and ?l = "ql_record e l"
  have N: "0 < N" "length (ql_ring l) = N" "ql_next l < N" "ql_total l = length h" "ql_count l = min (length h) N"
    using assms by (auto simp: ring_ok_def)
  have l: "ql_ring ?l = (ql_ring l)[ql_next l := ?e]" "ql_next ?l = (ql_next l + 1) mod N"
    using N by (simp_all add: ql_record_def Let_def)
  have idx: "(int (ql_next ?l) - 1 - int i) mod int N = (int (ql_next l) - int i) mod int N" for i
    unfolding l(2) using mod_diff_left_eq [of "int (ql_next l) + 1" "int N" "1 + int i"]
    by (simp add: zmod_int algebra_simps)
  have "ql_ring ?l ! nat ((int (ql_next l) - int i) mod int N) = (?e # h) ! i" if i: "i < min (Suc (length h)) N" for i
  proof (cases i)
    case 0
    then show ?thesis
      using N l(1) by simp
  next
    case (Suc j)
    let ?k = "(int (ql_next l) - 1 - int j) mod int N"
    have "?k \<noteq> int (ql_next l)"
    proof
      assume "?k = int (ql_next l)"
      then have "int N dvd (int (ql_next l) - 1 - int j) - int (ql_next l)"
        using N by (metis mod_eq_dvd_iff mod_mod_trivial)
      then have "int N dvd - int (Suc j)"
        by (simp add: algebra_simps)
      then have "N dvd Suc j"
        by (simp only: dvd_minus_iff int_dvd_int_iff)
      then show False
        using i Suc N by (auto dest: dvd_imp_le)
    qed
    then have "nat ?k \<noteq> ql_next l"
      using N by (metis int_nat_eq of_nat_0_less_iff pos_mod_sign)
    moreover have "ql_ring l ! nat ?k = h ! j"
      using assms i Suc by (simp add: ring_ok_def)
    ultimately show ?thesis
      using l(1) Suc by (simp add: algebra_simps)
  qed
  then show ?thesis
    unfolding ring_ok_def idx using N by (simp add: ql_record_def Let_def)
qed

lemma ring_ok_run: "ring_ok N l h \<Longrightarrow> ring_ok N (fold ql_step ops l) (history ops h)"
proof (induction ops arbitrary: l h)
  case (Cons op ops)
  then show ?case
  proof (cases op)
    case (QTop now n)
    have "ring_ok N (snd (TopClients now n l)) h"
      using Cons.prems by (simp add: ring_ok_def TopClients_def Let_def)
    then show ?thesis
      using Cons.IH QTop by simp
  next
    case (QRecord e)
    then show ?thesis
      using Cons.IH [OF ring_ok_record [OF Cons.prems, of e]] by simp
  qed
qed simp

lemma ring_ok_Recent:
  assumes "ring_ok N l h"
  shows "Recent n l = take (if n \<le> 0 then N else nat n) (take N h)"
proof -
  have N: "0 < length (ql_ring l)" "N = length (ql_ring l)" "ql_next l < N" "ql_count l = min (length h) N"
    and at: "\<And>i. i < min (length h) N \<Longrightarrow> ql_ring l ! nat ((int (ql_next l) - 1 - int i) mod int N) = h ! i"
    using assms by (auto simp: ring_ok_def)
  have "recent_loop (ql_ring l) k (int (ql_next l) - 1) = take k h" if k: "k \<le> min (length h) N" for k
  proof -
    have "recent_loop (ql_ring l) k (int (ql_next l) - 1) =
        map (\<lambda>i. ql_ring l ! nat ((int (ql_next l) - 1 - int i) mod int N)) [0..<k]"
      unfolding N(2) by (rule recent_loop_map) (use N in auto)
    also have "\<dots> = map (\<lambda>i. h ! i) [0..<k]"
      using k by (intro map_cong refl at) simp
    also have "\<dots> = take k h"
      by (rule nth_equalityI) (use k in auto)
    finally show ?thesis .
  qed
  then show ?thesis
    using N(4) by (auto simp: Recent_def min_def)
qed

lemma ring_ok_new: "ring_ok (nat (if sz \<le> 0 then 512 else sz)) (ql_new sz maxc [WithHalfLife d]) []"
  by (simp add: ring_ok_def ql_new_def WithHalfLife_def Let_def)

text \<open>
  C37. The query log shows the last queries: after any sequence of recordings and
  client reports, reading the n most recent gives the n queries recorded last (all
  that the ring holds for n below one), newest first and numbered by their position
  in the whole history, however often the ring has wrapped around.
\<close>

theorem Recent_is_history:
  "Recent n (fold ql_step ops (ql_new sz maxc [WithHalfLife d])) =
   (let N = nat (if sz \<le> 0 then 512 else sz) in
    take (if n \<le> 0 then N else nat n) (take N (history ops [])))"
  unfolding Let_def by (rule ring_ok_Recent [OF ring_ok_run [OF ring_ok_new]])

section \<open>Memory bounds\<close>

definition ca_ok :: "client_agg \<Rightarrow> bool" where
  "ca_ok ca \<longleftrightarrow> gm_ok (ca_names ca) \<and> length (ca_names ca) \<le> perClientNames"

definition ql_ok :: "qlog \<Rightarrow> bool" where
  "ql_ok l \<longleftrightarrow> gm_ok (ql_clients l) \<and> 0 < ql_max_clients l \<and> int (length (ql_clients l)) \<le> ql_max_clients l \<and>
     (\<forall>(a, ca)\<in>set (ql_clients l). ca_ok ca)"

lemma decayTo_ok: "ca_ok ca \<Longrightarrow> ca_ok (decayTo lam ca t)"
proof -
  assume ok: "ca_ok ca"
  have "gm_ok (decay_names f (ca_names ca))" for f
    unfolding decay_names_def using ok gm_ok_map_vals [of "ca_names ca" "\<lambda>_ s. s * f"]
    by (auto simp: ca_ok_def intro: gm_ok_filter)
  moreover have "length (decay_names f (ca_names ca)) \<le> length (ca_names ca)" for f
    unfolding decay_names_def by (metis length_filter_le length_map)
  ultimately show ?thesis
    using ok by (fastforce simp: ca_ok_def decayTo_def Let_def split: option.splits intro: order_trans)
qed

lemma add_name_ok: "gm_ok ns \<Longrightarrow> length ns \<le> perClientNames \<Longrightarrow>
    gm_ok (add_name n ns) \<and> length (add_name n ns) \<le> perClientNames"
  by (auto simp: add_name_def gm_size_set gm_has_def)

lemma touch_client_ok: "ca_ok ca \<Longrightarrow> ca_ok (touch_client lam e ca)"
  using decayTo_ok [of ca lam "qe_time e"] add_name_ok
  by (simp add: touch_client_def ca_ok_def Let_def)

lemma ql_ok_clients:
  assumes "ql_ok l" "ca_ok ca" "gm_get (ql_clients l) a \<noteq> None \<or> int (length (ql_clients l)) < ql_max_clients l"
  shows "ql_ok (l\<lparr>ql_clients := gm_set (ql_clients l) a ca\<rparr>)"
proof -
  have "set (gm_set (ql_clients l) a ca) \<subseteq> insert (a, ca) (set (ql_clients l))"
    by (rule gm_set_subset)
  then show ?thesis
    using assms by (auto simp: ql_ok_def gm_size_set)
qed

lemma record_client_ok: "ql_ok l \<Longrightarrow> ql_ok (record_client e l)"
proof (cases "gm_get (ql_clients l) (qe_client e)")
  case None
  assume "ql_ok l"
  moreover have "ca_ok \<lparr>ca_client = qe_client e, ca_score = 0, ca_names = [], ca_transports = [],
      ca_last_seen = 0, ca_decay_at = Some (qe_time e)\<rparr>"
    by (simp add: ca_ok_def gm_ok_def)
  ultimately show ?thesis
    using None by (simp add: record_client_def ql_ok_clients touch_client_ok Let_def)
next
  case (Some ca)
  assume l: "ql_ok l"
  then have "ca_ok ca"
    using map_of_SomeD [OF Some] by (auto simp: ql_ok_def)
  then show ?thesis
    using l Some by (simp add: record_client_def ql_ok_clients touch_client_ok)
qed

lemma ql_step_ok: "ql_ok l \<Longrightarrow> ql_ok (ql_step op l)"
proof (cases op)
  case (QRecord e)
  assume "ql_ok l"
  then show ?thesis
    unfolding QRecord ql_step.simps ql_record_def Let_def
    by (intro record_client_ok) (simp add: ql_ok_def)
next
  case (QTop now n)
  assume l: "ql_ok l"
  have len: "length (decay_clients now l) \<le> length (ql_clients l)"
    unfolding decay_clients_def by (metis length_filter_le length_map)
  have "gm_ok (decay_clients now l)"
    unfolding decay_clients_def using l gm_ok_map_vals [of "ql_clients l" "\<lambda>_ ca. decayTo (ql_lambda l) ca now"]
    by (auto simp: ql_ok_def intro: gm_ok_filter)
  moreover have "\<forall>(a, ca)\<in>set (decay_clients now l). ca_ok ca"
    using l by (auto simp: decay_clients_def ql_ok_def intro!: decayTo_ok)
  ultimately show ?thesis
    using l len by (auto simp: QTop TopClients_def Let_def ql_ok_def)
qed

interpretation qlm: op_machine ql_step ql_ok
  by unfold_locales (rule ql_step_ok)

lemma ql_ok_new: "ql_ok (ql_new sz maxc [WithHalfLife d])"
  by (simp add: ql_ok_def ql_new_def WithHalfLife_def Let_def gm_ok_def)

text \<open>
  Telemetry memory is bounded whatever the traffic: after any sequence of
  operations there are at most the configured number of clients, each at most once
  and each with at most 32 distinct names.
\<close>

theorem qlog_bounded:
  "ql_ok (fold ql_step ops (ql_new sz maxc [WithHalfLife d]))"
  by (rule qlm.run_inv [OF ql_ok_new])

end
