(* ===== verification/Server.thy ===== *)
theory Server
  imports Resolver Anscache Forwarder Netmatch Qlog
begin

text \<open>
  Package \<^verbatim>\<open>internal/server\<close>: the handler of one request.  It checks the client, takes
  a slot of the concurrency limiter, asks the resolver, and replies directly or
  forwards, through the answer cache for the public upstreams.  The state holds the
  two limiters (as numbers of slots in use), the cache, the forwarder, the query log,
  the replies written and the labels solicited on the local network.  What a request
  reads from outside is an argument: the snapshot, the views before and after a
  solicitation, the readings of the clocks, the reader of zone lines and the
  library's truncation of a message to a size.  Listeners and sockets are not
  modelled.  The result None is a circuit breaker that does not return.
\<close>

section \<open>State and requests\<close>

datatype remote = UDPAddr "nat list" | TCPAddr "nat list" | OtherAddr

text \<open>A response writer: the peer, and the label an encrypted front end attaches, if it does.\<close>

record writer =
  w_remote :: remote
  w_transport :: "string option"

record srv_config =
  sc_access :: access
  sc_max_inflight :: int
  sc_read_timeout :: duration
  sc_idle_timeout :: duration
  sc_query_budget :: duration
  sc_on_demand :: bool

definition odWaiters :: nat where "odWaiters = 64"
definition serverUDPSize :: nat where "serverUDPSize = 1232"

record server =
  sv_cfg :: srv_config
  sv_sem :: nat
  sv_od_sem :: nat
  sv_cache :: "ac_cache option"
  sv_fw :: "fw_state option"
  sv_qlog :: "qlog option"
  sv_out :: "dns_msg list"
  sv_solicited :: "(string \<times> addr) list"
  sv_waits :: "(nat \<times> nat) list"
  sv_log :: "string list"

record request_env =
  rq_snapshot :: "snapshot option"
  rq_view :: "mdns_view option"
  rq_view_after :: "mdns_view option"
  rq_newRR :: newrr
  rq_truncate :: "nat \<Rightarrow> dns_msg \<Rightarrow> dns_msg"
  rq_start :: time
  rq_finish :: time
  rq_lookup_time :: time
  rq_store_time :: time
  rq_net :: fw_env

definition empty_snapshot :: snapshot where
  "empty_snapshot = \<lparr>s_zones = [], s_stubs = [], s_reverse = [], s_vhosts = [], s_excluded = [],
     s_static = [], s_ddns = [], s_local_domain = [], s_serve_dnssd = False, s_allow_suffix = [],
     s_built_at = None, s_cf_healthy = False, s_vhost4 = AddrNone, s_vhost6 = AddrNone, s_ddr = None\<rparr>"

definition empty_view :: mdns_view where
  "empty_view = \<lparr>v_forward = [], v_reverse = [], v_services = [], v_info = [], v_built_at = None\<rparr>"

text \<open>The defaults of the configuration, and an idle server.\<close>

definition srv_defaults :: "srv_config \<Rightarrow> srv_config" where
  "srv_defaults c =
     c\<lparr>sc_max_inflight := (if sc_max_inflight c \<le> 0 then 4096 else sc_max_inflight c),
       sc_read_timeout := (if sc_read_timeout c \<le> 0 then 2 * second else sc_read_timeout c),
       sc_idle_timeout := (if sc_idle_timeout c \<le> 0 then 5 * second else sc_idle_timeout c),
       sc_query_budget := (if sc_query_budget c \<le> 0 then 2 * second else sc_query_budget c)\<rparr>"

definition srv_new :: "srv_config \<Rightarrow> ac_cache option \<Rightarrow> fw_state option \<Rightarrow> qlog option \<Rightarrow> server" where
  "srv_new c cache fw ql =
     \<lparr>sv_cfg = srv_defaults c, sv_sem = 0, sv_od_sem = 0, sv_cache = cache, sv_fw = fw, sv_qlog = ql,
      sv_out = [], sv_solicited = [], sv_waits = [], sv_log = []\<rparr>"

record srv_result =
  res_decision :: decision
  res_rcode :: nat

section \<open>Helpers\<close>

definition clientIP :: "remote \<Rightarrow> addr" where
  "clientIP r =
     (case r of
        UDPAddr b \<Rightarrow> (case AddrFromSlice b of None \<Rightarrow> AddrNone | Some a \<Rightarrow> Unmap a)
      | TCPAddr b \<Rightarrow> (case AddrFromSlice b of None \<Rightarrow> AddrNone | Some a \<Rightarrow> Unmap a)
      | OtherAddr \<Rightarrow> AddrNone)"

definition isTCP :: "writer \<Rightarrow> bool" where
  "isTCP w = (case w_remote w of TCPAddr _ \<Rightarrow> True | _ \<Rightarrow> False)"

definition transportOf :: "writer \<Rightarrow> string" where
  "transportOf w =
     (case w_transport w of
        Some s \<Rightarrow> (if s \<noteq> [] then s else if isTCP w then ''tcp'' else ''udp'')
      | None \<Rightarrow> (if isTCP w then ''tcp'' else ''udp''))"

text \<open>The bytes of an address record are an \<^typ>\<open>addr\<close> already; \<^const>\<open>AddrNone\<close> is a bad length.\<close>

definition netipFrom :: "addr \<Rightarrow> addr option" where
  "netipFrom a = (if a = AddrNone then None else Some (Unmap a))"

fun underAllow :: "string \<Rightarrow> string list \<Rightarrow> bool" where
  "underAllow name [] = False"
| "underAllow name (s # ss) =
     (let sfx = ToLower s in
      if name = sfx \<or> HasSuffix name (''.'' @ sfx) then True else underAllow name ss)"

definition rebind_blocked :: "dns_rr \<Rightarrow> bool" where
  "rebind_blocked r =
     (case dr_data r of
        RD_A a \<Rightarrow> (case netipFrom a of None \<Rightarrow> False | Some x \<Rightarrow> IsForwardBlocked x)
      | RD_AAAA a \<Rightarrow> (case netipFrom a of None \<Rightarrow> False | Some x \<Rightarrow> IsForwardBlocked x)
      | _ \<Rightarrow> False)"

definition applyRebindFilter :: "dns_msg \<Rightarrow> string list \<Rightarrow> dns_msg" where
  "applyRebindFilter resp allow =
     (case msg_question resp of
        q # _ \<Rightarrow>
          if underAllow (ToLower (q_name q)) allow then resp
          else resp\<lparr>msg_answer := filter (\<lambda>r. \<not> rebind_blocked r) (msg_answer resp)\<rparr>
      | [] \<Rightarrow> resp\<lparr>msg_answer := filter (\<lambda>r. \<not> rebind_blocked r) (msg_answer resp)\<rparr>)"

definition cacheableRcode :: "nat \<Rightarrow> bool" where
  "cacheableRcode rc \<longleftrightarrow> rc = RcodeSuccess \<or> rc = RcodeNameError"

definition srv_stripOPT :: "dns_msg \<Rightarrow> dns_msg" where
  "srv_stripOPT m = m\<lparr>msg_extra := filter (\<lambda>r. \<not> is_opt r) (msg_extra m)\<rparr>"

section \<open>Replies\<close>

definition finalize :: "request_env \<Rightarrow> writer \<Rightarrow> dns_msg \<Rightarrow> dns_msg \<Rightarrow> dns_msg" where
  "finalize rq w req m =
     (let (m1, udpSize) =
            (case IsEdns0 req of
               Some opt \<Rightarrow>
                 (let cs = opt_udp_size opt;
                      size0 = (if cs \<ge> 512 then cs else 512);
                      udpSize = (if size0 > serverUDPSize then serverUDPSize else size0) in
                  (SetEdns0 (srv_stripOPT m) serverUDPSize (opt_do opt), udpSize))
             | None \<Rightarrow> (srv_stripOPT m, 512)) in
      if \<not> isTCP w then rq_truncate rq udpSize m1 else m1)"

definition respond :: "request_env \<Rightarrow> writer \<Rightarrow> dns_msg \<Rightarrow> dns_msg \<Rightarrow> server \<Rightarrow> server" where
  "respond rq w req m sv = sv\<lparr>sv_out := sv_out sv @ [finalize rq w req m]\<rparr>"

definition refuse :: "request_env \<Rightarrow> writer \<Rightarrow> dns_msg \<Rightarrow> nat \<Rightarrow> server \<Rightarrow> server" where
  "refuse rq w req rcode sv = respond rq w req (SetRcode new_msg req rcode) sv"

definition serveForwarded :: "request_env \<Rightarrow> writer \<Rightarrow> dns_msg \<Rightarrow> dns_msg \<Rightarrow> snapshot \<Rightarrow> server \<Rightarrow> server" where
  "serveForwarded rq w req resp snap sv =
     respond rq w req (applyRebindFilter (resp\<lparr>msg_id := msg_id req\<rparr>) (s_allow_suffix snap)) sv"

definition log_line :: "string \<Rightarrow> server \<Rightarrow> server" where
  "log_line s sv = sv\<lparr>sv_log := sv_log sv @ [s]\<rparr>"

text \<open>
  The plain forward, used for stub zones: \<open>run\<close> is the call on the forwarder and
  \<open>rebind\<close> asks for the filter.
\<close>

definition srv_forward ::
    "request_env \<Rightarrow> writer \<Rightarrow> dns_msg \<Rightarrow> (fw_state \<Rightarrow> fw_result option) \<Rightarrow> bool \<Rightarrow> snapshot \<Rightarrow>
     srv_result \<Rightarrow> server \<Rightarrow> (srv_result \<times> server) option" where
  "srv_forward rq w req run rebind snap res sv =
     (case sv_fw sv of
        None \<Rightarrow> Some (res, refuse rq w req RcodeServerFailure sv)
      | Some fw \<Rightarrow>
          do {
            ((resp, err), fw') \<leftarrow> run fw;
            let sv1 = sv\<lparr>sv_fw := Some fw'\<rparr>;
            case (err, resp) of
              (None, Some m) \<Rightarrow>
                (let m1 = m\<lparr>msg_id := msg_id req\<rparr>;
                     m2 = (if rebind then applyRebindFilter m1 (s_allow_suffix snap) else m1) in
                 Some (res\<lparr>res_rcode := msg_rcode m\<rparr>, respond rq w req m2 sv1))
            | _ \<Rightarrow> Some (res, refuse rq w req RcodeServerFailure (log_line (''forward '' @ fw_qname req) sv1)) })"

section \<open>The cached forward path\<close>

text \<open>The cache key of a request, when there is a cache and the request has one.\<close>

definition cache_key :: "dns_msg \<Rightarrow> server \<Rightarrow> ac_key option" where
  "cache_key req sv = (case sv_cache sv of None \<Rightarrow> None | Some c \<Rightarrow> KeyFor req)"

definition with_cache :: "(ac_cache \<Rightarrow> ac_cache) \<Rightarrow> server \<Rightarrow> server" where
  "with_cache f sv = sv\<lparr>sv_cache := map_option f (sv_cache sv)\<rparr>"

text \<open>No live answer: the stale one if there is one, else SERVFAIL and a cached failure.\<close>

definition forward_failed ::
    "request_env \<Rightarrow> writer \<Rightarrow> dns_msg \<Rightarrow> snapshot \<Rightarrow> ac_key option \<Rightarrow> dns_msg option \<Rightarrow>
     srv_result \<Rightarrow> server \<Rightarrow> srv_result \<times> server" where
  "forward_failed rq w req snap key stale res sv =
     (case stale of
        Some m \<Rightarrow>
          (res\<lparr>res_decision := dStale, res_rcode := msg_rcode m\<rparr>,
           serveForwarded rq w req m snap (if key \<noteq> None then with_cache NoteStaleServed sv else sv))
      | None \<Rightarrow>
          (res, refuse rq w req RcodeServerFailure
             (case key of None \<Rightarrow> sv | Some k \<Rightarrow> with_cache (StoreFail (rq_store_time rq) k) sv)))"

text \<open>The live part: ask the upstreams, then cache, fall back to a stale answer, or fail.\<close>

definition forward_live ::
    "request_env \<Rightarrow> writer \<Rightarrow> dns_msg \<Rightarrow> snapshot \<Rightarrow> ac_key option \<Rightarrow> dns_msg option \<Rightarrow> fw_state \<Rightarrow>
     srv_result \<Rightarrow> server \<Rightarrow> (srv_result \<times> server) option" where
  "forward_live rq w req snap key stale fw res sv =
     do {
       ((resp, err), fw') \<leftarrow> Forward (rq_net rq) req fw;
       let sv1 = sv\<lparr>sv_fw := Some fw'\<rparr>;
       case (if err = None then resp else None) of
         Some m \<Rightarrow>
           if cacheableRcode (msg_rcode m) then
             (let sv2 = (case key of None \<Rightarrow> sv1 | Some k \<Rightarrow> with_cache (ac_store (rq_store_time rq) k m) sv1) in
              Some (res\<lparr>res_rcode := msg_rcode m\<rparr>, serveForwarded rq w req m snap sv2))
           else Some (forward_failed rq w req snap key stale res sv1)
       | None \<Rightarrow>
           Some (forward_failed rq w req snap key stale res
             (if err \<noteq> None then log_line (''forward '' @ fw_qname req) sv1 else sv1)) }"

definition forwardCached ::
    "request_env \<Rightarrow> writer \<Rightarrow> dns_msg \<Rightarrow> snapshot \<Rightarrow> srv_result \<Rightarrow> server \<Rightarrow> (srv_result \<times> server) option" where
  "forwardCached rq w req snap res0 sv =
     (let res = res0\<lparr>res_decision := dForward\<rparr> in
      case sv_fw sv of
        None \<Rightarrow> Some (res, refuse rq w req RcodeServerFailure sv)
      | Some fw \<Rightarrow>
          (case (cache_key req sv, sv_cache sv) of
             (Some k, Some c) \<Rightarrow>
               (let ((msg, hit), c') = ac_lookup (rq_lookup_time rq) k c; sv1 = sv\<lparr>sv_cache := Some c'\<rparr> in
                case (hit, msg) of
                  (Fresh, Some m) \<Rightarrow>
                    Some (res\<lparr>res_decision := dCacheHit, res_rcode := msg_rcode m\<rparr>,
                      serveForwarded rq w req m snap sv1)
                | (Fail, _) \<Rightarrow> Some (res, refuse rq w req RcodeServerFailure sv1)
                | (Stale, _) \<Rightarrow> forward_live rq w req snap (Some k) msg fw res sv1
                | _ \<Rightarrow> forward_live rq w req snap (Some k) None fw res sv1)
           | _ \<Rightarrow> forward_live rq w req snap None None fw res sv))"

section \<open>The handler\<close>

definition RcodeToString :: "(nat, string) gomap" where
  "RcodeToString =
     [(0, ''NOERROR''), (1, ''FORMERR''), (2, ''SERVFAIL''), (3, ''NXDOMAIN''), (4, ''NOTIMP''),
      (5, ''REFUSED''), (6, ''YXDOMAIN''), (7, ''YXRRSET''), (8, ''NXRRSET''), (9, ''NOTAUTH''),
      (10, ''NOTZONE''), (11, ''DSOTYPENI''), (16, ''BADSIG''), (17, ''BADKEY''), (18, ''BADTIME''),
      (19, ''BADMODE''), (20, ''BADNAME''), (21, ''BADALG''), (22, ''BADTRUNC''), (23, ''BADCOOKIE'')]"

definition recordQuery :: "request_env \<Rightarrow> writer \<Rightarrow> dns_msg \<Rightarrow> srv_result \<Rightarrow> server \<Rightarrow> server" where
  "recordQuery rq w req res sv =
     (case msg_question req of
        [q] \<Rightarrow>
          sv\<lparr>sv_qlog := map_option
            (ql_record \<lparr>qe_seq = 0, qe_time = rq_start rq, qe_client = clientIP (w_remote w),
               qe_transport = transportOf w, qe_name = q_name q, qe_qtype = gm_str TypeToString (q_type q),
               qe_decision = res_decision res, qe_rcode = gm_str RcodeToString (res_rcode res),
               qe_latency = rq_finish rq - rq_start rq\<rparr>) (sv_qlog sv)\<rparr>
      | _ \<Rightarrow> sv)"

definition or_empty_view :: "mdns_view option \<Rightarrow> mdns_view" where
  "or_empty_view v = (case v of None \<Rightarrow> empty_view | Some v \<Rightarrow> v)"

definition the_snapshot :: "request_env \<Rightarrow> snapshot" where
  "the_snapshot rq = (case rq_snapshot rq of None \<Rightarrow> empty_snapshot | Some s \<Rightarrow> s)"

text \<open>
  The on-demand solicitation: the slot of the main limiter is given back first, a slot of
  the waiter limiter is taken if there is one, held during the call and given back, and
  the query is resolved again against the view of then.  \<open>sv_waits\<close> notes the slots in
  use, of the main limiter and of the waiter limiter, during each such call.
\<close>

definition solicit :: "request_env \<Rightarrow> writer \<Rightarrow> string \<Rightarrow> server \<Rightarrow> server" where
  "solicit rq w label sv =
     (if sv_od_sem sv < odWaiters then
        (let sv1 = sv\<lparr>sv_od_sem := sv_od_sem sv + 1\<rparr>;
             sv2 = sv1\<lparr>sv_solicited := sv_solicited sv1 @ [(label, clientIP (w_remote w))],
                       sv_waits := sv_waits sv1 @ [(sv_sem sv1, sv_od_sem sv1)]\<rparr> in
         sv2\<lparr>sv_od_sem := sv_od_sem sv2 - 1\<rparr>)
      else sv)"

definition on_demand ::
    "request_env \<Rightarrow> writer \<Rightarrow> dns_msg \<Rightarrow> outcome \<Rightarrow> server \<Rightarrow> outcome \<times> bool \<times> server" where
  "on_demand rq w req out sv =
     (if o_local_miss out \<and> sc_on_demand (sv_cfg sv) then
        (Resolve (rq_newRR rq) (the_snapshot rq) (or_empty_view (rq_view_after rq)) req, False,
         solicit rq w (o_local_label out) (sv\<lparr>sv_sem := sv_sem sv - 1\<rparr>))
      else (out, True, sv))"

text \<open>What the handler does with an outcome.\<close>

definition dispatch ::
    "request_env \<Rightarrow> writer \<Rightarrow> dns_msg \<Rightarrow> outcome \<Rightarrow> srv_result \<Rightarrow> server \<Rightarrow> (srv_result \<times> server) option" where
  "dispatch rq w req out res sv =
     (case o_msg out of
        Some m \<Rightarrow> Some (\<lparr>res_decision = dLocal, res_rcode = msg_rcode m\<rparr>, respond rq w req m sv)
      | None \<Rightarrow>
          if o_stub out \<noteq> [] then
            srv_forward rq w req (ForwardTo (rq_net rq) (o_stub out) req) False (the_snapshot rq)
              (res\<lparr>res_decision := dStub\<rparr>) sv
          else if o_forward out then forwardCached rq w req (the_snapshot rq) res sv
          else Some (res, refuse rq w req RcodeServerFailure sv))"

definition handle :: "request_env \<Rightarrow> writer \<Rightarrow> dns_msg \<Rightarrow> server \<Rightarrow> (srv_result \<times> server) option" where
  "handle rq w req sv =
     (let ip = clientIP (w_remote w); res = \<lparr>res_decision = dServfail, res_rcode = RcodeServerFailure\<rparr> in
      if IsValid ip \<and> \<not> Allowed (sc_access (sv_cfg sv)) ip then
        Some (\<lparr>res_decision = dRefused, res_rcode = RcodeRefused\<rparr>, refuse rq w req RcodeRefused sv)
      else if int (sv_sem sv) \<ge> sc_max_inflight (sv_cfg sv) then
        Some (res\<lparr>res_decision := dDropped\<rparr>,
          if isTCP w then refuse rq w req RcodeServerFailure sv else sv)
      else
        (let sv1 = sv\<lparr>sv_sem := sv_sem sv + 1\<rparr>;
             out0 = Resolve (rq_newRR rq) (the_snapshot rq) (or_empty_view (rq_view rq)) req;
             (out, hold, sv2) = on_demand rq w req out0 sv1 in
         do {
           (res', sv3) \<leftarrow> dispatch rq w req out res sv2;
           Some (res', if hold then sv3\<lparr>sv_sem := sv_sem sv3 - 1\<rparr> else sv3) }))"

definition ServeDNS :: "request_env \<Rightarrow> writer \<Rightarrow> dns_msg \<Rightarrow> server \<Rightarrow> server option" where
  "ServeDNS rq w req sv =
     do { (res, sv') \<leftarrow> handle rq w req sv; Some (recordQuery rq w req res sv') }"

section \<open>Frames\<close>

lemma respond_simps [simp]:
  "sv_out (respond rq w req m sv) = sv_out sv @ [finalize rq w req m]"
  "sv_sem (respond rq w req m sv) = sv_sem sv" "sv_od_sem (respond rq w req m sv) = sv_od_sem sv"
  "sv_cfg (respond rq w req m sv) = sv_cfg sv" "sv_cache (respond rq w req m sv) = sv_cache sv"
  "sv_fw (respond rq w req m sv) = sv_fw sv" "sv_solicited (respond rq w req m sv) = sv_solicited sv"
  "sv_waits (respond rq w req m sv) = sv_waits sv"
  by (simp_all add: respond_def)

lemma log_line_simps [simp]:
  "sv_out (log_line s sv) = sv_out sv" "sv_sem (log_line s sv) = sv_sem sv"
  "sv_od_sem (log_line s sv) = sv_od_sem sv" "sv_cfg (log_line s sv) = sv_cfg sv"
  "sv_cache (log_line s sv) = sv_cache sv" "sv_fw (log_line s sv) = sv_fw sv"
  "sv_waits (log_line s sv) = sv_waits sv"
  by (simp_all add: log_line_def)

lemma with_cache_simps [simp]:
  "sv_out (with_cache f sv) = sv_out sv" "sv_sem (with_cache f sv) = sv_sem sv"
  "sv_od_sem (with_cache f sv) = sv_od_sem sv" "sv_cfg (with_cache f sv) = sv_cfg sv"
  "sv_cache (with_cache f sv) = map_option f (sv_cache sv)" "sv_fw (with_cache f sv) = sv_fw sv"
  "sv_waits (with_cache f sv) = sv_waits sv"
  by (simp_all add: with_cache_def)

lemma recordQuery_simps [simp]:
  "sv_out (recordQuery rq w req res sv) = sv_out sv" "sv_sem (recordQuery rq w req res sv) = sv_sem sv"
  "sv_od_sem (recordQuery rq w req res sv) = sv_od_sem sv" "sv_cfg (recordQuery rq w req res sv) = sv_cfg sv"
  "sv_cache (recordQuery rq w req res sv) = sv_cache sv" "sv_fw (recordQuery rq w req res sv) = sv_fw sv"
  "sv_solicited (recordQuery rq w req res sv) = sv_solicited sv" "sv_waits (recordQuery rq w req res sv) = sv_waits sv"
  by (auto simp: recordQuery_def split: list.splits)

text \<open>One step that writes exactly the reply \<open>m\<close> and leaves the limiters and the configuration alone.\<close>

definition replies :: "server \<Rightarrow> dns_msg \<Rightarrow> server \<Rightarrow> bool" where
  "replies sv m sv' \<longleftrightarrow> sv_out sv' = sv_out sv @ [m] \<and> sv_sem sv' = sv_sem sv \<and>
     sv_od_sem sv' = sv_od_sem sv \<and> sv_cfg sv' = sv_cfg sv \<and> sv_waits sv' = sv_waits sv"

definition fw_ready :: "server \<Rightarrow> bool" where
  "fw_ready sv \<longleftrightarrow> (\<forall>fw. sv_fw sv = Some fw \<longrightarrow> fw_inv (st_fw fw))"

lemma replies_upd:
  "replies (sv\<lparr>sv_fw := f\<rparr>) m sv' = replies sv m sv'" "replies (sv\<lparr>sv_cache := c\<rparr>) m sv' = replies sv m sv'"
  "replies (log_line s sv) m sv' = replies sv m sv'" "replies (with_cache g sv) m sv' = replies sv m sv'"
  by (simp_all add: replies_def)

lemma replies_respond: "replies sv (finalize rq w req m) (respond rq w req m sv)"
  by (simp add: replies_def)

lemma fw_ready_respond [simp]: "fw_ready (respond rq w req m sv) = fw_ready sv"
  by (simp add: fw_ready_def)

lemma fw_ready_upd [simp]:
  "fw_ready (log_line s sv) = fw_ready sv" "fw_ready (with_cache g sv) = fw_ready sv"
  "fw_ready (recordQuery rq w req res sv) = fw_ready sv" "fw_ready (sv\<lparr>sv_sem := n\<rparr>) = fw_ready sv"
  "fw_ready (sv\<lparr>sv_cache := c\<rparr>) = fw_ready sv" "fw_ready (sv\<lparr>sv_fw := Some fw\<rparr>) = fw_inv (st_fw fw)"
  by (simp_all add: fw_ready_def)

section \<open>Rebinding\<close>

text \<open>
  What the library promises of truncating a message: records are only removed, and
  the question, the identifier and the response code stay.
\<close>

definition truncates :: "(nat \<Rightarrow> dns_msg \<Rightarrow> dns_msg) \<Rightarrow> bool" where
  "truncates t \<longleftrightarrow> (\<forall>n m. set (msg_answer (t n m)) \<subseteq> set (msg_answer m) \<and>
     set (msg_ns (t n m)) \<subseteq> set (msg_ns m) \<and> set (msg_extra (t n m)) \<subseteq> set (msg_extra m) \<and> msg_question (t n m) = msg_question m \<and>
     msg_id (t n m) = msg_id m \<and> msg_rcode (t n m) = msg_rcode m)"

lemma finalize_truncates:
  assumes "truncates (rq_truncate rq)"
  shows "set (msg_answer (finalize rq w req m)) \<subseteq> set (msg_answer m)"
    "msg_question (finalize rq w req m) = msg_question m" "msg_id (finalize rq w req m) = msg_id m"
    "msg_rcode (finalize rq w req m) = msg_rcode m"
proof -
  have t: "set (msg_answer (rq_truncate rq n x)) \<subseteq> set (msg_answer x)" "msg_question (rq_truncate rq n x) = msg_question x"
    "msg_id (rq_truncate rq n x) = msg_id x" "msg_rcode (rq_truncate rq n x) = msg_rcode x" for n x
    using assms by (auto simp: truncates_def)
  show "set (msg_answer (finalize rq w req m)) \<subseteq> set (msg_answer m)"
    "msg_question (finalize rq w req m) = msg_question m" "msg_id (finalize rq w req m) = msg_id m"
    "msg_rcode (finalize rq w req m) = msg_rcode m"
    using t(1) [of _ "srv_stripOPT m"] t(1) [of _ "SetEdns0 (srv_stripOPT m) serverUDPSize _"]
    by (auto simp: finalize_def t(2-4) srv_stripOPT_def SetEdns0_def Let_def split: option.splits)
qed

lemma finalize_no_records:
  assumes "truncates (rq_truncate rq)" "msg_answer m = []" "msg_ns m = []" "msg_extra m = []"
  shows "msg_answer (finalize rq w req m) = [] \<and> msg_ns (finalize rq w req m) = [] \<and>
    list_all is_opt (msg_extra (finalize rq w req m))"
proof -
  let ?plain = "srv_stripOPT m" and ?edns = "\<lambda>d. SetEdns0 (srv_stripOPT m) serverUDPSize d"
  have t: "set (msg_answer (rq_truncate rq n x)) \<subseteq> set (msg_answer x)" "set (msg_ns (rq_truncate rq n x)) \<subseteq> set (msg_ns x)"
    "set (msg_extra (rq_truncate rq n x)) \<subseteq> set (msg_extra x)" for n x
    using assms(1) by (auto simp: truncates_def)
  have m: "msg_answer ?plain = []" "msg_ns ?plain = []" "msg_extra ?plain = []"
    "msg_answer (?edns d) = []" "msg_ns (?edns d) = []" "list_all is_opt (msg_extra (?edns d))" for d
    using assms(2-4) by (simp_all add: srv_stripOPT_def SetEdns0_def is_opt_def opt_rr_def)
  have "msg_answer (rq_truncate rq n x) = [] \<and> msg_ns (rq_truncate rq n x) = [] \<and> list_all is_opt (msg_extra (rq_truncate rq n x))"
    if "msg_answer x = []" "msg_ns x = []" "list_all is_opt (msg_extra x)" for n x
    using t [of n x] that by (auto simp: list_all_iff)
  then show ?thesis
    using m by (simp add: finalize_def Let_def split: option.splits)
qed

definition under_allowed :: "string list \<Rightarrow> dns_msg \<Rightarrow> bool" where
  "under_allowed allow m = (case msg_question m of [] \<Rightarrow> False | q # _ \<Rightarrow> underAllow (ToLower (q_name q)) allow)"

definition rebind_safe :: "string list \<Rightarrow> dns_msg \<Rightarrow> bool" where
  "rebind_safe allow m \<longleftrightarrow> under_allowed allow m \<or> (\<forall>r\<in>set (msg_answer m). \<not> rebind_blocked r)"

lemma applyRebindFilter_safe: "rebind_safe allow (applyRebindFilter m allow)"
  by (auto simp: rebind_safe_def under_allowed_def applyRebindFilter_def split: list.splits)

lemma finalize_safe:
  assumes "truncates (rq_truncate rq)" "rebind_safe allow m"
  shows "rebind_safe allow (finalize rq w req m)"
  using assms(2) finalize_truncates(1,2) [OF assms(1), of w req m]
  by (auto simp: rebind_safe_def under_allowed_def)

lemma refuse_replies:
  "\<exists>m. replies sv m (refuse rq w req rc sv) \<and> (truncates (rq_truncate rq) \<longrightarrow> rebind_safe allow m)"
proof -
  have "msg_answer (SetRcode new_msg req rc) = []"
    by (simp add: SetRcode_def SetReply_def new_msg_def Let_def split: list.splits)
  then have "rebind_safe allow (SetRcode new_msg req rc)"
    by (simp add: rebind_safe_def)
  then show ?thesis
    using replies_respond finalize_safe unfolding refuse_def by blast
qed

lemma serveForwarded_replies:
  "\<exists>m'. replies sv m' (serveForwarded rq w req m snap sv) \<and>
     (truncates (rq_truncate rq) \<longrightarrow> rebind_safe (s_allow_suffix snap) m')"
  unfolding serveForwarded_def using replies_respond finalize_safe applyRebindFilter_safe by blast

text \<open>The reply of the path to the default upstreams: one, and filtered.\<close>

definition safe_reply :: "request_env \<Rightarrow> snapshot \<Rightarrow> server \<Rightarrow> server \<Rightarrow> bool" where
  "safe_reply rq snap sv sv' \<longleftrightarrow>
     (\<exists>m. replies sv m sv' \<and> (truncates (rq_truncate rq) \<longrightarrow> rebind_safe (s_allow_suffix snap) m))"

lemma safe_reply_upd [simp]:
  "safe_reply rq snap (sv\<lparr>sv_fw := f\<rparr>) sv' = safe_reply rq snap sv sv'"
  "safe_reply rq snap (sv\<lparr>sv_cache := c\<rparr>) sv' = safe_reply rq snap sv sv'"
  "safe_reply rq snap (log_line s sv) sv' = safe_reply rq snap sv sv'"
  "safe_reply rq snap (with_cache g sv) sv' = safe_reply rq snap sv sv'"
  by (simp_all add: safe_reply_def replies_upd)

lemma safe_reply_refuse: "safe_reply rq snap sv (refuse rq w req rc sv)"
  unfolding safe_reply_def by (rule refuse_replies)

lemma safe_reply_serve: "safe_reply rq snap sv (serveForwarded rq w req m snap sv)"
  unfolding safe_reply_def by (rule serveForwarded_replies)

lemma fw_ready_refuse [simp]: "fw_ready (refuse rq w req rc sv) = fw_ready sv"
  by (simp add: refuse_def)

lemma fw_ready_serve [simp]: "fw_ready (serveForwarded rq w req m snap sv) = fw_ready sv"
  by (simp add: serveForwarded_def)

lemma forward_failed_safe:
  assumes "forward_failed rq w req snap key stale res sv = (res', sv')"
  shows "safe_reply rq snap sv sv' \<and> fw_ready sv' = fw_ready sv"
proof (cases stale)
  case None
  then show ?thesis
    using assms safe_reply_refuse [of rq snap _ w req RcodeServerFailure]
    by (cases key) (auto simp: forward_failed_def, metis safe_reply_upd(4))
next
  case (Some m)
  then show ?thesis
    using assms safe_reply_serve [of rq snap _ w req m]
    by (auto simp: forward_failed_def split: if_splits) (metis safe_reply_upd(4))
qed

lemma Forward_ready:
  assumes "fw_inv (st_fw fw)"
  shows "\<exists>resp err fw'. Forward env req fw = Some ((resp, err), fw') \<and> fw_inv (st_fw fw')"
  using Forward_rounds [OF assms] unfolding forward_rounds_def by blast

lemma forward_live_safe:
  assumes "fw_inv (st_fw fw)"
  shows "\<exists>res' sv'. forward_live rq w req snap key stale fw res sv = Some (res', sv') \<and>
    safe_reply rq snap sv sv' \<and> fw_ready sv'"
proof -
  obtain resp err fw' where f: "Forward (rq_net rq) req fw = Some ((resp, err), fw')" "fw_inv (st_fw fw')"
    using Forward_ready [OF assms] by blast
  let ?sv1 = "sv\<lparr>sv_fw := Some fw'\<rparr>"
  let ?svl = "if err \<noteq> None then log_line (''forward '' @ fw_qname req) ?sv1 else ?sv1"
  have failed: "\<exists>res' sv'. forward_failed rq w req snap key stale res s = (res', sv') \<and>
      safe_reply rq snap sv sv' \<and> fw_ready sv'" if "s = ?sv1 \<or> s = ?svl" for s
  proof -
    obtain res' sv' where r: "forward_failed rq w req snap key stale res s = (res', sv')"
      by fastforce
    show ?thesis
      using forward_failed_safe [OF r] r that f(2) by (auto split: if_splits)
  qed
  show ?thesis
  proof (cases "if err = None then resp else None")
    case None
    then show ?thesis
      using f(1) failed [of ?svl] by (auto simp: forward_live_def)
  next
    case (Some m)
    let ?sv2 = "case key of None \<Rightarrow> ?sv1 | Some k \<Rightarrow> with_cache (ac_store (rq_store_time rq) k m) ?sv1"
    have "safe_reply rq snap ?sv2 (serveForwarded rq w req m snap ?sv2)"
      by (rule safe_reply_serve)
    then have "safe_reply rq snap sv (serveForwarded rq w req m snap ?sv2)" "fw_ready ?sv2"
      using f(2) by (cases key; simp)+
    then show ?thesis
      using Some f(1) failed [of ?sv1]
      by (cases "cacheableRcode (msg_rcode m)") (auto simp: forward_live_def Let_def)
  qed
qed

lemma forwardCached_safe:
  assumes "fw_ready sv"
  shows "\<exists>res' sv'. forwardCached rq w req snap res sv = Some (res', sv') \<and>
    safe_reply rq snap sv sv' \<and> fw_ready sv'"
proof (cases "sv_fw sv")
  case None
  then show ?thesis
    using assms safe_reply_refuse by (simp add: forwardCached_def)
next
  case (Some fw)
  then have inv: "fw_inv (st_fw fw)"
    using assms by (simp add: fw_ready_def)
  have live: "\<exists>res' sv'. forward_live rq w req snap key stale fw r (sv\<lparr>sv_cache := c\<rparr>) = Some (res', sv') \<and>
      safe_reply rq snap sv sv' \<and> fw_ready sv'" for key stale r c
    using forward_live_safe [OF inv, of rq w req snap key stale r "sv\<lparr>sv_cache := c\<rparr>"] by simp
  have ended: "safe_reply rq snap sv (serveForwarded rq w req m snap (sv\<lparr>sv_cache := c\<rparr>))"
    "safe_reply rq snap sv (refuse rq w req rc (sv\<lparr>sv_cache := c\<rparr>))" for m c rc
    using safe_reply_serve [of rq snap "sv\<lparr>sv_cache := c\<rparr>"] safe_reply_refuse [of rq snap "sv\<lparr>sv_cache := c\<rparr>"]
    by simp_all
  show ?thesis
  proof (cases "\<exists>k c. cache_key req sv = Some k \<and> sv_cache sv = Some c")
    case True
    then obtain k c where kc: "cache_key req sv = Some k" "sv_cache sv = Some c"
      by blast
    obtain msg hit c' where l: "ac_lookup (rq_lookup_time rq) k c = ((msg, hit), c')"
      by (metis prod.collapse)
    show ?thesis
      using Some kc l live ended assms
      by (cases hit; cases msg) (simp_all add: forwardCached_def)
  next
    case False
    then have "forwardCached rq w req snap res sv =
        forward_live rq w req snap None None fw (res\<lparr>res_decision := dForward\<rparr>) sv"
      using Some by (cases "sv_cache sv"; cases "cache_key req sv") (simp_all add: forwardCached_def Let_def)
    then show ?thesis
      using forward_live_safe [OF inv, of rq w req snap None None "res\<lparr>res_decision := dForward\<rparr>" sv] by simp
  qed
qed

lemma srv_forward_replies:
  assumes "fw_ready sv" "\<And>fw. fw_inv (st_fw fw) \<Longrightarrow> \<exists>r fw'. run fw = Some (r, fw') \<and> fw_inv (st_fw fw')"
  shows "\<exists>res' sv' m. srv_forward rq w req run rebind snap res sv = Some (res', sv') \<and> replies sv m sv' \<and> fw_ready sv'"
proof (cases "sv_fw sv")
  case None
  then show ?thesis
    using assms(1) replies_respond by (simp add: srv_forward_def refuse_def) blast
next
  case (Some fw)
  then obtain resp err fw' where r: "run fw = Some ((resp, err), fw')" "fw_inv (st_fw fw')"
    using assms by (fastforce simp: fw_ready_def)
  let ?sv1 = "sv\<lparr>sv_fw := Some fw'\<rparr>"
  have "replies sv (finalize rq w req m) (respond rq w req m ?sv1)"
    "replies sv (finalize rq w req m) (respond rq w req m (log_line s ?sv1))" for m s
    using replies_respond [of ?sv1] replies_respond [of "log_line s ?sv1"] by (simp_all only: replies_upd)
  then show ?thesis
    using Some r by (cases err; cases resp) (auto simp: srv_forward_def refuse_def Let_def; blast)+
qed

lemma dispatch_replies:
  assumes "fw_ready sv"
  shows "\<exists>res' sv' m. dispatch rq w req out res sv = Some (res', sv') \<and> replies sv m sv' \<and> fw_ready sv' \<and>
    (o_msg out = None \<longrightarrow> o_stub out = [] \<longrightarrow> truncates (rq_truncate rq) \<longrightarrow>
       rebind_safe (s_allow_suffix (the_snapshot rq)) m)"
proof (cases "o_msg out")
  case (Some m)
  then show ?thesis
    using assms replies_respond by (simp add: dispatch_def) blast
next
  case None
  consider "o_stub out \<noteq> []" | "o_stub out = []" "o_forward out" | "o_stub out = []" "\<not> o_forward out"
    by blast
  then show ?thesis
  proof cases
    case 1
    have "\<exists>r fw'. ForwardTo (rq_net rq) (o_stub out) req fw = Some (r, fw') \<and> fw_inv (st_fw fw')"
      if "fw_inv (st_fw fw)" for fw
      using ForwardTo_spec [OF that, of "rq_net rq" "o_stub out" req] by auto
    from srv_forward_replies [OF assms this] show ?thesis
      using None 1 by (simp add: dispatch_def)
  next
    case 2
    then show ?thesis
      using None forwardCached_safe [OF assms, of rq w req "the_snapshot rq" res]
      by (auto simp: dispatch_def safe_reply_def)
  next
    case 3
    then show ?thesis
      using None assms refuse_replies [of sv rq w req] by (simp add: dispatch_def)
  qed
qed

text \<open>The outcome the handler acts on: the second one after a solicitation.\<close>

definition final_outcome :: "request_env \<Rightarrow> server \<Rightarrow> dns_msg \<Rightarrow> outcome" where
  "final_outcome rq sv req =
     (let out = Resolve (rq_newRR rq) (the_snapshot rq) (or_empty_view (rq_view rq)) req in
      if o_local_miss out \<and> sc_on_demand (sv_cfg sv)
      then Resolve (rq_newRR rq) (the_snapshot rq) (or_empty_view (rq_view_after rq)) req else out)"

definition refused :: "writer \<Rightarrow> server \<Rightarrow> bool" where
  "refused w sv \<longleftrightarrow> IsValid (clientIP (w_remote w)) \<and> \<not> Allowed (sc_access (sv_cfg sv)) (clientIP (w_remote w))"

definition at_capacity :: "server \<Rightarrow> bool" where
  "at_capacity sv \<longleftrightarrow> sc_max_inflight (sv_cfg sv) \<le> int (sv_sem sv)"

lemma solicit_simps [simp]:
  "sv_out (solicit rq w l sv) = sv_out sv" "sv_sem (solicit rq w l sv) = sv_sem sv"
  "sv_od_sem (solicit rq w l sv) = sv_od_sem sv" "sv_cfg (solicit rq w l sv) = sv_cfg sv"
  "sv_fw (solicit rq w l sv) = sv_fw sv" "sv_cache (solicit rq w l sv) = sv_cache sv"
  "sv_waits (solicit rq w l sv) =
     (if sv_od_sem sv < odWaiters then sv_waits sv @ [(sv_sem sv, sv_od_sem sv + 1)] else sv_waits sv)"
  by (simp_all add: solicit_def Let_def)

text \<open>
  The waits a request adds: at most one, in which the request holds no slot of the
  main limiter and one of the at most 64 slots for waiters.
\<close>

definition waits_ok :: "server \<Rightarrow> server \<Rightarrow> bool" where
  "waits_ok sv sv' \<longleftrightarrow> sv_waits sv' = sv_waits sv \<or>
     (sv_od_sem sv < odWaiters \<and> sv_waits sv' = sv_waits sv @ [(sv_sem sv, sv_od_sem sv + 1)])"

lemma handle_admitted:
  assumes "fw_ready sv" "\<not> refused w sv" "\<not> at_capacity sv"
  shows "\<exists>res sv' m. handle rq w req sv = Some (res, sv') \<and> sv_out sv' = sv_out sv @ [m] \<and> sv_sem sv' = sv_sem sv \<and>
    sv_od_sem sv' = sv_od_sem sv \<and> waits_ok sv sv' \<and> fw_ready sv' \<and>
    (let out = final_outcome rq sv req in
     o_msg out = None \<longrightarrow> o_stub out = [] \<longrightarrow> truncates (rq_truncate rq) \<longrightarrow>
       rebind_safe (s_allow_suffix (the_snapshot rq)) m)"
proof -
  let ?out0 = "Resolve (rq_newRR rq) (the_snapshot rq) (or_empty_view (rq_view rq)) req"
  let ?res = "\<lparr>res_decision = dServfail, res_rcode = RcodeServerFailure\<rparr>"
  obtain out hold sv2 where o: "on_demand rq w req ?out0 (sv\<lparr>sv_sem := sv_sem sv + 1\<rparr>) = (out, hold, sv2)"
    by (metis prod_cases3)
  have sv2: "out = final_outcome rq sv req" "fw_ready sv2" "sv_out sv2 = sv_out sv" "sv_od_sem sv2 = sv_od_sem sv"
    "sv_cfg sv2 = sv_cfg sv" "sv_sem sv2 = (if hold then sv_sem sv + 1 else sv_sem sv)" "waits_ok sv sv2"
    using o assms(1) by (auto simp: on_demand_def final_outcome_def fw_ready_def waits_ok_def Let_def split: if_splits)
  obtain res' sv3 m where d: "dispatch rq w req out ?res sv2 = Some (res', sv3)" "replies sv2 m sv3" "fw_ready sv3"
    "o_msg out = None \<longrightarrow> o_stub out = [] \<longrightarrow> truncates (rq_truncate rq) \<longrightarrow>
       rebind_safe (s_allow_suffix (the_snapshot rq)) m"
    using dispatch_replies [OF sv2(2)] by blast
  let ?sv' = "if hold then sv3\<lparr>sv_sem := sv_sem sv3 - 1\<rparr> else sv3"
  have "handle rq w req sv = Some (res', ?sv')"
    unfolding handle_def Let_def refused_def [symmetric] at_capacity_def [symmetric]
    using assms(2,3) o d(1) by simp
  moreover have "sv_out ?sv' = sv_out sv @ [m]" "sv_sem ?sv' = sv_sem sv" "sv_od_sem ?sv' = sv_od_sem sv" "waits_ok sv ?sv'"
    "fw_ready ?sv'"
    using d(2,3) sv2 by (simp_all add: replies_def waits_ok_def)
  ultimately show ?thesis
    using d(4) sv2(1) by (auto simp: Let_def)
qed

lemma handle_refused:
  "refused w sv \<Longrightarrow> handle rq w req sv =
     Some (\<lparr>res_decision = dRefused, res_rcode = RcodeRefused\<rparr>, refuse rq w req RcodeRefused sv)"
  unfolding handle_def Let_def refused_def [symmetric] by simp

lemma handle_at_capacity:
  "\<not> refused w sv \<Longrightarrow> at_capacity sv \<Longrightarrow> handle rq w req sv =
     Some (\<lparr>res_decision = dDropped, res_rcode = RcodeServerFailure\<rparr>,
       if isTCP w then refuse rq w req RcodeServerFailure sv else sv)"
  unfolding handle_def Let_def refused_def [symmetric] at_capacity_def [symmetric] by simp

section \<open>The handler\<close>

text \<open>
  C15. Every request is answered once and leaves no slot behind: with a forwarder in a
  state it can reach, the handler returns, writes exactly one reply (none only when a
  UDP query from an admitted client meets a full limiter), and both limiters are as
  they were, on every path.  A request waits for the local network at most once; during
  the wait it holds no slot of the main limiter, and one of the 64 slots for waiters,
  which it takes before and gives back after.
\<close>

theorem ServeDNS_one_reply:
  assumes "fw_ready sv"
  shows "\<exists>sv' ms. ServeDNS rq w req sv = Some sv' \<and> sv_out sv' = sv_out sv @ ms \<and>
    length ms = (if at_capacity sv \<and> \<not> refused w sv \<and> \<not> isTCP w then 0 else 1) \<and>
    sv_sem sv' = sv_sem sv \<and> sv_od_sem sv' = sv_od_sem sv \<and> fw_ready sv' \<and>
    (sv_waits sv' = sv_waits sv \<or>
     (sv_waits sv' = sv_waits sv @ [(sv_sem sv, sv_od_sem sv + 1)] \<and> sv_od_sem sv + 1 \<le> odWaiters))"
proof -
  consider "refused w sv" | "\<not> refused w sv" "at_capacity sv" | "\<not> refused w sv" "\<not> at_capacity sv"
    by blast
  then show ?thesis
  proof cases
    case 1
    then show ?thesis
      using assms by (simp add: ServeDNS_def handle_refused refuse_def)
  next
    case 2
    then show ?thesis
      using assms by (simp add: ServeDNS_def handle_at_capacity refuse_def)
  next
    case 3
    obtain res sv' m where "handle rq w req sv = Some (res, sv')" "sv_out sv' = sv_out sv @ [m]" "sv_sem sv' = sv_sem sv"
      "sv_od_sem sv' = sv_od_sem sv" "waits_ok sv sv'" "fw_ready sv'"
      using handle_admitted [OF assms 3] by metis
    then show ?thesis
      using 3 by (auto simp: ServeDNS_def waits_ok_def)
  qed
qed

text \<open>
  C3. Rebinding protection of the answer section covers every path to the public
  upstreams: whenever a request is not answered here and not sent to a stub resolver,
  the answer section of the reply (a fresh cache hit, a stale one, or a live answer)
  has no address record in a blocked range, unless the name in its own question is
  under an allowed suffix of the current snapshot.  (The filter does not look at the
  authority and additional sections.)
\<close>

theorem forwarded_reply_rebind_safe:
  assumes "fw_ready sv" and "truncates (rq_truncate rq)" and "ServeDNS rq w req sv = Some sv'"
    and "o_msg (final_outcome rq sv req) = None" and "o_stub (final_outcome rq sv req) = []"
  shows "\<exists>ms. sv_out sv' = sv_out sv @ ms \<and>
    (\<forall>m\<in>set ms. rebind_safe (s_allow_suffix (the_snapshot rq)) m)"
proof -
  consider "refused w sv" | "\<not> refused w sv" "at_capacity sv" | "\<not> refused w sv" "\<not> at_capacity sv"
    by blast
  then show ?thesis
  proof cases
    case 1
    then show ?thesis
      using assms(2,3) refuse_replies [of sv rq w req RcodeRefused "s_allow_suffix (the_snapshot rq)"]
      by (auto simp: ServeDNS_def handle_refused replies_def)
  next
    case 2
    then show ?thesis
      using assms(2,3) refuse_replies [of sv rq w req RcodeServerFailure "s_allow_suffix (the_snapshot rq)"]
      by (auto simp: ServeDNS_def handle_at_capacity replies_def split: if_splits)
  next
    case 3
    then show ?thesis
      using handle_admitted [OF assms(1) 3, of rq req] assms(2-5)
      by (auto simp: ServeDNS_def Let_def)
  qed
qed

text \<open>
  C16. A client whose address can be read and is outside the access policy learns
  nothing and costs nothing: it gets one REFUSED reply that has no record in any section
  (but the EDNS one of the server), and neither the cache, the forwarder, the two limiters
  nor the local network see the request.  (A peer without a readable address is not
  subject to the policy.)
\<close>

theorem refused_client_gets_nothing:
  assumes "IsValid (clientIP (w_remote w))" and "\<not> Allowed (sc_access (sv_cfg sv)) (clientIP (w_remote w))"
    and "truncates (rq_truncate rq)"
  shows "\<exists>sv' m. ServeDNS rq w req sv = Some sv' \<and> sv_out sv' = sv_out sv @ [m] \<and>
    msg_rcode m = RcodeRefused \<and> msg_answer m = [] \<and> msg_ns m = [] \<and> list_all is_opt (msg_extra m) \<and>
    sv_cache sv' = sv_cache sv \<and> sv_fw sv' = sv_fw sv \<and> sv_sem sv' = sv_sem sv \<and> sv_od_sem sv' = sv_od_sem sv \<and>
    sv_solicited sv' = sv_solicited sv \<and> sv_waits sv' = sv_waits sv"
proof -
  have r: "refused w sv"
    using assms(1,2) by (simp add: refused_def)
  have m: "msg_answer (SetRcode new_msg req RcodeRefused) = []" "msg_ns (SetRcode new_msg req RcodeRefused) = []"
    "msg_extra (SetRcode new_msg req RcodeRefused) = []" "msg_rcode (SetRcode new_msg req RcodeRefused) = RcodeRefused"
    by (simp_all add: SetRcode_def SetReply_def new_msg_def Let_def split: list.splits)
  show ?thesis
    using finalize_truncates(4) [OF assms(3), of w req "SetRcode new_msg req RcodeRefused"]
      finalize_no_records [OF assms(3) m(1-3), of w req] m(4)
    by (simp add: ServeDNS_def handle_refused [OF r] refuse_def)
qed

text \<open>
  C17. Local names never leave the box: for a query under \<open>.local\<close> or the local
  domain (or for resolver discovery), whatever the snapshot and the views before and
  after a solicitation hold, no upstream is contacted and the answer cache is neither
  read nor written.
\<close>

theorem local_query_never_leaves:
  assumes "msg_question req = [q]" and "name = ToLower (Fqdn (q_name q))"
    and "(localLabel (the_snapshot rq) name \<noteq> None \<and> \<not> isArpa name) \<or> isSuffixLabel name ''resolver.arpa.''"
    and "ServeDNS rq w req sv = Some sv'"
  shows "sv_fw sv' = sv_fw sv \<and> sv_cache sv' = sv_cache sv"
proof -
  let ?R = "\<lambda>view. Resolve (rq_newRR rq) (the_snapshot rq) view req"
  have direct: "\<exists>m. o_msg (?R view) = Some m" for view
    using Resolve_local_direct [OF assms(1-3)] by (auto simp: direct_def)
  have disp: "sv_fw s' = sv_fw s \<and> sv_cache s' = sv_cache s" if "dispatch rq w req (?R view) res s = Some (r, s')"
    for view res s r s'
    using that direct [of view] by (auto simp: dispatch_def)
  obtain res svh where h: "handle rq w req sv = Some (res, svh)" "sv' = recordQuery rq w req res svh"
    using assms(4) by (auto simp: ServeDNS_def bind_eq_Some_conv)
  consider "refused w sv" | "\<not> refused w sv" "at_capacity sv" | "\<not> refused w sv" "\<not> at_capacity sv"
    by blast
  then have "sv_fw svh = sv_fw sv \<and> sv_cache svh = sv_cache sv"
  proof cases
    case 3
    then show ?thesis
      using h(1) unfolding handle_def Let_def refused_def [symmetric] at_capacity_def [symmetric] on_demand_def
      by (auto simp: bind_eq_Some_conv split: if_splits dest!: disp)
  qed (use h(1) in \<open>auto simp: handle_refused handle_at_capacity refuse_def split: if_splits\<close>)
  then show ?thesis
    using h(2) by simp
qed

section \<open>The cache in front of the upstreams\<close>

lemma lookup_inv:
  assumes "ac_inv c" "ac_lookup t k c = (r, c')"
  shows "ac_inv c' \<and> ac_cfg c' = ac_cfg c"
  using acm.step_inv [of c "Op_Lookup t k"] ac_lookup_refines(2) [of c t k] assms
  by (auto simp: ac_inv_def)

lemma forwardCached_no_hit:
  assumes "sv_fw sv = Some fw" "sv_cache sv = Some c" "KeyFor req = Some k"
    "ac_lookup (rq_lookup_time rq) k c = ((msg, hit), c')" "hit = Miss \<or> hit = Stale"
  shows "forwardCached rq w req snap res sv =
    forward_live rq w req snap (Some k) (if hit = Stale then msg else None) fw (res\<lparr>res_decision := dForward\<rparr>)
      (sv\<lparr>sv_cache := Some c'\<rparr>)"
  using assms by (auto simp: forwardCached_def cache_key_def Let_def)

text \<open>Requests handled one after the other, and the cache keys they use.\<close>

fun serve_all :: "(request_env \<times> writer \<times> dns_msg) list \<Rightarrow> server \<Rightarrow> server option" where
  "serve_all [] sv = Some sv"
| "serve_all ((rq, w, req) # qs) sv = Option.bind (ServeDNS rq w req sv) (serve_all qs)"

lemma ServeDNS_returns: "fw_ready sv \<Longrightarrow> \<exists>sv'. ServeDNS rq w req sv = Some sv' \<and> fw_ready sv'"
  using handle_admitted [of sv w rq req] handle_refused [of w sv rq req] handle_at_capacity [of w sv rq req]
  by (cases "refused w sv"; cases "at_capacity sv") (auto simp: ServeDNS_def)

lemma serve_all_returns: "fw_ready sv \<Longrightarrow> \<exists>sv'. serve_all qs sv = Some sv'"
proof (induction qs arbitrary: sv)
  case (Cons q qs)
  obtain rq w req where "q = (rq, w, req)"
    by (cases q)
  then show ?case
    using Cons ServeDNS_returns [OF Cons.prems, of rq w req] by auto
qed simp

definition asked_keys :: "(request_env \<times> writer \<times> dns_msg) list \<Rightarrow> ac_key set" where
  "asked_keys qs = set (List.map_filter (\<lambda>(rq, w, req). KeyFor req) qs)"

text \<open>The forwarder is there or not, the cache keeps its entry \<open>e\<close> and its configuration.\<close>

definition holds_entry :: "ac_config \<Rightarrow> ac_entry \<Rightarrow> ac_key set \<Rightarrow> bool \<Rightarrow> server \<Rightarrow> bool" where
  "holds_entry cfg e K fwd sv \<longleftrightarrow> (\<exists>c. sv_cache sv = Some c \<and> keeps e K c \<and> ac_cfg c = cfg) \<and> (sv_fw sv \<noteq> None) = fwd"

definition room_for :: "ac_config \<Rightarrow> ac_entry \<Rightarrow> ac_key set \<Rightarrow> bool" where
  "room_for cfg e K \<longleftrightarrow> finite K \<and> int (card (K - {ae_key e})) < MaxEntries cfg"

lemma holds_entry_upd [simp]:
  "holds_entry cfg e K fwd (sv\<lparr>sv_out := x1\<rparr>) = holds_entry cfg e K fwd sv"
  "holds_entry cfg e K fwd (sv\<lparr>sv_sem := x2\<rparr>) = holds_entry cfg e K fwd sv"
  "holds_entry cfg e K fwd (sv\<lparr>sv_log := x3\<rparr>) = holds_entry cfg e K fwd sv"
  "holds_entry cfg e K fwd (solicit rq w l sv) = holds_entry cfg e K fwd sv"
  "holds_entry cfg e K fwd (respond rq w req m sv) = holds_entry cfg e K fwd sv"
  "holds_entry cfg e K fwd (refuse rq w req rc sv) = holds_entry cfg e K fwd sv"
  "holds_entry cfg e K fwd (serveForwarded rq w req m snap sv) = holds_entry cfg e K fwd sv"
  "holds_entry cfg e K fwd (log_line s sv) = holds_entry cfg e K fwd sv"
  "holds_entry cfg e K fwd (recordQuery rq w req res sv) = holds_entry cfg e K fwd sv"
  by (simp_all add: holds_entry_def refuse_def serveForwarded_def)

lemma holds_entry_fw: "holds_entry cfg e K fwd sv \<Longrightarrow> fwd \<Longrightarrow> holds_entry cfg e K fwd (sv\<lparr>sv_fw := Some fw\<rparr>)"
  by (simp add: holds_entry_def)

lemma holds_entry_cache:
  assumes "holds_entry cfg e K fwd sv" "room_for cfg e K" "undisturbed e op" "op_keys op \<subseteq> K"
  shows "holds_entry cfg e K fwd (with_cache (ac_step op) sv)"
  using assms keeps_step [of e K _ op] by (auto simp: holds_entry_def room_for_def)

lemma ac_step_eta:
  "ac_step Op_NoteStale = NoteStaleServed" "ac_step (Op_Store t k m) = ac_store t k m" "ac_step (Op_StoreFail t k) = StoreFail t k"
  by (auto intro!: ext)

lemma holds_entry_ops:
  assumes "holds_entry cfg e K fwd sv" "room_for cfg e K"
  shows "holds_entry cfg e K fwd (with_cache NoteStaleServed sv)"
    and "k \<in> K \<Longrightarrow> k \<noteq> ae_key e \<Longrightarrow> holds_entry cfg e K fwd (with_cache (ac_store t k m) sv)"
    and "k \<in> K \<Longrightarrow> k \<noteq> ae_key e \<Longrightarrow> holds_entry cfg e K fwd (with_cache (StoreFail t k) sv)"
  using holds_entry_cache [OF assms, of Op_NoteStale] holds_entry_cache [OF assms, of "Op_Store t k m"]
    holds_entry_cache [OF assms, of "Op_StoreFail t k"] by (simp_all add: ac_step_eta)

lemma forward_failed_holds:
  assumes "forward_failed rq w req snap key stale res sv = (res', sv')" "holds_entry cfg e K fwd sv" "room_for cfg e K"
    "\<And>k. key = Some k \<Longrightarrow> k \<in> K \<and> k \<noteq> ae_key e"
  shows "holds_entry cfg e K fwd sv'"
  using assms by (auto simp: forward_failed_def holds_entry_ops split: option.splits if_splits)

lemma forward_live_holds:
  assumes "forward_live rq w req snap key stale fw res sv = Some (res', sv')" "holds_entry cfg e K fwd sv" "fwd"
    "room_for cfg e K" "\<And>k. key = Some k \<Longrightarrow> k \<in> K \<and> k \<noteq> ae_key e"
  shows "holds_entry cfg e K fwd sv'"
proof -
  obtain resp err fw' where f: "Forward (rq_net rq) req fw = Some ((resp, err), fw')"
    using assms(1) by (auto simp: forward_live_def bind_eq_Some_conv)
  have h: "holds_entry cfg e K fwd (sv\<lparr>sv_fw := Some fw'\<rparr>)"
    using holds_entry_fw assms(2,3) by blast
  show ?thesis
  proof (cases "if err = None then resp else None")
    case (Some m)
    show ?thesis
    proof (cases "cacheableRcode (msg_rcode m)")
      case True
      then show ?thesis
        using assms(1,5) f Some h
        by (auto simp: forward_live_def holds_entry_ops(2) [OF h assms(4)] Let_def split: option.splits)
    next
      case False
      then have "forward_failed rq w req snap key stale res (sv\<lparr>sv_fw := Some fw'\<rparr>) = (res', sv')"
        using assms(1) f Some by (simp add: forward_live_def Let_def)
      then show ?thesis
        by (rule forward_failed_holds [OF _ h assms(4,5)])
    qed
  next
    case None
    let ?sv = "if err \<noteq> None then log_line (''forward '' @ fw_qname req) (sv\<lparr>sv_fw := Some fw'\<rparr>) else sv\<lparr>sv_fw := Some fw'\<rparr>"
    have "forward_failed rq w req snap key stale res ?sv = (res', sv')"
      using assms(1) f None by (simp add: forward_live_def Let_def)
    moreover have "holds_entry cfg e K fwd ?sv"
      using h by simp
    ultimately show ?thesis
      by (rule forward_failed_holds [OF _ _ assms(4,5)])
  qed
qed

text \<open>A request for the key of a live entry is answered from it: nothing else changes.\<close>

lemma keeps_hit:
  assumes "keeps e K c" "now - ae_at e < ae_ttl e" "ac_lookup now (ae_key e) c = ((msg, hit), c')"
  shows "hit = Fail \<or> hit = Fresh \<and> msg \<noteq> None"
proof -
  obtain n where "e\<lparr>ae_hits := n\<rparr> \<in> set (ac_abs c)"
    using assms(1) lru_holds_find [of e K "ac_abs c"] lru_find_set by (auto simp: keeps_def)
  then have "entry_ok (ac_cfg c) (e\<lparr>ae_hits := n\<rparr>)"
    using assms(1) by (auto simp: keeps_def ac_inv_def simp del: entry_ok_hits)
  then have "ae_kind e \<noteq> kindFail \<longrightarrow> ae_msg e \<noteq> None"
    by (auto simp: entry_ok_def split: ac_kind.splits)
  then show ?thesis
    using keeps_lookup [OF assms(1,2)] assms(3) by (auto split: if_splits)
qed

lemma forwardCached_holds:
  assumes "forwardCached rq w req snap res sv = Some (res', sv')" "holds_entry cfg e K fwd sv" "room_for cfg e K"
    "\<And>k. KeyFor req = Some k \<Longrightarrow> k \<in> K" "KeyFor req = Some (ae_key e) \<Longrightarrow> rq_lookup_time rq - ae_at e < ae_ttl e"
  shows "holds_entry cfg e K fwd sv'"
proof -
  obtain c where c: "sv_cache sv = Some c" "keeps e K c" "ac_cfg c = cfg"
    using assms(2) by (auto simp: holds_entry_def)
  consider "sv_fw sv = None" | fw where "sv_fw sv = Some fw" "KeyFor req = None" | fw k where "sv_fw sv = Some fw" "KeyFor req = Some k"
    by (cases "sv_fw sv"; cases "KeyFor req") auto
  then show ?thesis
  proof cases
    case 1
    then show ?thesis
      using assms(1,2) by (auto simp: forwardCached_def Let_def)
  next
    case 2
    then have "forward_live rq w req snap None None fw (res\<lparr>res_decision := dForward\<rparr>) sv = Some (res', sv')" "fwd"
      using assms(1,2) c(1) by (auto simp: forwardCached_def cache_key_def holds_entry_def Let_def)
    then show ?thesis
      by (intro forward_live_holds [OF _ assms(2) _ assms(3)]) auto
  next
    case 3
    obtain msg hit c' where l: "ac_lookup (rq_lookup_time rq) k c = ((msg, hit), c')"
      by (metis prod.exhaust)
    let ?sv = "sv\<lparr>sv_cache := Some c'\<rparr>"
    have "keeps e K c' \<and> ac_cfg c' = cfg"
      using keeps_step [OF c(2), of "Op_Lookup (rq_lookup_time rq) k"] l c(3) assms(3-5) 3(2) by (auto simp: room_for_def)
    then have h: "holds_entry cfg e K fwd ?sv" and fwd: "fwd"
      using assms(2) 3(1) by (auto simp: holds_entry_def)
    show ?thesis
    proof (cases "hit = Fail \<or> hit = Fresh \<and> msg \<noteq> None")
      case True
      then show ?thesis
        using assms(1) h 3 l c(1) by (auto simp: forwardCached_def cache_key_def Let_def)
    next
      case False
      then have "k \<noteq> ae_key e"
        using keeps_hit [OF c(2)] l assms(5) 3(2) by blast
      then have k: "Some k = Some k' \<Longrightarrow> k' \<in> K \<and> k' \<noteq> ae_key e" for k'
        using assms(4) 3(2) by auto
      have "\<exists>stale. forward_live rq w req snap (Some k) stale fw (res\<lparr>res_decision := dForward\<rparr>) ?sv = Some (res', sv')"
        using False assms(1) 3 l c(1) by (cases hit; cases msg) (auto simp: forwardCached_def cache_key_def Let_def)
      then show ?thesis
        using forward_live_holds [OF _ h fwd assms(3) k] by blast
    qed
  qed
qed

lemma srv_forward_holds:
  assumes "srv_forward rq w req run rebind snap res sv = Some (res', sv')" "holds_entry cfg e K fwd sv"
  shows "holds_entry cfg e K fwd sv'"
proof (cases "sv_fw sv")
  case None
  then show ?thesis
    using assms by (auto simp: srv_forward_def)
next
  case (Some fw)
  then have fwd: "fwd"
    using assms(2) by (simp add: holds_entry_def)
  show ?thesis
    using assms Some holds_entry_fw [OF assms(2) fwd]
    by (auto simp: srv_forward_def bind_eq_Some_conv Let_def split: option.splits)
qed

lemma dispatch_holds:
  assumes "dispatch rq w req out res sv = Some (res', sv')" "holds_entry cfg e K fwd sv" "room_for cfg e K"
    "\<And>k. KeyFor req = Some k \<Longrightarrow> k \<in> K" "KeyFor req = Some (ae_key e) \<Longrightarrow> rq_lookup_time rq - ae_at e < ae_ttl e"
  shows "holds_entry cfg e K fwd sv'"
  using assms forwardCached_holds [OF _ assms(2-5)] srv_forward_holds [OF _ assms(2)]
  by (auto simp: dispatch_def split: option.splits if_splits)

lemma ServeDNS_holds:
  assumes "ServeDNS rq w req sv = Some sv'" "holds_entry cfg e K fwd sv" "room_for cfg e K"
    "\<And>k. KeyFor req = Some k \<Longrightarrow> k \<in> K" "KeyFor req = Some (ae_key e) \<Longrightarrow> rq_lookup_time rq - ae_at e < ae_ttl e"
  shows "holds_entry cfg e K fwd sv'"
proof -
  obtain res svh where h: "handle rq w req sv = Some (res, svh)" "sv' = recordQuery rq w req res svh"
    using assms(1) by (auto simp: ServeDNS_def bind_eq_Some_conv)
  consider "refused w sv" | "\<not> refused w sv" "at_capacity sv" | "\<not> refused w sv" "\<not> at_capacity sv"
    by blast
  then have "holds_entry cfg e K fwd svh"
  proof cases
    case 3
    have d: "holds_entry cfg e K fwd s'"
      if "dispatch rq w req out r s = Some (r', s')" "holds_entry cfg e K fwd s" for out r s r' s'
      by (rule dispatch_holds [OF that assms(3-5)])
    show ?thesis
      using 3 h(1) assms(2) unfolding handle_def Let_def refused_def [symmetric] at_capacity_def [symmetric] on_demand_def
      by (auto simp: bind_eq_Some_conv split: if_splits dest!: d)
  qed (use h(1) assms(2) in \<open>auto simp: handle_refused handle_at_capacity split: if_splits\<close>)
  then show ?thesis
    using h(2) by simp
qed

lemma serve_all_holds:
  assumes "serve_all qs sv = Some sv'" "holds_entry cfg e K fwd sv" "room_for cfg e K" "asked_keys qs \<subseteq> K"
    "\<forall>(rq, w, req)\<in>set qs. KeyFor req = Some (ae_key e) \<longrightarrow> rq_lookup_time rq - ae_at e < ae_ttl e"
  shows "holds_entry cfg e K fwd sv'"
  using assms
proof (induction qs arbitrary: sv)
  case (Cons q qs)
  obtain rq w req where q: "q = (rq, w, req)"
    by (cases q)
  then obtain sv1 where s: "ServeDNS rq w req sv = Some sv1" "serve_all qs sv1 = Some sv'"
    using Cons.prems(1) by (auto simp: bind_eq_Some_conv)
  have "holds_entry cfg e K fwd sv1"
    using Cons.prems(4,5) q
    by (intro ServeDNS_holds [OF s(1) Cons.prems(2,3)]) (auto simp: asked_keys_def map_filter_simps)
  then show ?case
    using Cons.IH [OF s(2) _ Cons.prems(3)] Cons.prems(4,5) q by (auto simp: asked_keys_def map_filter_simps split: option.splits)
qed simp

text \<open>A request that meets a live entry is answered from it, and no upstream is asked.\<close>

lemma holds_entry_served:
  assumes "holds_entry cfg e K True sv" "KeyFor req = Some (ae_key e)" "rq_lookup_time rq - ae_at e < ae_ttl e"
    "ae_kind e \<noteq> kindFail \<Longrightarrow> ae_msg e = Some m"
  shows "\<exists>res' sv'. forwardCached rq w req snap res sv = Some (res', sv') \<and> sv_fw sv' = sv_fw sv \<and>
    sv_out sv' = sv_out sv @ [finalize rq w req
      (if ae_kind e = kindFail then SetRcode new_msg req RcodeServerFailure
       else applyRebindFilter ((decrementTTL m (rq_lookup_time rq - ae_at e))\<lparr>msg_id := msg_id req\<rparr>) (s_allow_suffix snap))]"
proof -
  obtain c fw where c: "sv_cache sv = Some c" "keeps e K c" "sv_fw sv = Some fw"
    using assms(1) by (auto simp: holds_entry_def)
  obtain r c2 where l: "ac_lookup (rq_lookup_time rq) (ae_key e) c = (r, c2)"
    by fastforce
  then have "r = (if ae_kind e = kindFail then (None, Fail)
      else (map_option (\<lambda>m. decrementTTL m (rq_lookup_time rq - ae_at e)) (ae_msg e), Fresh))"
    using keeps_lookup [OF c(2) assms(3)] by simp
  then show ?thesis
    using c(1,3) assms(2,4) l by (auto simp: forwardCached_def cache_key_def serveForwarded_def refuse_def Let_def)
qed

text \<open>
  C19. An answer is fetched once: after a request that an upstream answered with a
  message the cache accepts, handle any further requests, of any clients and for any
  names, as long as they use fewer other keys than the cache has room for and the ones
  with the same key come within the lifetime of the answer.  Then a request with the same
  key within that lifetime is served from the cache, with the same records under a
  lifetime counted down, filtered against its own snapshot and under its own identifier,
  and no upstream is contacted.
\<close>

theorem answered_once_then_cached:
  assumes "sv_fw sv = Some fw" and "sv_cache sv = Some c" and "ac_inv c"
    and "KeyFor req = Some k" and "KeyFor req2 = Some k"
    and "ac_lookup (rq_lookup_time rq) k c = ((msg, hit), c')" and "hit = Miss \<or> hit = Stale"
    and "Forward (rq_net rq) req fw = Some ((Some m, None), fw')"
    and "cacheable (ac_cfg c) m = Some (ttl, knd)"
    and "forwardCached rq w req snap res sv = Some (res1, sv1)"
    and "serve_all qs sv1 = Some sv2" and "int (card (asked_keys qs - {k})) < MaxEntries (ac_cfg c)"
    and "\<forall>(rq', w', req')\<in>set qs. KeyFor req' = Some k \<longrightarrow> rq_lookup_time rq' - rq_store_time rq < ttl"
    and "rq_lookup_time rq2 - rq_store_time rq < ttl"
  shows "\<exists>res3 sv3. forwardCached rq2 w2 req2 snap2 res' sv2 = Some (res3, sv3) \<and> sv_fw sv3 = sv_fw sv2 \<and>
    sv_out sv3 = sv_out sv2 @ [finalize rq2 w2 req2 (applyRebindFilter
      ((decrementTTL ((ac_stripOPT m)\<lparr>msg_id := 0\<rparr>) (rq_lookup_time rq2 - rq_store_time rq))\<lparr>msg_id := msg_id req2\<rparr>)
      (s_allow_suffix snap2))]"
proof -
  let ?e = "\<lparr>ae_key = k, ae_msg = Some ((ac_stripOPT m)\<lparr>msg_id := 0\<rparr>), ae_at = rq_store_time rq, ae_ttl = ttl,
     ae_kind = knd, ae_hits = 0\<rparr>"
  have c': "ac_inv c'" "ac_cfg c' = ac_cfg c" "cacheable (ac_cfg c') m = Some (ttl, knd)"
    using lookup_inv [OF assms(3,6)] assms(9) by auto
  have "cacheableRcode (msg_rcode m)" and knd: "knd \<noteq> kindFail"
    using cacheable_cases [OF assms(9)] by (auto simp: cacheableRcode_def)
  then have sv1: "sv_fw sv1 = Some fw'" "sv_cache sv1 = Some (ac_put ?e c')"
    using forwardCached_no_hit [OF assms(1,2,4,6,7), of w snap res] assms(8,10) c'(3)
    by (auto simp: forward_live_def serveForwarded_def ac_store_def Let_def)
  have "holds_entry (ac_cfg c) ?e (asked_keys qs) True sv1"
    using keeps_put [OF c'(1) store_entry_ok [OF c'(3)], of k "rq_store_time rq" "asked_keys qs"] sv1 c'(2)
    by (simp add: holds_entry_def)
  then have h: "holds_entry (ac_cfg c) ?e (asked_keys qs) True sv2"
    using assms(12,13) by (intro serve_all_holds [OF assms(11)]) (auto simp: room_for_def asked_keys_def)
  show ?thesis
    using holds_entry_served [OF h, of req2 rq2 "(ac_stripOPT m)\<lparr>msg_id := 0\<rparr>" w2 snap2 res'] assms(5,14) knd by simp
qed

text \<open>
  C18. A failing upstream is not hammered, and a failure never hides an answer that is
  still usable: when no upstream gives an answer (an error, nothing, or a response code
  such as SERVFAIL), a stale answer is served if the cache holds one; otherwise the reply
  is SERVFAIL.  Handle then any further requests that use fewer other keys than the cache
  has room for, those with the same key within the failure lifetime: a request with the
  same key within that lifetime is answered SERVFAIL without contacting an upstream.
\<close>

theorem upstream_failure_handling:
  assumes "sv_fw sv = Some fw" and "sv_cache sv = Some c" and "ac_inv c"
    and "KeyFor req = Some k" and "KeyFor req2 = Some k"
    and "ac_lookup (rq_lookup_time rq) k c = ((msg, hit), c')" and "hit = Miss \<or> hit = Stale"
    and "Forward (rq_net rq) req fw = Some ((resp, err), fw')"
    and "err \<noteq> None \<or> resp = None \<or> \<not> cacheableRcode (msg_rcode (the resp))"
    and "forwardCached rq w req snap res sv = Some (res1, sv1)"
    and "serve_all qs sv1 = Some sv2" and "int (card (asked_keys qs - {k})) < MaxEntries (ac_cfg c)"
    and "\<forall>(rq', w', req')\<in>set qs. KeyFor req' = Some k \<longrightarrow> rq_lookup_time rq' - rq_store_time rq < FailTTL (ac_cfg c)"
  shows "(\<forall>m. hit = Stale \<and> msg = Some m \<longrightarrow>
      sv_out sv1 = sv_out sv @ [finalize rq w req (applyRebindFilter (m\<lparr>msg_id := msg_id req\<rparr>) (s_allow_suffix snap))]) \<and>
    (hit = Miss \<longrightarrow>
      sv_out sv1 = sv_out sv @ [finalize rq w req (SetRcode new_msg req RcodeServerFailure)] \<and>
      (rq_lookup_time rq2 - rq_store_time rq < FailTTL (ac_cfg c) \<longrightarrow>
        (\<exists>res3 sv3. forwardCached rq2 w2 req2 snap2 res' sv2 = Some (res3, sv3) \<and> sv_fw sv3 = sv_fw sv2 \<and>
          sv_out sv3 = sv_out sv2 @ [finalize rq2 w2 req2 (SetRcode new_msg req2 RcodeServerFailure)])))"
proof -
  have live: "forward_failed rq w req snap (Some k) (if hit = Stale then msg else None) (res\<lparr>res_decision := dForward\<rparr>)
      (let sv' = sv\<lparr>sv_cache := Some c', sv_fw := Some fw'\<rparr> in
       if err \<noteq> None then log_line (''forward '' @ fw_qname req) sv' else sv') = (res1, sv1)"
    using forwardCached_no_hit [OF assms(1,2,4,6,7), of w snap res] assms(8-10)
    by (auto simp: forward_live_def Let_def split: option.splits if_splits)
  show ?thesis
  proof (cases "hit = Stale")
    case True
    then show ?thesis
      using live by (auto simp: forward_failed_def serveForwarded_def Let_def split: if_splits)
  next
    case False
    then have hit: "hit = Miss"
      using assms(7) by simp
    let ?e = "\<lparr>ae_key = k, ae_msg = None, ae_at = rq_store_time rq, ae_ttl = FailTTL (ac_cfg c), ae_kind = kindFail,
      ae_hits = 0\<rparr>"
    have c': "ac_inv c'" "ac_cfg c' = ac_cfg c"
      using lookup_inv [OF assms(3,6)] by auto
    have sv1: "sv_fw sv1 = Some fw'" "sv_cache sv1 = Some (ac_put ?e c')"
      "sv_out sv1 = sv_out sv @ [finalize rq w req (SetRcode new_msg req RcodeServerFailure)]"
      using live hit c'(2) by (auto simp: forward_failed_def refuse_def StoreFail_def Let_def split: if_splits)
    have "holds_entry (ac_cfg c) ?e (asked_keys qs) True sv1"
      using keeps_put [OF c'(1), of ?e "asked_keys qs"] fail_entry_ok sv1 c'(2) by (simp add: holds_entry_def)
    then have h: "holds_entry (ac_cfg c) ?e (asked_keys qs) True sv2"
      using assms(12,13) by (intro serve_all_holds [OF assms(11)]) (auto simp: room_for_def asked_keys_def)
    show ?thesis
      using sv1 hit holds_entry_served [OF h, of req2 rq2 undefined w2 snap2 res'] assms(5) by simp
  qed
qed

definition demo_peer :: writer where
  "demo_peer = \<lparr>w_remote = UDPAddr [192, 168, 1, 20], w_transport = None\<rparr>"

definition demo_answer :: "dns_msg \<Rightarrow> dns_msg" where
  "demo_answer req = (SetReply new_msg req)\<lparr>msg_answer :=
     [\<lparr>dr_name = ''www.example.org.'', dr_type = TypeA, dr_class = 1, dr_ttl = 60, dr_data = RD_A (Addr4 0x0a000042)\<rparr>,
      \<lparr>dr_name = ''www.example.org.'', dr_type = TypeA, dr_class = 1, dr_ttl = 60, dr_data = RD_A (Addr4 0x5db8d822)\<rparr>]\<rparr>"

definition demo_net :: fw_env where
  "demo_net = \<lparr>env_exchange = (\<lambda>n ex req. Inr (demo_answer req)), env_now = (\<lambda>n. int n)\<rparr>"

definition demo_rq :: "time \<Rightarrow> fw_env \<Rightarrow> request_env" where
  "demo_rq t net = \<lparr>rq_snapshot = Some demo_snap, rq_view = Some demo_view, rq_view_after = Some demo_view,
     rq_newRR = demo_newRR, rq_truncate = (\<lambda>n m. m), rq_start = t, rq_finish = t, rq_lookup_time = t,
     rq_store_time = t, rq_net = net\<rparr>"

definition demo_access :: access where
  "demo_access = \<lparr>Allow = (case ParseSet DefaultPrivateClients of Inl _ \<Rightarrow> None | Inr s \<Rightarrow> Some s), Refuse = None\<rparr>"

definition demo_srv :: server where
  "demo_srv = srv_new \<lparr>sc_access = demo_access, sc_max_inflight = 0, sc_read_timeout = 0, sc_idle_timeout = 0,
     sc_query_budget = 0, sc_on_demand = True\<rparr> (Some (ac_new ac_defaults)) (Some (fw_start demo_fw)) None"

lemma demo_handle:
  "map_option (\<lambda>(_, sv). (map (\<lambda>m. map dr_data (msg_answer m)) (sv_out sv), sv_sem sv))
     (handle (demo_rq 0 demo_net) demo_peer (demo_query ''www.example.org.'' TypeA) demo_srv) =
   Some ([[RD_A (Addr4 0x5db8d822)]], 0)"
  by code_simp

lemma demo_ready: "fw_ready demo_srv"
  using Build_spec [OF demo_Build demo_policy] by (simp add: demo_srv_def srv_new_def fw_ready_def fw_start_def)

theorem ServeDNS_one_reply_witness:
  "\<exists>sv' m. ServeDNS (demo_rq 0 demo_net) demo_peer (demo_query ''www.example.org.'' TypeA) demo_srv = Some sv' \<and>
     sv_out sv' = [m] \<and> sv_sem sv' = 0"
proof -
  have "\<not> at_capacity demo_srv" "sv_out demo_srv = []" "sv_sem demo_srv = 0"
    by (simp_all add: at_capacity_def demo_srv_def srv_new_def srv_defaults_def)
  then show ?thesis
    using ServeDNS_one_reply [OF demo_ready, of "demo_rq 0 demo_net" demo_peer "demo_query ''www.example.org.'' TypeA"]
    by (auto simp: length_Suc_conv)
qed

lemma demo_truncates: "truncates (rq_truncate (demo_rq t net))"
  by (simp add: truncates_def demo_rq_def)

theorem forwarded_reply_rebind_safe_witness:
  "\<exists>sv'. ServeDNS (demo_rq 0 demo_net) demo_peer (demo_query ''www.example.org.'' TypeA) demo_srv = Some sv' \<and>
     (\<forall>m\<in>set (sv_out sv'). rebind_safe [''example.com.''] m) \<and> \<not> rebind_safe [''example.com.'']
       (new_msg\<lparr>msg_answer := [\<lparr>dr_name = ''www.example.org.'', dr_type = TypeA, dr_class = 1, dr_ttl = 60, dr_data = RD_A (Addr4 0x0a000042)\<rparr>]\<rparr>)"
proof -
  let ?rq = "demo_rq 0 demo_net" and ?req = "demo_query ''www.example.org.'' TypeA"
  obtain res svh where h: "handle ?rq demo_peer ?req demo_srv = Some (res, svh)"
    using demo_handle by (cases "handle ?rq demo_peer ?req demo_srv") auto
  have run: "ServeDNS ?rq demo_peer ?req demo_srv = Some (recordQuery ?rq demo_peer ?req res svh)"
    using h by (simp add: ServeDNS_def)
  have "o_msg (final_outcome ?rq demo_srv ?req) = None \<and> o_stub (final_outcome ?rq demo_srv ?req) = [] \<and>
      s_allow_suffix (the_snapshot ?rq) = [''example.com.''] \<and> sv_out demo_srv = []"
    by code_simp
  then have "\<forall>m\<in>set (sv_out svh). rebind_safe [''example.com.''] m"
    using forwarded_reply_rebind_safe [OF demo_ready demo_truncates run] by auto
  moreover have "\<not> rebind_safe [''example.com.'']
       (new_msg\<lparr>msg_answer := [\<lparr>dr_name = ''www.example.org.'', dr_type = TypeA, dr_class = 1, dr_ttl = 60, dr_data = RD_A (Addr4 0x0a000042)\<rparr>]\<rparr>)"
    by code_simp
  ultimately show ?thesis
    using run by simp
qed

definition demo_stranger :: writer where
  "demo_stranger = \<lparr>w_remote = TCPAddr [8, 8, 8, 8], w_transport = Some ''dot''\<rparr>"

theorem refused_client_gets_nothing_witness:
  "\<exists>sv' m. ServeDNS (demo_rq 0 demo_net) demo_stranger (demo_query ''nas.lan.'' TypeA) demo_srv = Some sv' \<and>
     sv_out sv' = [m] \<and> msg_rcode m = RcodeRefused \<and> sv_fw sv' = sv_fw demo_srv"
proof -
  have "IsValid (clientIP (w_remote demo_stranger)) \<and>
      \<not> Allowed (sc_access (sv_cfg demo_srv)) (clientIP (w_remote demo_stranger)) \<and> sv_out demo_srv = []"
    by code_simp
  then show ?thesis
    using refused_client_gets_nothing [OF _ _ demo_truncates, of demo_stranger demo_srv 0 demo_net "demo_query ''nas.lan.'' TypeA"]
    by auto
qed

theorem local_query_never_leaves_witness:
  "\<exists>sv'. ServeDNS (demo_rq 0 demo_net) demo_peer (demo_query ''ghost.lan.'' TypeA) demo_srv = Some sv' \<and>
     sv_fw sv' = sv_fw demo_srv \<and> sv_cache sv' = sv_cache demo_srv \<and> sv_solicited sv' = [(''ghost'', Addr4 0xc0a80114)]"
proof -
  let ?rq = "demo_rq 0 demo_net" and ?req = "demo_query ''ghost.lan.'' TypeA"
  have e: "map_option (\<lambda>(_, sv). sv_solicited sv) (handle ?rq demo_peer ?req demo_srv) = Some [(''ghost'', Addr4 0xc0a80114)]"
    by code_simp
  then obtain res svh where h: "handle ?rq demo_peer ?req demo_srv = Some (res, svh)" "sv_solicited svh = [(''ghost'', Addr4 0xc0a80114)]"
    by (cases "handle ?rq demo_peer ?req demo_srv") auto
  have run: "ServeDNS ?rq demo_peer ?req demo_srv = Some (recordQuery ?rq demo_peer ?req res svh)"
    using h by (simp add: ServeDNS_def)
  have "msg_question ?req = [demo_question ''ghost.lan.'' TypeA]" "ToLower (Fqdn (q_name (demo_question ''ghost.lan.'' TypeA))) = ''ghost.lan.''"
      "localLabel (the_snapshot ?rq) ''ghost.lan.'' \<noteq> None \<and> \<not> isArpa ''ghost.lan.''"
    by code_simp+
  then show ?thesis
    using local_query_never_leaves [OF _ _ _ run, of "demo_question ''ghost.lan.'' TypeA" "''ghost.lan.''"] run h(2) by simp
qed

definition demo_ckey :: ac_key where
  "demo_ckey = \<lparr>k_name = ''www.example.org.'', k_qtype = 1, k_qclass = 1, k_do = False\<rparr>"

abbreviation demo_res :: srv_result where
  "demo_res \<equiv> \<lparr>res_decision = dServfail, res_rcode = 2\<rparr>"

lemma demo_srv_parts:
  "sv_fw demo_srv = Some (fw_start demo_fw)" "sv_cache demo_srv = Some (ac_new ac_defaults)"
  "KeyFor (demo_query ''www.example.org.'' TypeA) = Some demo_ckey"
  "KeyFor (demo_query ''WWW.example.org.'' TypeA) = Some demo_ckey"
  "fst (ac_lookup 0 demo_ckey (ac_new ac_defaults)) = (None, Miss)"
  "rq_lookup_time (demo_rq t net) = t" "rq_store_time (demo_rq t net) = t" "rq_net (demo_rq t net) = net"
  by (simp add: demo_srv_def srv_new_def, simp add: demo_srv_def srv_new_def, code_simp, code_simp, code_simp,
      simp_all add: demo_rq_def)

text \<open>Between the two requests of the examples, three others are handled: a local one, and two of another name.\<close>

definition demo_between :: "fw_env \<Rightarrow> (request_env \<times> writer \<times> dns_msg) list" where
  "demo_between net =
     [(demo_rq second net, demo_peer, demo_query ''ghost.lan.'' TypeA),
      (demo_rq (2 * second) net, demo_peer, demo_query ''other.example.org.'' TypeA),
      (demo_rq (3 * second) net, demo_peer, demo_query ''www.example.org.'' TypeA)]"

lemma demo_between_keys:
  "asked_keys (demo_between net) = {demo_ckey\<lparr>k_name := ''ghost.lan.''\<rparr>, demo_ckey\<lparr>k_name := ''other.example.org.''\<rparr>, demo_ckey}"
proof -
  have "KeyFor (demo_query ''ghost.lan.'' TypeA) = Some (demo_ckey\<lparr>k_name := ''ghost.lan.''\<rparr>) \<and>
      KeyFor (demo_query ''other.example.org.'' TypeA) = Some (demo_ckey\<lparr>k_name := ''other.example.org.''\<rparr>) \<and>
      KeyFor (demo_query ''www.example.org.'' TypeA) = Some demo_ckey"
    by code_simp
  then show ?thesis
    by (simp add: asked_keys_def demo_between_def map_filter_simps)
qed

lemma demo_between_room: "int (card (asked_keys (demo_between net) - {demo_ckey})) < MaxEntries (ac_cfg (ac_new ac_defaults))"
proof -
  have "card (asked_keys (demo_between net) - {demo_ckey}) \<le> card (set [demo_ckey\<lparr>k_name := ''ghost.lan.''\<rparr>, demo_ckey\<lparr>k_name := ''other.example.org.''\<rparr>])"
    by (rule card_mono) (auto simp: demo_between_keys)
  also have "\<dots> \<le> 2"
    by (rule order_trans [OF card_length]) simp
  finally show ?thesis
    by (simp add: ac_new_def ac_normalize_def ac_defaults_def Let_def)
qed

theorem answered_once_then_cached_witness:
  "\<exists>res1 sv1 sv2 res3 sv3. forwardCached (demo_rq 0 demo_net) demo_peer (demo_query ''www.example.org.'' TypeA) demo_snap
       demo_res demo_srv = Some (res1, sv1) \<and> serve_all (demo_between demo_net) sv1 = Some sv2 \<and>
     forwardCached (demo_rq (20 * second) demo_dead) demo_peer (demo_query ''WWW.example.org.'' TypeA) demo_snap
       demo_res sv2 = Some (res3, sv3) \<and> sv_fw sv3 = sv_fw sv2"
proof -
  let ?rq = "demo_rq 0 demo_net" and ?req = "demo_query ''www.example.org.'' TypeA"
  have "map_option fst (Forward demo_net ?req (fw_start demo_fw)) = Some (Some (demo_answer ?req), None) \<and>
      cacheable (ac_cfg (ac_new ac_defaults)) (demo_answer ?req) = Some (60 * second, kindPositive)"
    by code_simp
  moreover obtain res1 sv1 where r: "forwardCached ?rq demo_peer ?req demo_snap demo_res demo_srv = Some (res1, sv1)" "fw_ready sv1"
    using forwardCached_safe [OF demo_ready, of ?rq demo_peer ?req demo_snap demo_res] by auto
  moreover obtain sv2 where "serve_all (demo_between demo_net) sv1 = Some sv2"
    using serve_all_returns [OF r(2)] by blast
  ultimately obtain fw' where f: "Forward demo_net ?req (fw_start demo_fw) = Some ((Some (demo_answer ?req), None), fw')"
    "forwardCached ?rq demo_peer ?req demo_snap demo_res demo_srv = Some (res1, sv1)"
    "serve_all (demo_between demo_net) sv1 = Some sv2"
    "cacheable (ac_cfg (ac_new ac_defaults)) (demo_answer ?req) = Some (60 * second, kindPositive)"
    by auto
  obtain c' where l: "ac_lookup 0 demo_ckey (ac_new ac_defaults) = ((None, Miss), c')"
    using demo_srv_parts(5) by (metis prod.collapse)
  have t: "\<forall>(rq', w', req')\<in>set (demo_between demo_net). KeyFor req' = Some demo_ckey \<longrightarrow> rq_lookup_time rq' - 0 < 60 * second"
    by (simp add: demo_between_def demo_srv_parts)
  show ?thesis
    using answered_once_then_cached [OF demo_srv_parts(1,2) ac_new_inv demo_srv_parts(3,4), of ?rq None Miss c'
        "demo_answer ?req" fw' "60 * second" kindPositive demo_peer demo_snap demo_res res1 sv1 "demo_between demo_net" sv2
        "demo_rq (20 * second) demo_dead"] l f t demo_between_room
    by (fastforce simp: demo_srv_parts)
qed

theorem upstream_failure_handling_witness:
  "\<exists>res1 sv1 sv2 res3 sv3. forwardCached (demo_rq 0 demo_dead) demo_peer (demo_query ''www.example.org.'' TypeA) demo_snap
       demo_res demo_srv = Some (res1, sv1) \<and> map msg_rcode (sv_out sv1) = [2] \<and>
     serve_all (demo_between demo_net) sv1 = Some sv2 \<and>
     forwardCached (demo_rq (4 * second) demo_net) demo_peer (demo_query ''WWW.example.org.'' TypeA) demo_snap
       demo_res sv2 = Some (res3, sv3) \<and> sv_fw sv3 = sv_fw sv2"
proof -
  let ?rq = "demo_rq 0 demo_dead" and ?req = "demo_query ''www.example.org.'' TypeA"
  have "map_option (\<lambda>((r, e), _). (r, e \<noteq> None)) (Forward demo_dead ?req (fw_start demo_fw)) = Some (None, True) \<and>
      map_option (\<lambda>(_, sv). map msg_rcode (sv_out sv)) (forwardCached ?rq demo_peer ?req demo_snap demo_res demo_srv) = Some [2] \<and>
      4 * second < FailTTL (ac_cfg (ac_new ac_defaults))"
    by code_simp
  moreover obtain res1 sv1 where r: "forwardCached ?rq demo_peer ?req demo_snap demo_res demo_srv = Some (res1, sv1)" "fw_ready sv1"
    using forwardCached_safe [OF demo_ready, of ?rq demo_peer ?req demo_snap demo_res] by auto
  moreover obtain sv2 where "serve_all (demo_between demo_net) sv1 = Some sv2"
    using serve_all_returns [OF r(2)] by blast
  ultimately obtain e fw' where f: "Forward demo_dead ?req (fw_start demo_fw) = Some ((None, Some e), fw')"
    "forwardCached ?rq demo_peer ?req demo_snap demo_res demo_srv = Some (res1, sv1)" "map msg_rcode (sv_out sv1) = [2]"
    "serve_all (demo_between demo_net) sv1 = Some sv2" "4 * second < FailTTL (ac_cfg (ac_new ac_defaults))"
    by auto
  obtain c' where l: "ac_lookup 0 demo_ckey (ac_new ac_defaults) = ((None, Miss), c')"
    using demo_srv_parts(5) by (metis prod.collapse)
  have t: "\<forall>(rq', w', req')\<in>set (demo_between demo_net). KeyFor req' = Some demo_ckey \<longrightarrow>
      rq_lookup_time rq' - 0 < FailTTL (ac_cfg (ac_new ac_defaults))"
    using f(5) by (simp add: demo_between_def demo_srv_parts)
  show ?thesis
    using upstream_failure_handling [OF demo_srv_parts(1,2) ac_new_inv demo_srv_parts(3,4), of ?rq None Miss c'
        None "Some e" fw' demo_peer demo_snap demo_res res1 sv1 "demo_between demo_net" sv2 "demo_rq (4 * second) demo_net"] l f t
      demo_between_room
    by (fastforce simp: demo_srv_parts)
qed

text \<open>
  Only the answer section is filtered: a private address in the additional section of
  an upstream's answer reaches the client.
\<close>

theorem rebind_filter_skips_additional:
  "map_option (\<lambda>(_, sv). map (\<lambda>m. (map dr_data (msg_answer m), map dr_data (msg_extra m))) (sv_out sv))
     (handle (demo_rq 0 \<lparr>env_exchange = (\<lambda>n ex req. Inr ((demo_answer req)\<lparr>msg_extra := msg_answer (demo_answer req)\<rparr>)),
        env_now = int\<rparr>) demo_peer (demo_query ''www.example.org.'' TypeA) demo_srv) =
   Some [([RD_A (Addr4 0x5db8d822)], [RD_A (Addr4 0x0a000042), RD_A (Addr4 0x5db8d822)])]"
  by code_simp

text \<open>
  The filter believes the question of the response: when an upstream answers a
  query for a foreign name with a question section that names an allowed suffix, a
  private address reaches the client under the foreign name.
\<close>

theorem rebind_filter_trusts_response_question:
  "map_option (\<lambda>(_, sv). map (\<lambda>m. map dr_data (msg_answer m)) (sv_out sv))
     (handle (demo_rq 0 \<lparr>env_exchange = (\<lambda>n ex req. Inr ((demo_answer req)\<lparr>msg_question := [demo_question ''x.example.com.'' TypeA]\<rparr>)),
        env_now = int\<rparr>) demo_peer (demo_query ''www.evil.test.'' TypeA) demo_srv) =
   Some [[RD_A (Addr4 0x0a000042), RD_A (Addr4 0x5db8d822)]] \<and>
   \<not> underAllow ''www.evil.test.'' (s_allow_suffix demo_snap)"
  by code_simp

text \<open>
  A peer without an address is not subject to access control: with a policy that
  admits nobody, a request whose writer reports no usable address is answered.
\<close>

theorem unknown_peer_bypasses_access:
  "map_option (\<lambda>(_, sv). map msg_rcode (sv_out sv))
     (handle (demo_rq 0 demo_net) \<lparr>w_remote = OtherAddr, w_transport = Some ''doh''\<rparr> (demo_query ''printer.lan.'' TypeA)
       (demo_srv\<lparr>sv_cfg := (sv_cfg demo_srv)\<lparr>sc_access := \<lparr>Allow = None, Refuse = None\<rparr>\<rparr>\<rparr>)) = Some [RcodeSuccess] \<and>
   (\<forall>a. \<not> Allowed \<lparr>Allow = None, Refuse = None\<rparr> a)"
proof -
  have "map_option (\<lambda>(_, sv). map msg_rcode (sv_out sv))
     (handle (demo_rq 0 demo_net) \<lparr>w_remote = OtherAddr, w_transport = Some ''doh''\<rparr> (demo_query ''printer.lan.'' TypeA)
       (demo_srv\<lparr>sv_cfg := (sv_cfg demo_srv)\<lparr>sc_access := \<lparr>Allow = None, Refuse = None\<rparr>\<rparr>\<rparr>)) = Some [RcodeSuccess]"
    by code_simp
  then show ?thesis
    by (simp add: Allowed_def)
qed

end
