(* ===== verification/Mdns_Cache.thy ===== *)
theory Mdns_Cache
  imports Model Dns
begin

text \<open>
  Package \<^verbatim>\<open>internal/mdns\<close>, files \<^verbatim>\<open>cache.go\<close> and \<^verbatim>\<open>trust.go\<close>: the store of hosts
  announced on the local network, the separate store of trusted allocations, and the
  view built from both.  Every operation runs under the mutex of the cache.  A Go map
  is an association list whose order is one order of iteration; a set of addresses is
  a list without repetition.  The calls of the change function are returned in order;
  a nil set of addresses is the empty list.
\<close>

section \<open>State\<close>

abbreviation (input) burstWindow :: duration where "burstWindow \<equiv> 5 * second"
abbreviation (input) maxHosts :: nat where "maxHosts \<equiv> 4096"
abbreviation (input) maxTTL :: nat where "maxTTL \<equiv> 4500"
abbreviation (input) staleServeTTL :: nat where "staleServeTTL \<equiv> 30"
abbreviation (input) defaultMaxTrusted :: int where "defaultMaxTrusted \<equiv> 1024"
abbreviation (input) trustedTTL :: nat where "trustedTTL \<equiv> 120"

datatype trust = TrustNone | TrustWeak | TrustStrong

definition triggersDDNS :: "trust \<Rightarrow> bool" where
  "triggersDDNS t \<longleftrightarrow> t \<noteq> TrustNone"

definition isStrong :: "trust \<Rightarrow> bool" where
  "isStrong t \<longleftrightarrow> t = TrustStrong"

record announcement =
  an_host :: string
  an_addrs :: "addr list"
  an_ttl :: nat

record svc_info =
  si_port :: nat
  si_text :: "string list"

record mc_entry =
  me_addrs :: "addr list"
  me_services :: "(string, svc_info) gomap"
  me_info :: string
  me_fresh_until :: time
  me_expiry :: time
  me_last_seen :: time
  me_notified :: string

record trusted_entry =
  te_addrs :: "addr list"
  te_seen :: time

record mcache =
  mc_hosts :: "(string, mc_entry) gomap"
  mc_stale_grace :: duration
  mc_goodbye_grace :: duration
  mc_trusted :: "(string, trusted_entry) gomap"
  mc_trusted_grace :: duration
  mc_max_trusted :: int

definition NewCache :: mcache where
  "NewCache = \<lparr>mc_hosts = [], mc_stale_grace = 0, mc_goodbye_grace = 0, mc_trusted = [],
     mc_trusted_grace = 0, mc_max_trusted = defaultMaxTrusted\<rparr>"

type_synonym change = "string \<times> addr list"

section \<open>Sets of addresses\<close>

definition add_addrs :: "addr list \<Rightarrow> addr list \<Rightarrow> addr list" where
  "add_addrs as old = fold (\<lambda>a s. if a \<in> set s then s else s @ [a]) as old"

definition sortAddrs :: "addr list \<Rightarrow> addr list" where
  "sortAddrs as = sort as"

definition joinAddrs :: "addr list \<Rightarrow> string" where
  "joinAddrs as = Join (map AddrString as) '',''"

definition trustedKey :: "addr list \<Rightarrow> string" where
  "trustedKey as = joinAddrs (sortAddrs as)"

text \<open>The whole seconds left, at least one; the conversion to 32 bits is the wrapping one.\<close>

definition ttlUntil :: "time \<Rightarrow> time \<Rightarrow> nat" where
  "ttlUntil expiry now =
     (let d = expiry - now in if d < second then 1 else to_uint32 (go_quot d second))"

section \<open>The trusted store\<close>

text \<open>The entry with the oldest time, the first one met among equals.\<close>

fun oldest :: "('v \<Rightarrow> time) \<Rightarrow> (string \<times> time) option \<Rightarrow> (string, 'v) gomap \<Rightarrow> (string \<times> time) option" where
  "oldest tm best [] = best"
| "oldest tm best ((h, e) # m) =
     oldest tm (case best of
        None \<Rightarrow> Some (h, tm e)
      | Some (v, t) \<Rightarrow> (if tm e < t then Some (h, tm e) else best)) m"

definition evictOldestTrustedLocked :: "mcache \<Rightarrow> mcache" where
  "evictOldestTrustedLocked c =
     (case oldest te_seen None (mc_trusted c) of
        None \<Rightarrow> c
      | Some (v, _) \<Rightarrow> c\<lparr>mc_trusted := gm_del (mc_trusted c) v\<rparr>)"

definition applyTrustedLocked :: "announcement \<Rightarrow> time \<Rightarrow> mcache \<Rightarrow> bool \<times> mcache" where
  "applyTrustedLocked a now c =
     (if an_ttl a = 0 then
        (if gm_has (mc_trusted c) (an_host a)
         then (True, c\<lparr>mc_trusted := gm_del (mc_trusted c) (an_host a)\<rparr>) else (False, c))
      else
        (case gm_get (mc_trusted c) (an_host a) of
           Some te \<Rightarrow>
             (let base = (if now - te_seen te > burstWindow then [] else te_addrs te);
                  te' = \<lparr>te_addrs = add_addrs (an_addrs a) base, te_seen = now\<rparr> in
              (trustedKey (te_addrs te') \<noteq> trustedKey (te_addrs te),
               c\<lparr>mc_trusted := gm_set (mc_trusted c) (an_host a) te'\<rparr>))
         | None \<Rightarrow>
             (let c1 = (if mc_max_trusted c > 0 \<and> int (length (mc_trusted c)) \<ge> mc_max_trusted c
                        then evictOldestTrustedLocked c else c);
                  te' = \<lparr>te_addrs = add_addrs (an_addrs a) [], te_seen = now\<rparr> in
              (trustedKey (te_addrs te') \<noteq> [],
               c1\<lparr>mc_trusted := gm_set (mc_trusted c1) (an_host a) te'\<rparr>))))"

definition trustedAddrsLocked :: "string \<Rightarrow> time \<Rightarrow> mcache \<Rightarrow> addr list" where
  "trustedAddrsLocked host now c =
     (case gm_get (mc_trusted c) host of
        None \<Rightarrow> []
      | Some te \<Rightarrow>
          if mc_trusted_grace c > 0 \<and> now - te_seen te > mc_trusted_grace c then [] else te_addrs te)"

definition expireTrustedLocked :: "time \<Rightarrow> mcache \<Rightarrow> mcache" where
  "expireTrustedLocked now c =
     (if mc_trusted_grace c \<le> 0 then c
      else c\<lparr>mc_trusted := filter (\<lambda>(_, te). \<not> now - te_seen te > mc_trusted_grace c) (mc_trusted c)\<rparr>)"

section \<open>Announcements\<close>

definition diffLocked :: "mc_entry \<Rightarrow> bool \<times> addr list \<times> mc_entry" where
  "diffLocked e =
     (let sorted = sort (me_addrs e); key = joinAddrs sorted in
      if key = me_notified e then (False, sorted, e) else (True, sorted, e\<lparr>me_notified := key\<rparr>))"

definition evictOldestLocked :: "mcache \<Rightarrow> string \<times> mcache" where
  "evictOldestLocked c =
     (case oldest me_last_seen None (mc_hosts c) of
        None \<Rightarrow> ([], c)
      | Some (v, _) \<Rightarrow> (v, c\<lparr>mc_hosts := gm_del (mc_hosts c) v\<rparr>))"

text \<open>The entry of a host that is not cached yet.\<close>

definition new_entry :: mc_entry where
  "new_entry = \<lparr>me_addrs = [], me_services = [], me_info = [], me_fresh_until = 0, me_expiry = 0,
     me_last_seen = 0, me_notified = []\<rparr>"

text \<open>The entry after an announcement: addresses, the two ends of its life, the time seen.\<close>

definition refresh_entry :: "announcement \<Rightarrow> time \<Rightarrow> bool \<Rightarrow> mcache \<Rightarrow> mc_entry \<Rightarrow> mc_entry" where
  "refresh_entry a now known c e =
     (let goodbye = (an_ttl a = 0 \<and> mc_goodbye_grace c > 0);
          ttl0 = (if an_ttl a = 0 \<and> \<not> goodbye then 120 else an_ttl a);
          ttl = (if ttl0 > maxTTL then maxTTL else ttl0);
          base = (if known \<and> now - me_last_seen e > burstWindow then [] else me_addrs e);
          fresh = (if goodbye then now else now + int ttl * second) in
      e\<lparr>me_addrs := add_addrs (an_addrs a) base, me_last_seen := now, me_fresh_until := fresh,
        me_expiry := (if goodbye then now + mc_goodbye_grace c else fresh + mc_stale_grace c)\<rparr>)"

definition mc_apply :: "announcement \<Rightarrow> time \<Rightarrow> trust \<Rightarrow> mcache \<Rightarrow> bool \<times> change list \<times> mcache" where
  "mc_apply a now tr c =
     (if an_host a = [] \<or> an_addrs a = [] then (False, [], c)
      else
        (let (e0, known, evicted, c1) =
               (case gm_get (mc_hosts c) (an_host a) of
                  Some e \<Rightarrow> (e, True, [], c)
                | None \<Rightarrow>
                    (let (v, c') = (if length (mc_hosts c) \<ge> maxHosts then evictOldestLocked c else ([], c)) in
                     (new_entry, False, v, c')));
             (changed1, addrs, e) = diffLocked (refresh_entry a now known c1 e0);
             c2 = c1\<lparr>mc_hosts := gm_set (mc_hosts c1) (an_host a) e\<rparr>;
             (changed2, c3) = (if isStrong tr then applyTrustedLocked a now c2 else (False, c2));
             changed = (changed1 \<or> changed2);
             evs = (if triggersDDNS tr then
                      (if evicted \<noteq> [] then [(evicted, [])] else []) @
                      (if changed then [(an_host a, addrs)] else [])
                    else []) in
         (changed, evs, c3)))"

definition ApplyService :: "string \<Rightarrow> string \<Rightarrow> nat \<Rightarrow> string list \<Rightarrow> mcache \<Rightarrow> bool \<times> mcache" where
  "ApplyService host typ port text c =
     (if host = [] \<or> typ = [] then (False, c)
      else case gm_get (mc_hosts c) host of
        None \<Rightarrow> (False, c)
      | Some e \<Rightarrow>
          if gm_get (me_services e) typ = Some \<lparr>si_port = port, si_text = text\<rparr> then (False, c)
          else
            (True, c\<lparr>mc_hosts := gm_set (mc_hosts c) host
               (e\<lparr>me_services := gm_set (me_services e) typ \<lparr>si_port = port, si_text = text\<rparr>\<rparr>)\<rparr>))"

definition ApplyInfo :: "string \<Rightarrow> string \<Rightarrow> mcache \<Rightarrow> bool \<times> mcache" where
  "ApplyInfo host desc c =
     (if host = [] \<or> desc = [] then (False, c)
      else case gm_get (mc_hosts c) host of
        None \<Rightarrow> (False, c)
      | Some e \<Rightarrow>
          if me_info e = desc then (False, c)
          else (True, c\<lparr>mc_hosts := gm_set (mc_hosts c) host (e\<lparr>me_info := desc\<rparr>)\<rparr>))"

definition Expire :: "time \<Rightarrow> mcache \<Rightarrow> nat \<times> change list \<times> mcache" where
  "Expire now c =
     (let gone = map fst (filter (\<lambda>(_, e). now > me_expiry e) (mc_hosts c));
          c1 = c\<lparr>mc_hosts := filter (\<lambda>(h, _). h \<notin> set gone) (mc_hosts c)\<rparr> in
      (length gone, map (\<lambda>h. (h, [])) gone, expireTrustedLocked now c1))"

section \<open>The view\<close>

definition gm_append :: "(string, 'v list) gomap \<Rightarrow> string \<Rightarrow> 'v \<Rightarrow> (string, 'v list) gomap" where
  "gm_append m k v = gm_set m k (gm_list m k @ [v])"

definition emit_rr :: "string \<Rightarrow> string \<Rightarrow> nat \<Rightarrow> bool \<Rightarrow> addr \<Rightarrow> mdns_view \<Rightarrow> mdns_view" where
  "emit_rr host fqdn ttl trusted a v =
     (let typ = (if Is6 a then TypeAAAA else TypeA);
          v1 = v\<lparr>v_forward := gm_append (v_forward v) host
                 (zero_rr\<lparr>rr_name := fqdn, rr_type := typ, rr_class := ClassINET, rr_ttl := ttl,
                    rr_content := AddrString a, rr_trusted := trusted\<rparr>)\<rparr> in
      case ReverseAddr (AddrString a) of
        None \<Rightarrow> v1
      | Some arpa \<Rightarrow>
          v1\<lparr>v_reverse := gm_append (v_reverse v1) arpa
            (zero_rr\<lparr>rr_name := arpa, rr_type := TypePTR, rr_class := ClassINET, rr_ttl := ttl,
               rr_content := fqdn, rr_target := fqdn\<rparr>)\<rparr>)"

definition served_ttl :: "mc_entry \<Rightarrow> time \<Rightarrow> nat" where
  "served_ttl e now =
     (if now > me_fresh_until e then
        (let rem = ttlUntil (me_expiry e) now in if rem < staleServeTTL then rem else staleServeTTL)
      else ttlUntil (me_fresh_until e) now)"

definition view_services :: "string \<Rightarrow> mc_entry \<Rightarrow> mdns_view \<Rightarrow> mdns_view" where
  "view_services host e v =
     (if me_services e \<noteq> [] \<and> me_addrs e \<noteq> [] then
        (let svcs = map (\<lambda>(t, si). \<lparr>ms_type = t, ms_port = si_port si, ms_text = si_text si\<rparr>)
                      (sort_key fst (me_services e));
             v1 = v\<lparr>v_services := gm_set (v_services v) host svcs\<rparr> in
         if me_info e \<noteq> [] then v1\<lparr>v_info := gm_set (v_info v1) host (me_info e)\<rparr> else v1)
      else v)"

definition view_host :: "time \<Rightarrow> mcache \<Rightarrow> string \<Rightarrow> mdns_view \<Rightarrow> mdns_view" where
  "view_host now c host v =
     (let fqdn = host @ ''.local.''; tr = trustedAddrsLocked host now c;
          v1 = fold (emit_rr host fqdn trustedTTL True) (sortAddrs tr) v in
      case gm_get (mc_hosts c) host of
        None \<Rightarrow> v1
      | Some e \<Rightarrow>
          if now > me_expiry e then v1
          else
            view_services host e
              (fold (emit_rr host fqdn (served_ttl e now) False)
                 (filter (\<lambda>a. a \<notin> set tr) (sortAddrs (me_addrs e))) v1))"

definition view_hosts :: "mcache \<Rightarrow> string list" where
  "view_hosts c = map fst (mc_hosts c) @ filter (\<lambda>h. \<not> gm_has (mc_hosts c) h) (map fst (mc_trusted c))"

definition mc_view :: "time \<Rightarrow> mcache \<Rightarrow> mdns_view" where
  "mc_view now c =
     fold (view_host now c) (view_hosts c)
       \<lparr>v_forward = [], v_reverse = [], v_services = [], v_info = [], v_built_at = Some now\<rparr>"

definition mc_len :: "mcache \<Rightarrow> nat" where
  "mc_len c = length (mc_hosts c)"

section \<open>Runs\<close>

datatype mc_op =
    MApply announcement time trust
  | MService string string nat "string list"
  | MInfo string string
  | MExpire time

fun mc_step :: "mc_op \<Rightarrow> mcache \<Rightarrow> mcache" where
  "mc_step (MApply a now tr) c = snd (snd (mc_apply a now tr c))"
| "mc_step (MService host typ port text) c = snd (ApplyService host typ port text c)"
| "mc_step (MInfo host desc) c = snd (ApplyInfo host desc c)"
| "mc_step (MExpire now) c = snd (snd (Expire now c))"

text \<open>What an announcement makes of the two stores, and what it reports.\<close>

definition apply_base :: "announcement \<Rightarrow> mcache \<Rightarrow> mc_entry \<times> bool \<times> string \<times> mcache" where
  "apply_base a c =
     (case gm_get (mc_hosts c) (an_host a) of
        Some e \<Rightarrow> (e, True, [], c)
      | None \<Rightarrow>
          (let (v, c') = (if length (mc_hosts c) \<ge> maxHosts then evictOldestLocked c else ([], c)) in
           (new_entry, False, v, c')))"

lemma mc_apply_cases:
  assumes "an_host a \<noteq> []" "an_addrs a \<noteq> []"
  obtains e0 known v c1 ch1 as e where "apply_base a c = (e0, known, v, c1)"
    "diffLocked (refresh_entry a now known c1 e0) = (ch1, as, e)"
    "snd (snd (mc_apply a now tr c)) =
      (let c2 = c1\<lparr>mc_hosts := gm_set (mc_hosts c1) (an_host a) e\<rparr> in
       if isStrong tr then snd (applyTrustedLocked a now c2) else c2)"
    "\<not> triggersDDNS tr \<Longrightarrow> fst (snd (mc_apply a now tr c)) = []"
proof -
  obtain e0 known v c1 where b: "apply_base a c = (e0, known, v, c1)"
    by (metis prod_cases4)
  obtain ch1 as e where d: "diffLocked (refresh_entry a now known c1 e0) = (ch1, as, e)"
    by (metis prod_cases3)
  show ?thesis
    by (rule that [OF b d]) (use assms b d in \<open>simp_all add: mc_apply_def apply_base_def [symmetric] Let_def
        split: prod.splits\<close>)
qed

definition same_trusted :: "mcache \<Rightarrow> mcache \<Rightarrow> bool" where
  "same_trusted c c' \<longleftrightarrow> mc_trusted c' = mc_trusted c \<and> mc_trusted_grace c' = mc_trusted_grace c \<and>
     mc_max_trusted c' = mc_max_trusted c"

lemma evictOldest_trusted: "evictOldestLocked c = (v, c1) \<Longrightarrow> same_trusted c c1"
  by (auto simp: evictOldestLocked_def same_trusted_def split: option.splits)

lemma apply_base_trusted: "apply_base a c = (e0, known, v, c1) \<Longrightarrow> same_trusted c c1"
  using evictOldest_trusted [of c v c1]
  by (auto simp: apply_base_def same_trusted_def split: option.splits prod.splits if_splits)

lemma applyTrusted_cong:
  "same_trusted c c' \<Longrightarrow> same_trusted (snd (applyTrustedLocked a now c)) (snd (applyTrustedLocked a now c'))"
  by (auto simp: same_trusted_def applyTrustedLocked_def evictOldestTrustedLocked_def Let_def split: option.splits)

section \<open>Who can write the trusted store\<close>

fun authentic :: "mc_op \<Rightarrow> bool" where
  "authentic (MApply a now tr) = isStrong tr"
| "authentic (MExpire now) = True"
| "authentic _ = False"

lemma step_not_authentic: "\<not> authentic op \<Longrightarrow> same_trusted c (mc_step op c)"
proof (cases op)
  case (MApply a now tr)
  assume "\<not> authentic op"
  then have ns: "\<not> isStrong tr"
    using MApply by simp
  show ?thesis
  proof (cases "an_host a = [] \<or> an_addrs a = []")
    case False
    then have ne: "an_host a \<noteq> []" "an_addrs a \<noteq> []"
      by auto
    show ?thesis
      by (rule mc_apply_cases [OF ne, of c now tr])
        (use apply_base_trusted MApply ns in \<open>fastforce simp: same_trusted_def\<close>)
  qed (simp add: MApply mc_apply_def same_trusted_def)
qed (auto simp: ApplyService_def ApplyInfo_def same_trusted_def split: option.splits)

lemma step_authentic:
  assumes "authentic op" "same_trusted c c'"
  shows "same_trusted (mc_step op c) (mc_step op c')"
proof (cases op)
  case (MApply a now tr)
  then have strong: "isStrong tr"
    using assms(1) by simp
  show ?thesis
  proof (cases "an_host a = [] \<or> an_addrs a = []")
    case False
    then have ne: "an_host a \<noteq> []" "an_addrs a \<noteq> []"
      by auto
    have *: "\<exists>d. same_trusted c d \<and> snd (snd (mc_apply a now tr c)) = snd (applyTrustedLocked a now d)" for c
    proof (rule mc_apply_cases [OF ne, of c now tr])
      fix e0 known v c1 ch1 as e
      assume b: "apply_base a c = (e0, known, v, c1)"
        and r: "snd (snd (mc_apply a now tr c)) =
          (let c2 = c1\<lparr>mc_hosts := gm_set (mc_hosts c1) (an_host a) e\<rparr> in
           if isStrong tr then snd (applyTrustedLocked a now c2) else c2)"
      have "same_trusted c (c1\<lparr>mc_hosts := gm_set (mc_hosts c1) (an_host a) e\<rparr>)"
        using apply_base_trusted [OF b] by (simp add: same_trusted_def)
      then show ?thesis
        using r strong unfolding Let_def by auto
    qed
    obtain d d' where "same_trusted c d" "mc_step op c = snd (applyTrustedLocked a now d)"
      "same_trusted c' d'" "mc_step op c' = snd (applyTrustedLocked a now d')"
      using * [of c] * [of c'] MApply by auto
    moreover from this have "same_trusted d d'"
      using assms(2) by (simp add: same_trusted_def)
    ultimately show ?thesis
      using applyTrusted_cong by simp
  qed (use assms(2) in \<open>simp add: MApply mc_apply_def\<close>)
next
  case (MExpire now)
  then show ?thesis
    using assms(2) by (simp add: Expire_def expireTrustedLocked_def same_trusted_def Let_def)
qed (use assms in simp_all)

lemma run_same_trusted:
  "same_trusted c c' \<Longrightarrow> same_trusted (fold mc_step ops c) (fold mc_step (filter authentic ops) c')"
proof (induction ops arbitrary: c c')
  case (Cons op ops)
  show ?case
  proof (cases "authentic op")
    case True
    then show ?thesis
      using Cons.IH step_authentic Cons.prems by simp
  next
    case False
    have "same_trusted (mc_step op c) c'"
      using step_not_authentic [OF False, of c] Cons.prems by (simp add: same_trusted_def)
    then show ?thesis
      using Cons.IH False by simp
  qed
qed simp

lemma untrusted_reports_nothing: "fst (snd (mc_apply a now TrustNone c)) = []"
proof (cases "an_host a = [] \<or> an_addrs a = []")
  case False
  then have ne: "an_host a \<noteq> []" "an_addrs a \<noteq> []"
    by auto
  show ?thesis
    by (rule mc_apply_cases [OF ne, of c now TrustNone]) (simp add: triggersDDNS_def)
qed (simp add: mc_apply_def)

text \<open>
  The change function is not isolated in the same way: it is called with the address
  set of the volatile entry, which unites the announcements of a burst whatever their
  tier.  An address that an unauthenticated announcement adds is reported for the host,
  and so written to the provider, with the next authenticated announcement within
  five seconds.
\<close>

theorem untrusted_address_reaches_writer:
  "fst (snd (mc_apply \<lparr>an_host = ''nas'', an_addrs = [Addr4 0xc0a8010a], an_ttl = 120\<rparr> (4 * second) TrustStrong
     (mc_step (MApply \<lparr>an_host = ''nas'', an_addrs = [Addr4 0x0a000042], an_ttl = 120\<rparr> 0 TrustNone) NewCache))) =
     [(''nas'', [Addr4 0x0a000042, Addr4 0xc0a8010a])]"
  by code_simp

section \<open>Bounds\<close>

definition me_ok :: "mc_entry \<Rightarrow> bool" where
  "me_ok e \<longleftrightarrow> distinct (me_addrs e) \<and> me_addrs e \<noteq> [] \<and>
     me_fresh_until e \<le> me_last_seen e + int maxTTL * second"

definition mc_inv :: "mcache \<Rightarrow> bool" where
  "mc_inv c \<longleftrightarrow> gm_ok (mc_hosts c) \<and> length (mc_hosts c) \<le> maxHosts \<and> (\<forall>(h, e)\<in>set (mc_hosts c). h \<noteq> [] \<and> me_ok e) \<and>
     gm_ok (mc_trusted c) \<and> 0 < mc_max_trusted c \<and> int (length (mc_trusted c)) \<le> mc_max_trusted c \<and>
     (\<forall>(h, te)\<in>set (mc_trusted c). h \<noteq> [] \<and> distinct (te_addrs te) \<and> te_addrs te \<noteq> [])"

lemma add_addrs_set: "set (add_addrs as old) = set as \<union> set old"
  unfolding add_addrs_def by (induction as arbitrary: old) auto

lemma add_addrs_distinct: "distinct old \<Longrightarrow> distinct (add_addrs as old)"
  unfolding add_addrs_def by (induction as arbitrary: old) auto

lemma add_addrs_nonempty: "as \<noteq> [] \<Longrightarrow> add_addrs as old \<noteq> []"
  using add_addrs_set [of as old] by auto

lemma oldest_key:
  "oldest f best m = Some (v, t) \<Longrightarrow> best = Some (v, t) \<or> v \<in> fst ` set m"
  by (induction f best m rule: oldest.induct) (auto split: option.splits if_splits)

lemma oldest_some: "best \<noteq> None \<or> m \<noteq> [] \<Longrightarrow> oldest f best m \<noteq> None"
  by (induction f best m rule: oldest.induct) (auto split: option.splits)

lemma gm_del_size: "gm_ok m \<Longrightarrow> v \<in> fst ` set m \<Longrightarrow> length (gm_del m v) = length m - 1"
  using gm.size_del [of m v] by (auto simp: map_of_eq_None_iff)

lemma gm_del_subset: "set (gm_del m k) \<subseteq> set m"
  by (induction m) auto

lemma evict_hosts_inv:
  assumes "mc_inv c" "evictOldestLocked c = (v, c1)" "mc_hosts c \<noteq> []"
  shows "mc_inv c1 \<and> length (mc_hosts c1) = length (mc_hosts c) - 1"
proof -
  obtain k t where k: "oldest me_last_seen None (mc_hosts c) = Some (k, t)" "k \<in> fst ` set (mc_hosts c)"
    using oldest_some [of None "mc_hosts c" me_last_seen] oldest_key [of me_last_seen None "mc_hosts c"] assms(3) by auto
  then have c1: "c1 = c\<lparr>mc_hosts := gm_del (mc_hosts c) k\<rparr>"
    using assms(2) by (auto simp: evictOldestLocked_def)
  have len: "length (gm_del (mc_hosts c) k) = length (mc_hosts c) - 1"
    by (rule gm_del_size) (use k(2) assms(1) in \<open>simp_all add: mc_inv_def\<close>)
  then show ?thesis
    using assms(1) gm_del_subset [of k "mc_hosts c"] by (auto simp: c1 mc_inv_def)
qed

lemma apply_base_inv:
  assumes "mc_inv c" "an_host a \<noteq> []" "apply_base a c = (e0, known, v, c1)"
  shows "mc_inv c1" "distinct (me_addrs e0)"
    "gm_get (mc_hosts c1) (an_host a) \<noteq> None \<or> length (mc_hosts c1) < maxHosts"
proof -
  have "mc_inv c1 \<and> distinct (me_addrs e0) \<and> (gm_get (mc_hosts c1) (an_host a) \<noteq> None \<or> length (mc_hosts c1) < maxHosts)"
  proof (cases "gm_get (mc_hosts c) (an_host a)")
    case (Some e)
    then show ?thesis
      using assms map_of_SomeD [OF Some] by (auto simp: apply_base_def mc_inv_def me_ok_def)
  next
    case None
    show ?thesis
    proof (cases "length (mc_hosts c) \<ge> maxHosts")
      case True
      then have "mc_hosts c \<noteq> []" "evictOldestLocked c = (v, c1)" "e0 = new_entry"
        using None assms(3) by (auto simp: apply_base_def split: prod.splits)
      moreover from this have "length (mc_hosts c1) = length (mc_hosts c) - 1" "mc_inv c1"
        using evict_hosts_inv assms(1) by blast+
      moreover have "length (mc_hosts c) \<le> maxHosts"
        using assms(1) by (simp add: mc_inv_def)
      ultimately show ?thesis
        using length_greater_0_conv [of "mc_hosts c"] by (simp add: new_entry_def) linarith
    qed (use None assms in \<open>auto simp: apply_base_def new_entry_def\<close>)
  qed
  then show "mc_inv c1" "distinct (me_addrs e0)"
    "gm_get (mc_hosts c1) (an_host a) \<noteq> None \<or> length (mc_hosts c1) < maxHosts"
    by auto
qed

lemma refresh_ok:
  "distinct (me_addrs e0) \<Longrightarrow> an_addrs a \<noteq> [] \<Longrightarrow> me_ok (refresh_entry a now known c e0)"
  by (auto simp: refresh_entry_def me_ok_def Let_def add_addrs_distinct add_addrs_nonempty)

lemma diff_ok: "diffLocked e = (ch, as, e') \<Longrightarrow> me_ok e \<Longrightarrow> me_ok e'"
  by (auto simp: diffLocked_def me_ok_def Let_def split: if_splits)

lemma set_host_inv:
  assumes "mc_inv c" "h \<noteq> []" "me_ok e" "gm_get (mc_hosts c) h \<noteq> None \<or> length (mc_hosts c) < maxHosts"
  shows "mc_inv (c\<lparr>mc_hosts := gm_set (mc_hosts c) h e\<rparr>)"
  using assms gm_set_subset [of h e "mc_hosts c"] by (auto simp: mc_inv_def gm_size_set)

lemma set_trusted_inv:
  assumes "mc_inv c" "h \<noteq> []" "distinct (te_addrs te)" "te_addrs te \<noteq> []"
    "gm_get (mc_trusted c) h \<noteq> None \<or> int (length (mc_trusted c)) < mc_max_trusted c"
  shows "mc_inv (c\<lparr>mc_trusted := gm_set (mc_trusted c) h te\<rparr>)"
  using assms gm_set_subset [of h te "mc_trusted c"] by (auto simp: mc_inv_def gm_size_set)

lemma evict_trusted_inv:
  assumes "mc_inv c" "mc_trusted c \<noteq> []"
  shows "mc_inv (evictOldestTrustedLocked c) \<and>
    length (mc_trusted (evictOldestTrustedLocked c)) = length (mc_trusted c) - 1"
proof -
  obtain k t where k: "oldest te_seen None (mc_trusted c) = Some (k, t)" "k \<in> fst ` set (mc_trusted c)"
    using oldest_some [of None "mc_trusted c" te_seen] oldest_key [of te_seen None "mc_trusted c"] assms(2) by auto
  have len: "length (gm_del (mc_trusted c) k) = length (mc_trusted c) - 1"
    by (rule gm_del_size) (use k(2) assms(1) in \<open>simp_all add: mc_inv_def\<close>)
  then show ?thesis
    using assms(1) k gm_del_subset [of k "mc_trusted c"]
    by (auto simp: evictOldestTrustedLocked_def mc_inv_def)
qed

lemma applyTrusted_inv:
  assumes "mc_inv c" "an_host a \<noteq> []" "an_addrs a \<noteq> []"
  shows "mc_inv (snd (applyTrustedLocked a now c))"
proof (cases "gm_get (mc_trusted c) (an_host a)")
  case None
  let ?c1 = "if mc_max_trusted c > 0 \<and> int (length (mc_trusted c)) \<ge> mc_max_trusted c then evictOldestTrustedLocked c else c"
  let ?te = "\<lparr>te_addrs = add_addrs (an_addrs a) [], te_seen = now\<rparr>"
  have max: "mc_max_trusted (evictOldestTrustedLocked c) = mc_max_trusted c"
    by (simp add: evictOldestTrustedLocked_def split: option.splits)
  have "mc_inv ?c1 \<and> int (length (mc_trusted ?c1)) < mc_max_trusted ?c1"
  proof (cases "int (length (mc_trusted c)) \<ge> mc_max_trusted c")
    case True
    have b: "0 < mc_max_trusted c" "int (length (mc_trusted c)) \<le> mc_max_trusted c"
      using assms(1) by (simp_all add: mc_inv_def)
    then have "mc_trusted c \<noteq> []"
      using True by auto
    then show ?thesis
      using evict_trusted_inv [OF assms(1)] True b max by (cases "mc_trusted c") auto
  qed (use assms(1) in simp)
  then have "mc_inv (?c1\<lparr>mc_trusted := gm_set (mc_trusted ?c1) (an_host a) ?te\<rparr>)"
    using assms by (intro set_trusted_inv) (auto simp: add_addrs_distinct add_addrs_nonempty)
  then show ?thesis
    using None assms(1) by (simp add: applyTrustedLocked_def gm_has_def Let_def)
next
  case (Some te)
  have "distinct (te_addrs te)"
    using assms(1) map_of_SomeD [OF Some] by (auto simp: mc_inv_def)
  then have "mc_inv (c\<lparr>mc_trusted := gm_set (mc_trusted c) (an_host a)
      \<lparr>te_addrs = add_addrs (an_addrs a) (if now - te_seen te > burstWindow then [] else te_addrs te), te_seen = now\<rparr>\<rparr>)"
    using assms Some by (intro set_trusted_inv) (auto simp: add_addrs_distinct add_addrs_nonempty)
  moreover have "mc_inv (c\<lparr>mc_trusted := gm_del (mc_trusted c) (an_host a)\<rparr>)"
    using assms(1) gm_del_subset [of "an_host a" "mc_trusted c"] gm.size_del [of "mc_trusted c" "an_host a"]
    by (auto simp: mc_inv_def)
  ultimately show ?thesis
    using Some assms(1) by (simp add: applyTrustedLocked_def gm_has_def Let_def)
qed

lemma mc_step_inv: "mc_inv c \<Longrightarrow> mc_inv (mc_step op c)"
proof (cases op)
  case (MApply a now tr)
  assume c: "mc_inv c"
  show ?thesis
  proof (cases "an_host a = [] \<or> an_addrs a = []")
    case False
    then have ne: "an_host a \<noteq> []" "an_addrs a \<noteq> []"
      by auto
    show ?thesis
    proof (rule mc_apply_cases [OF ne, of c now tr])
      fix e0 known v c1 ch1 as e
      assume b: "apply_base a c = (e0, known, v, c1)" "diffLocked (refresh_entry a now known c1 e0) = (ch1, as, e)"
        "snd (snd (mc_apply a now tr c)) =
          (let c2 = c1\<lparr>mc_hosts := gm_set (mc_hosts c1) (an_host a) e\<rparr> in
           if isStrong tr then snd (applyTrustedLocked a now c2) else c2)"
      have "me_ok e"
        using diff_ok [OF b(2)] refresh_ok apply_base_inv(2) [OF c ne(1) b(1)] ne(2) by blast
      then have "mc_inv (c1\<lparr>mc_hosts := gm_set (mc_hosts c1) (an_host a) e\<rparr>)"
        using set_host_inv apply_base_inv(1,3) [OF c ne(1) b(1)] ne(1) by blast
      then show ?thesis
        using b(3) applyTrusted_inv [OF _ ne] MApply by (simp add: Let_def)
    qed
  qed (use c in \<open>simp add: MApply mc_apply_def\<close>)
next
  case (MService host ty port strs)
  assume c: "mc_inv c"
  have "mc_inv (c\<lparr>mc_hosts := gm_set (mc_hosts c) host (e\<lparr>me_services := s\<rparr>)\<rparr>)"
    if "gm_get (mc_hosts c) host = Some e" for e s
    using c that map_of_SomeD [OF that] by (intro set_host_inv) (auto simp: mc_inv_def me_ok_def)
  then show ?thesis
    using c MService by (auto simp: ApplyService_def split: option.splits)
next
  case (MInfo host desc)
  assume c: "mc_inv c"
  have "mc_inv (c\<lparr>mc_hosts := gm_set (mc_hosts c) host (e\<lparr>me_info := s\<rparr>)\<rparr>)"
    if "gm_get (mc_hosts c) host = Some e" for e s
    using c that map_of_SomeD [OF that] by (intro set_host_inv) (auto simp: mc_inv_def me_ok_def)
  then show ?thesis
    using c MInfo by (auto simp: ApplyInfo_def split: option.splits)
next
  case (MExpire now)
  assume c: "mc_inv c"
  have f: "length (filter P m) \<le> n" if "length m \<le> n" for P and m :: "('x \<times> 'y) list" and n
    using that by (meson length_filter_le order_trans)
  have g: "int (length (filter P m)) \<le> n" if "int (length m) \<le> n" for P and m :: "('x \<times> 'y) list" and n
    using that f [of m "nat n" P] by linarith
  show ?thesis
    using c by (auto simp: MExpire Expire_def expireTrustedLocked_def mc_inv_def Let_def gm_ok_filter f g)
qed

interpretation mcm: op_machine mc_step mc_inv
  by unfold_locales (rule mc_step_inv)

text \<open>
  C26. The two stores have a bounded number of entries: from the start of the program,
  whatever is announced in whatever order, there are at most 4096 hosts and at most the
  configured number of trusted allocations, one entry per name, every entry has at
  least one address and no address twice, and no entry is fresh for more than 4500
  seconds after its last announcement.  The size of one entry is not bounded.
\<close>

theorem mdns_cache_bounded:
  assumes "0 < max_trusted"
  shows "mc_inv (fold mc_step ops (NewCache\<lparr>mc_stale_grace := g1, mc_goodbye_grace := g2,
    mc_trusted_grace := g3, mc_max_trusted := max_trusted\<rparr>))"
  by (rule mcm.run_inv) (use assms in \<open>simp add: mc_inv_def NewCache_def gm_ok_def\<close>)

theorem mdns_cache_bounded_witness:
  "mc_inv (fold mc_step [MApply \<lparr>an_host = ''nas'', an_addrs = [Addr4 7], an_ttl = 99999\<rparr> 0 TrustStrong, MExpire 9]
     (NewCache\<lparr>mc_stale_grace := 0, mc_goodbye_grace := 0, mc_trusted_grace := 0, mc_max_trusted := 1\<rparr>))"
  by (rule mdns_cache_bounded) simp

text \<open>
  The address set of one entry has no bound: announcements that follow each other
  within five seconds add up, so any number of addresses announced for one host in one
  burst is kept.
\<close>

theorem burst_addresses_unbounded:
  assumes "distinct as" "as \<noteq> []"
  shows "\<exists>e. gm_get (mc_hosts (fold mc_step
      (map (\<lambda>a. MApply \<lparr>an_host = ''nas'', an_addrs = [a], an_ttl = 120\<rparr> 0 TrustNone) as) NewCache)) ''nas'' = Some e \<and>
    me_addrs e = as \<and> me_last_seen e = 0"
  using assms
proof (induction as rule: rev_induct)
  case (snoc a as)
  let ?run = "fold mc_step (map (\<lambda>a. MApply \<lparr>an_host = ''nas'', an_addrs = [a], an_ttl = 120\<rparr> 0 TrustNone) as) NewCache"
  show ?case
  proof (cases "as = []")
    case True
    then show ?thesis
      by (simp add: mc_apply_def NewCache_def refresh_entry_def new_entry_def diffLocked_def add_addrs_def isStrong_def
          Let_def split: prod.splits)
  next
    case False
    then obtain e where "gm_get (mc_hosts ?run) ''nas'' = Some e" "me_addrs e = as" "me_last_seen e = 0"
      using snoc by auto
    then show ?thesis
      using snoc.prems(1)
      by (simp add: mc_apply_def refresh_entry_def diffLocked_def add_addrs_def isStrong_def update_conv' Let_def
          split: prod.splits)
  qed
qed simp

section \<open>What the view serves\<close>

definition host_rr :: "string \<Rightarrow> nat \<Rightarrow> bool \<Rightarrow> addr \<Rightarrow> rr" where
  "host_rr host ttl trusted a =
     zero_rr\<lparr>rr_name := host @ ''.local.'', rr_type := (if Is6 a then TypeAAAA else TypeA), rr_class := ClassINET,
       rr_ttl := ttl, rr_content := AddrString a, rr_trusted := trusted\<rparr>"

definition live_entry :: "time \<Rightarrow> mcache \<Rightarrow> string \<Rightarrow> mc_entry option" where
  "live_entry now c h =
     (case gm_get (mc_hosts c) h of None \<Rightarrow> None | Some e \<Rightarrow> if now > me_expiry e then None else Some e)"

text \<open>The records of one host: its trusted addresses in order, then the other live ones.\<close>

definition host_rrs :: "time \<Rightarrow> mcache \<Rightarrow> string \<Rightarrow> rr list" where
  "host_rrs now c h =
     (let tr = trustedAddrsLocked h now c in
      map (host_rr h trustedTTL True) (sort tr) @
      (case live_entry now c h of
         None \<Rightarrow> []
       | Some e \<Rightarrow> map (host_rr h (served_ttl e now) False) (filter (\<lambda>a. a \<notin> set tr) (sort (me_addrs e)))))"

lemma emit_forward:
  "gm_list (v_forward (emit_rr host (host @ ''.local.'') ttl t a v)) k =
     gm_list (v_forward v) k @ (if k = host then [host_rr host ttl t a] else [])"
  by (simp add: emit_rr_def Let_def gm_append_def gm_list_set host_rr_def split: option.splits)

lemma fold_emit_forward:
  "gm_list (v_forward (fold (emit_rr host (host @ ''.local.'') ttl t) as v)) k =
     gm_list (v_forward v) k @ (if k = host then map (host_rr host ttl t) as else [])"
  by (induction as arbitrary: v) (simp_all add: emit_forward)

lemma view_services_forward [simp]: "v_forward (view_services h e v) = v_forward v"
  by (simp add: view_services_def Let_def)

lemma view_host_forward:
  "gm_list (v_forward (view_host now c host v)) k =
     gm_list (v_forward v) k @ (if k = host then host_rrs now c host else [])"
  by (simp add: view_host_def host_rrs_def live_entry_def Let_def sortAddrs_def fold_emit_forward split: option.splits)

lemma fold_view_forward:
  "distinct hs \<Longrightarrow> gm_list (v_forward (fold (view_host now c) hs v)) k =
     gm_list (v_forward v) k @ (if k \<in> set hs then host_rrs now c k else [])"
  by (induction hs arbitrary: v) (auto simp: view_host_forward)

lemma host_rrs_none: "gm_get (mc_hosts c) h = None \<Longrightarrow> gm_get (mc_trusted c) h = None \<Longrightarrow> host_rrs now c h = []"
  by (simp add: host_rrs_def live_entry_def trustedAddrsLocked_def)

lemma view_forward:
  assumes "gm_ok (mc_hosts c)" "gm_ok (mc_trusted c)"
  shows "gm_list (v_forward (mc_view now c)) h = host_rrs now c h"
proof -
  have "distinct (view_hosts c)"
    using assms by (auto simp: view_hosts_def gm_ok_def gm_has_def map_of_eq_None_iff)
  moreover have "h \<in> set (view_hosts c) \<longleftrightarrow> gm_get (mc_hosts c) h \<noteq> None \<or> gm_get (mc_trusted c) h \<noteq> None"
    by (auto simp: view_hosts_def gm_has_def map_of_eq_None_iff)
  ultimately show ?thesis
    using host_rrs_none by (simp add: mc_view_def fold_view_forward) (auto simp: gm_list_def)
qed

lemma host_rr_simps [simp]:
  "rr_trusted (host_rr h ttl t a) = t" "rr_ttl (host_rr h ttl t a) = ttl" "rr_content (host_rr h ttl t a) = AddrString a"
  by (simp_all add: host_rr_def)

lemma host_rrs_trusted:
  "filter rr_trusted (host_rrs now c h) = map (host_rr h trustedTTL True) (sort (trustedAddrsLocked h now c))"
  by (auto simp: host_rrs_def Let_def filter_map comp_def split: option.splits)

lemma ttlUntil_bounds:
  assumes "expiry - now \<le> int n * second" "1 \<le> n" "n < 2 ^ 32"
  shows "1 \<le> ttlUntil expiry now \<and> ttlUntil expiry now \<le> n"
proof (cases "expiry - now < second")
  case False
  let ?q = "(expiry - now) div second"
  have q: "1 \<le> ?q" "?q \<le> int n"
    using False assms(1) zdiv_mono1 [of "second" "expiry - now" second] zdiv_mono1 [OF assms(1), of second]
    by simp_all
  moreover have "ttlUntil expiry now = nat ?q"
    using False q assms(3) by (simp add: ttlUntil_def Let_def go_quot_def to_uint32_def)
  ultimately show ?thesis
    by linarith
qed (use assms(2) in \<open>simp add: ttlUntil_def\<close>)

lemma ttlUntil_pos:
  assumes "expiry - now < 2 ^ 32 * second"
  shows "1 \<le> ttlUntil expiry now"
proof (cases "expiry - now < second")
  case False
  let ?q = "(expiry - now) div second"
  have q: "1 \<le> ?q" "?q < 2 ^ 32"
    using False assms zdiv_mono1 [of "second" "expiry - now" second] by simp_all
  then show ?thesis
    using False by (simp add: ttlUntil_def Let_def go_quot_def to_uint32_def)
qed (simp add: ttlUntil_def)

text \<open>
  C25. The published view is exact and bounded: for every host it holds, in the order
  of the addresses, the trusted addresses with the short trusted lifetime, and after
  them the announced ones that have not expired and are not trusted; the order in
  which the maps are walked does not matter.  When the view is built no earlier than
  the announcements (and no entry is kept for 136 years), every lifetime is between 1 and 4500 seconds.
\<close>

theorem mdns_view_exact:
  assumes "mc_inv c"
  shows "gm_list (v_forward (mc_view now c)) h = host_rrs now c h \<and>
    ((\<forall>(k, e)\<in>set (mc_hosts c). me_last_seen e \<le> now \<and> me_expiry e - now < 2 ^ 32 * second) \<longrightarrow>
      (\<forall>r\<in>set (gm_list (v_forward (mc_view now c)) h). 1 \<le> rr_ttl r \<and> rr_ttl r \<le> maxTTL))"
proof -
  have v: "gm_list (v_forward (mc_view now c)) h = host_rrs now c h"
    using assms by (intro view_forward) (simp_all add: mc_inv_def)
  have "1 \<le> served_ttl e now \<and> served_ttl e now \<le> maxTTL"
    if "live_entry now c h = Some e"
      "\<forall>(k, e)\<in>set (mc_hosts c). me_last_seen e \<le> now \<and> me_expiry e - now < 2 ^ 32 * second" for e
  proof -
    have e: "(h, e) \<in> set (mc_hosts c)" "\<not> now > me_expiry e"
      using that(1) map_of_SomeD by (fastforce simp: live_entry_def split: option.splits if_splits)+
    then have "me_fresh_until e - now \<le> int maxTTL * second"
      using assms that(2) by (fastforce simp: mc_inv_def me_ok_def)
    then have "1 \<le> ttlUntil (me_fresh_until e) now \<and> ttlUntil (me_fresh_until e) now \<le> maxTTL"
      by (rule ttlUntil_bounds) simp_all
    moreover have "1 \<le> ttlUntil (me_expiry e) now"
      using that(2) e(1) by (intro ttlUntil_pos) fastforce
    ultimately show ?thesis
      by (auto simp: served_ttl_def Let_def)
  qed
  then show ?thesis
    unfolding v by (auto simp: host_rrs_def Let_def split: option.splits)
qed

definition demo_ops :: "mc_op list" where
  "demo_ops =
     [MApply \<lparr>an_host = ''nas'', an_addrs = [Addr4 0xc0a8010a], an_ttl = 99999\<rparr> 0 TrustStrong,
      MApply \<lparr>an_host = ''nas'', an_addrs = [Addr4 0x0a0a0a0a], an_ttl = 99999\<rparr> second TrustNone]"

lemma NewCache_inv: "mc_inv NewCache"
  by (simp add: mc_inv_def NewCache_def gm_ok_def)

theorem mdns_view_exact_witness:
  "map (\<lambda>r. (rr_content r, rr_ttl r, rr_trusted r)) (gm_list (v_forward (mc_view second (fold mc_step demo_ops NewCache))) ''nas'') =
     [(''192.168.1.10'', 120, True), (''10.10.10.10'', 4500, False)]"
proof -
  have "mc_inv (fold mc_step demo_ops NewCache)"
    by (rule mcm.run_inv [OF NewCache_inv])
  moreover have "map (\<lambda>r. (rr_content r, rr_ttl r, rr_trusted r)) (host_rrs second (fold mc_step demo_ops NewCache) ''nas'') =
     [(''192.168.1.10'', 120, True), (''10.10.10.10'', 4500, False)]"
    by code_simp
  ultimately show ?thesis
    using mdns_view_exact [of "fold mc_step demo_ops NewCache" second "''nas''"] by simp
qed

text \<open>
  C6. Only strongly authenticated announcements make trusted data: after any
  interleaving of announcements of every tier, service and device records and expiry,
  the trusted store, and every record that the published view marks as trusted, is what
  the strongly authenticated announcements and the expiry runs alone produce; no other
  packet adds, changes, evicts or removes a trusted address.  An unauthenticated
  announcement is itself reported to nobody.
\<close>

theorem trusted_store_isolated:
  assumes "mc_inv c"
  shows "mc_trusted (fold mc_step ops c) = mc_trusted (fold mc_step (filter authentic ops) c) \<and>
    filter rr_trusted (gm_list (v_forward (mc_view now (fold mc_step ops c))) h) =
      filter rr_trusted (gm_list (v_forward (mc_view now (fold mc_step (filter authentic ops) c))) h) \<and>
    fst (snd (mc_apply a now TrustNone (fold mc_step ops c))) = []"
proof -
  have t: "same_trusted (fold mc_step ops c) (fold mc_step (filter authentic ops) c)"
    by (rule run_same_trusted) (simp add: same_trusted_def)
  have i: "mc_inv (fold mc_step ops c)" "mc_inv (fold mc_step (filter authentic ops) c)"
    by (rule mcm.run_inv [OF assms])+
  have v: "gm_list (v_forward (mc_view now d)) h = host_rrs now d h" if "mc_inv d" for d
    using that by (intro view_forward) (simp_all add: mc_inv_def)
  have "trustedAddrsLocked h now (fold mc_step ops c) = trustedAddrsLocked h now (fold mc_step (filter authentic ops) c)"
    using t by (simp add: trustedAddrsLocked_def same_trusted_def split: option.splits)
  then show ?thesis
    using t by (simp add: v [OF i(1)] v [OF i(2)] host_rrs_trusted untrusted_reports_nothing same_trusted_def)
qed

theorem trusted_store_isolated_witness:
  "map rr_content (filter rr_trusted (gm_list (v_forward (mc_view second (fold mc_step demo_ops NewCache))) ''nas'')) =
     [''192.168.1.10'']"
proof -
  have "map rr_content (filter rr_trusted (gm_list (v_forward (mc_view second
      (fold mc_step (filter authentic demo_ops) NewCache))) ''nas'')) = [''192.168.1.10'']"
    by code_simp
  then show ?thesis
    using trusted_store_isolated [OF NewCache_inv, of demo_ops second "''nas''"] by simp
qed

end
