(* ===== verification/Mdns_Ingest.thy ===== *)
theory Mdns_Ingest
  imports Mdns_Cache
begin

text \<open>
  Package \<^verbatim>\<open>internal/mdns\<close>, files \<^verbatim>\<open>parse.go\<close>, \<^verbatim>\<open>query.go\<close> and \<^verbatim>\<open>tsig.go\<close>: what is
  read from a received packet and how its signature is checked.  Unpacking a packet is
  the DNS library's; the functions take its result.  The check of the signature itself
  is an argument.
\<close>

section \<open>Names\<close>

definition canonHost :: "string \<Rightarrow> string" where
  "canonHost name =
     (let h = TrimSuffix (TrimSuffix (ToLower name) ''.'') ''.local'' in
      if h = [] \<or> ContainsByte h CHR ''.'' \<or> HasPrefix h ''_'' then [] else h)"

definition serviceType :: "string \<Rightarrow> string" where
  "serviceType name =
     (let labels = SplitByte CHR ''.'' (TrimSuffix (TrimSuffix (ToLower name) ''.'') ''.local'') in
      if length labels < 2 then []
      else
        (let app = labels ! (length labels - 2); proto = labels ! (length labels - 1) in
         if HasPrefix app ''_'' \<and> HasPrefix proto ''_'' then app @ ''.'' @ proto else []))"

section \<open>Addresses\<close>

text \<open>The four-byte and the sixteen-byte form of the address in a record.\<close>

definition To4 :: "addr \<Rightarrow> addr option" where
  "To4 a =
     (case a of
        Addr4 w \<Rightarrow> Some (Addr4 w)
      | Addr6 w z \<Rightarrow> (if Is4In6 a then Some (Unmap a) else None)
      | AddrNone \<Rightarrow> None)"

definition To16 :: "addr \<Rightarrow> addr option" where
  "To16 a =
     (case a of
        Addr4 w \<Rightarrow> Some (Addr6 (push_bit 32 0xffff OR ucast w) [])
      | Addr6 w z \<Rightarrow> Some a
      | AddrNone \<Rightarrow> None)"

text \<open>The announcements found so far, in the order of their hosts.\<close>

definition add_announcement ::
    "string \<Rightarrow> addr \<Rightarrow> nat \<Rightarrow> (string, announcement) gomap \<Rightarrow> (string, announcement) gomap" where
  "add_announcement host a0 ttl m =
     (let a = Unmap a0 in
      if host = [] \<or> \<not> IsValid a0 \<or> IsLinkLocalUnicast a then m
      else
        (let an = (case gm_get m host of None \<Rightarrow> \<lparr>an_host = host, an_addrs = [], an_ttl = ttl\<rparr> | Some an \<Rightarrow> an);
             m1 = gm_set m host an in
         if a \<in> set (an_addrs an) then m1
         else
           gm_set m host
             (an\<lparr>an_addrs := an_addrs an @ [a],
                 an_ttl := (if ttl < an_ttl an \<or> an_ttl an = 0 then ttl else an_ttl an)\<rparr>)))"

definition add_rr :: "dns_rr \<Rightarrow> (string, announcement) gomap \<Rightarrow> (string, announcement) gomap" where
  "add_rr r m =
     (case dr_data r of
        RD_A a \<Rightarrow> (case To4 a of None \<Rightarrow> m | Some ip \<Rightarrow> add_announcement (canonHost (dr_name r)) ip (dr_ttl r) m)
      | RD_AAAA a \<Rightarrow> (case To16 a of None \<Rightarrow> m | Some ip \<Rightarrow> add_announcement (canonHost (dr_name r)) ip (dr_ttl r) m)
      | _ \<Rightarrow> m)"

definition ParsePacket :: "dns_msg option \<Rightarrow> announcement list" where
  "ParsePacket pkt =
     (case pkt of
        None \<Rightarrow> []
      | Some m \<Rightarrow> if \<not> msg_response m then [] else map snd (fold add_rr (msg_answer m @ msg_extra m) []))"

section \<open>Services\<close>

definition Cut :: "string \<Rightarrow> char \<Rightarrow> string \<times> string" where
  "Cut s c = (case IndexByte s c of None \<Rightarrow> (s, []) | Some i \<Rightarrow> (take i s, drop (i + 1) s))"

fun firstNonEmpty :: "string list \<Rightarrow> string" where
  "firstNonEmpty [] = []"
| "firstNonEmpty (v # vs) = (if v \<noteq> [] then v else firstNonEmpty vs)"

definition trim_parens :: "string \<Rightarrow> string" where
  "trim_parens s =
     (let P = (\<lambda>c. c = CHR ''('' \<or> c = CHR '')'') in rev (dropWhile P (rev (dropWhile P s))))"

definition txt_pairs :: "string list \<Rightarrow> (string, string) gomap" where
  "txt_pairs strs =
     fold (\<lambda>s kv. let (k0, v) = Cut s CHR ''=''; k = ToLower (TrimSpace k0) in
        if k \<noteq> [] then gm_set kv k (TrimSpace v) else kv) strs []"

definition contains :: "string \<Rightarrow> string \<Rightarrow> bool" where
  "contains s sub \<longleftrightarrow> (\<exists>i \<in> set [0..<length s + 1]. HasPrefix (drop i s) sub)"

definition descFromTXT :: "string list \<Rightarrow> string" where
  "descFromTXT strs =
     (let kv = txt_pairs strs;
          name = firstNonEmpty [gm_str kv ''fn'', gm_str kv ''n'', gm_str kv ''nm''];
          mdl = trim_parens (firstNonEmpty [gm_str kv ''ty'', gm_str kv ''md'', gm_str kv ''model'',
                  gm_str kv ''product'', gm_str kv ''usb_mdl'']) in
      if name \<noteq> [] \<and> mdl \<noteq> [] \<and> \<not> contains (ToLower name) (ToLower mdl) then name @ '' ('' @ mdl @ '')''
      else if name \<noteq> [] then name else mdl)"

fun curate_loop :: "string list \<Rightarrow> string list \<Rightarrow> string list" where
  "curate_loop acc [] = acc"
| "curate_loop acc (s0 # ss) =
     (let s = TrimSpace s0 in
      if s = [] \<or> length s > 96 \<or> ToLower (fst (Cut s CHR ''='')) = ''txtvers'' then curate_loop acc ss
      else (let acc' = acc @ [s] in if length acc' \<ge> 24 then acc' else curate_loop acc' ss))"

definition curateTXT :: "string list \<Rightarrow> string list" where
  "curateTXT strs = curate_loop [] strs"

record service =
  svc_host :: string
  svc_type :: string
  svc_port :: nat
  svc_ttl :: nat
  svc_desc :: string
  svc_text :: "string list"

definition index_txt ::
    "dns_rr \<Rightarrow> (string, string) gomap \<times> (string, string list) gomap \<Rightarrow> (string, string) gomap \<times> (string, string list) gomap" where
  "index_txt r = (\<lambda>(descs, texts).
     case dr_data r of
       RD_TXT strs \<Rightarrow>
         (let inst = ToLower (dr_name r); d = descFromTXT strs; t = curateTXT strs in
          (if d \<noteq> [] then gm_set descs inst d else descs, if t \<noteq> [] then gm_set texts inst t else texts))
     | _ \<Rightarrow> (descs, texts))"

definition add_service ::
    "(string, string) gomap \<Rightarrow> (string, string list) gomap \<Rightarrow> dns_rr \<Rightarrow> service list \<times> string list \<Rightarrow> service list \<times> string list" where
  "add_service descs texts r = (\<lambda>(out, seen).
     case dr_data r of
       RD_SRV prio weight port target \<Rightarrow>
         (let host = canonHost target; ty = serviceType (dr_name r); key = host @ ''|'' @ ty; inst = ToLower (dr_name r) in
          if host = [] \<or> ty = [] \<or> key \<in> set seen then (out, seen)
          else (out @ [\<lparr>svc_host = host, svc_type = ty, svc_port = port, svc_ttl = dr_ttl r,
                  svc_desc = gm_str descs inst, svc_text = gm_list texts inst\<rparr>], key # seen))
     | _ \<Rightarrow> (out, seen))"

definition ParseServices :: "dns_msg option \<Rightarrow> service list" where
  "ParseServices pkt =
     (case pkt of
        None \<Rightarrow> []
      | Some m \<Rightarrow>
          if \<not> msg_response m then []
          else
            (let rrs = msg_answer m @ msg_extra m; (descs, texts) = fold index_txt rrs ([], []) in
             fst (fold (add_service descs texts) rrs ([], []))))"

section \<open>Discovery\<close>

definition serviceEnum :: string where "serviceEnum = ''_services._dns-sd._udp.local.''"

abbreviation (input) maxDiscoveredTypes :: nat where "maxDiscoveredTypes \<equiv> 256"
abbreviation (input) maxQueryTypes :: nat where "maxQueryTypes \<equiv> 60"
abbreviation (input) maxDiscoveredInstances :: nat where "maxDiscoveredInstances \<equiv> 512"
abbreviation (input) maxQueryInstances :: nat where "maxQueryInstances \<equiv> 80"

definition commonServiceTypes :: "string list" where
  "commonServiceTypes =
     [''_ipp._tcp'', ''_ipps._tcp'', ''_printer._tcp'', ''_pdl-datastream._tcp'', ''_scanner._tcp'',
      ''_googlecast._tcp'', ''_airplay._tcp'', ''_raop._tcp'', ''_spotify-connect._tcp'',
      ''_homekit._tcp'', ''_hap._tcp'', ''_matter._tcp'', ''_matterc._udp'',
      ''_http._tcp'', ''_https._tcp'', ''_ssh._tcp'', ''_sftp-ssh._tcp'', ''_workstation._tcp'',
      ''_smb._tcp'', ''_afpovertcp._tcp'', ''_device-info._tcp'', ''_companion-link._tcp'']"

definition add_question :: "string \<Rightarrow> nat \<Rightarrow> dns_question list \<Rightarrow> dns_question list" where
  "add_question name qtype qs =
     (if name \<in> q_name ` set qs then qs else qs @ [\<lparr>q_name = name, q_type = qtype, q_class = ClassINET\<rparr>])"

text \<open>The message of a query; packing it is the library's.\<close>

definition buildDiscoveryQuery :: "string list \<Rightarrow> string list \<Rightarrow> dns_msg" where
  "buildDiscoveryQuery types instances =
     new_msg\<lparr>msg_question :=
       fold (\<lambda>inst. add_question (Fqdn inst) TypeSRV) instances
         (fold (\<lambda>t. add_question (Fqdn (t @ ''.local'')) TypePTR) types
           (add_question serviceEnum TypePTR []))\<rparr>"

definition parseInstances :: "dns_msg option \<Rightarrow> string list" where
  "parseInstances pkt =
     (case pkt of
        None \<Rightarrow> []
      | Some m \<Rightarrow>
          if \<not> msg_response m then []
          else List.map_filter (\<lambda>r. case dr_data r of
              RD_PTR p \<Rightarrow>
                (if p = [] \<or> ToLower (TrimSuffix (dr_name r) ''.'') = TrimSuffix serviceEnum ''.'' \<or>
                    serviceType (dr_name r) = [] then None else Some p)
            | _ \<Rightarrow> None) (msg_answer m @ msg_extra m))"

definition parseServiceTypes :: "dns_msg option \<Rightarrow> string list" where
  "parseServiceTypes pkt =
     (case pkt of
        None \<Rightarrow> []
      | Some m \<Rightarrow>
          if \<not> msg_response m then []
          else List.map_filter (\<lambda>r. case dr_data r of
              RD_PTR p \<Rightarrow>
                (if ToLower (dr_name r) = serviceEnum \<and> serviceType p \<noteq> [] then Some (serviceType p) else None)
            | _ \<Rightarrow> None) (msg_answer m @ msg_extra m))"

section \<open>Signatures\<close>

record sig_verifier =
  sg_secrets :: "(string, string) gomap"
  sg_seen :: "(string, time) gomap"

abbreviation (input) tsigSeenCap :: nat where "tsigSeenCap \<equiv> 1024"

definition canonKeyName :: "string \<Rightarrow> string" where
  "canonKeyName name = ToLower (TrimSuffix (TrimSpace name) ''.'') @ ''.''"

definition NewSigVerifier :: "(string, string) gomap \<Rightarrow> sig_verifier option" where
  "NewSigVerifier secrets =
     (if secrets = [] then None
      else Some \<lparr>sg_secrets = fold (\<lambda>(k, v) m. gm_set m (canonKeyName k) v) secrets [], sg_seen = []\<rparr>)"

definition mac_retain :: "duration \<Rightarrow> duration" where
  "mac_retain fudge =
     (let r = 2 * fudge; r1 = (if r < 30 * second then 30 * second else r) in
      if r1 > 10 * minute then 10 * minute else r1)"

definition freshMAC :: "time \<Rightarrow> string \<Rightarrow> duration \<Rightarrow> sig_verifier \<Rightarrow> bool \<times> sig_verifier" where
  "freshMAC now mac fudge v =
     (if mac = [] then (False, v)
      else
        (let v1 = v\<lparr>sg_seen := filter (\<lambda>(_, ts). \<not> now - ts > mac_retain fudge) (sg_seen v)\<rparr> in
         if gm_has (sg_seen v1) mac then (False, v1)
         else
           (True, if length (sg_seen v1) < tsigSeenCap
                  then v1\<lparr>sg_seen := gm_set (sg_seen v1) mac now\<rparr> else v1)))"

definition Verify ::
    "(dns_msg \<Rightarrow> string \<Rightarrow> bool) \<Rightarrow> time \<Rightarrow> dns_msg option \<Rightarrow> sig_verifier option \<Rightarrow> bool \<times> sig_verifier option" where
  "Verify tsig_valid now pkt sv =
     (case (sv, pkt) of
        (Some v, Some m) \<Rightarrow>
          if msg_extra m = [] then (False, sv)
          else
            (let r = last (msg_extra m) in
             case dr_data r of
               RD_TSIG mac fudge \<Rightarrow>
                 (case gm_get (sg_secrets v) (canonKeyName (dr_name r)) of
                    None \<Rightarrow> (False, sv)
                  | Some secret \<Rightarrow>
                      if \<not> tsig_valid m secret then (False, sv)
                      else (let (ok, v') = freshMAC now mac (int fudge * second) v in (ok, Some v')))
             | _ \<Rightarrow> (False, sv))
      | _ \<Rightarrow> (False, sv))"

section \<open>Announcements are well formed\<close>

definition an_ok :: "announcement \<Rightarrow> bool" where
  "an_ok a \<longleftrightarrow> an_host a \<noteq> [] \<and> CHR ''.'' \<notin> set (an_host a) \<and> \<not> HasPrefix (an_host a) ''_'' \<and>
     ToLower (an_host a) = an_host a \<and> an_addrs a \<noteq> [] \<and> distinct (an_addrs a) \<and>
     (\<forall>x\<in>set (an_addrs a). IsValid x \<and> Unmap x = x \<and> \<not> IsLinkLocalUnicast x)"

definition found_ok :: "(string, announcement) gomap \<Rightarrow> bool" where
  "found_ok m \<longleftrightarrow> gm_ok m \<and> (\<forall>(h, a)\<in>set m. an_host a = h \<and> an_ok a)"

lemma canonHost_ok:
  assumes "canonHost n \<noteq> []"
  shows "CHR ''.'' \<notin> set (canonHost n) \<and> \<not> HasPrefix (canonHost n) ''_'' \<and> ToLower (canonHost n) = canonHost n"
proof -
  have "ToLower (ToLower n) = ToLower n"
    by (simp add: ToLower_idem)
  then have "ToLower (TrimSuffix (TrimSuffix (ToLower n) ''.'') ''.local'') = TrimSuffix (TrimSuffix (ToLower n) ''.'') ''.local''"
    by (simp add: ToLower_TrimSuffix)
  then show ?thesis
    using assms by (auto simp: canonHost_def Let_def ContainsByte_def split: if_splits)
qed

lemma add_announcement_ok:
  assumes "found_ok m" "h = [] \<or> CHR ''.'' \<notin> set h \<and> \<not> HasPrefix h ''_'' \<and> ToLower h = h"
  shows "found_ok (add_announcement h a ttl m)"
proof (cases "h = [] \<or> \<not> IsValid a \<or> IsLinkLocalUnicast (Unmap a)")
  case False
  let ?an = "case gm_get m h of None \<Rightarrow> \<lparr>an_host = h, an_addrs = [], an_ttl = ttl\<rparr> | Some an \<Rightarrow> an"
  have an: "an_host ?an = h" "distinct (an_addrs ?an)"
      "\<forall>x\<in>set (an_addrs ?an). IsValid x \<and> Unmap x = x \<and> \<not> IsLinkLocalUnicast x"
    using assms(1) map_of_SomeD by (fastforce simp: found_ok_def an_ok_def split: option.splits)+
  have put: "found_ok (gm_set m h x)" if "an_host x = h" "an_ok x" for x
    using assms(1) that gm_set_subset [of h x m] by (auto simp: found_ok_def)
  show ?thesis
  proof (cases "Unmap a \<in> set (an_addrs ?an)")
    case True
    then have "an_ok ?an"
      using an False assms(2) by (auto simp: an_ok_def)
    then show ?thesis
      using put an(1) True False by (simp add: add_announcement_def Let_def)
  next
    case out: False
    have "an_ok (?an\<lparr>an_addrs := an_addrs ?an @ [Unmap a], an_ttl := t\<rparr>)" for t
      using an out False assms(2) by (auto simp: an_ok_def)
    then show ?thesis
      using put an(1) out False by (simp add: add_announcement_def Let_def)
  qed
qed (use assms in \<open>auto simp: add_announcement_def Let_def\<close>)

lemma add_rr_ok: "found_ok m \<Longrightarrow> found_ok (add_rr r m)"
  using canonHost_ok [of "dr_name r"]
  by (auto simp: add_rr_def intro!: add_announcement_ok split: rdata.splits option.splits)

lemma fold_add_rr_ok: "found_ok m \<Longrightarrow> found_ok (fold add_rr rs m)"
  by (induction rs arbitrary: m) (simp_all add: add_rr_ok)

lemma ParsePacket_found: "\<exists>m. ParsePacket pkt = map snd m \<and> found_ok m"
proof -
  have "found_ok (fold add_rr rs [])" for rs
    by (rule fold_add_rr_ok) (simp add: found_ok_def gm_ok_def)
  moreover have "ParsePacket pkt = map snd [] \<or> (\<exists>rs. ParsePacket pkt = map snd (fold add_rr rs []))"
    by (cases pkt) (auto simp: ParsePacket_def simp del: fold_append)
  moreover have "found_ok []"
    by (simp add: found_ok_def gm_ok_def)
  ultimately show ?thesis
    by blast
qed

lemma parsed_ok: "a \<in> set (ParsePacket pkt) \<Longrightarrow> an_ok a"
  using ParsePacket_found [of pkt] by (force simp: found_ok_def)

text \<open>
  C28. What a packet can announce: every announcement read from a packet, whatever its
  records are, names one lower-case label (no dot, no leading underscore), each label
  once per packet, and carries at least one address and no address twice; none is
  invalid, link-local or a mapped IPv4 address.
\<close>

theorem ParsePacket_ok:
  "distinct (map an_host (ParsePacket pkt)) \<and> (\<forall>a. a \<in> set (ParsePacket pkt) \<longrightarrow> an_ok a)"
proof -
  obtain m where m: "ParsePacket pkt = map snd m" "found_ok m"
    using ParsePacket_found by blast
  have "map an_host (ParsePacket pkt) = map fst m"
    using m by (auto simp: found_ok_def)
  then have "distinct (map an_host (ParsePacket pkt))"
    using m(2) by (simp add: found_ok_def gm_ok_def)
  then show ?thesis
    using parsed_ok by blast
qed

theorem ParsePacket_ok_witness:
  "map an_host (ParsePacket (Some (new_msg\<lparr>msg_response := True, msg_answer :=
     [\<lparr>dr_name = ''NAS.local.'', dr_type = TypeA, dr_class = 1, dr_ttl = 120, dr_data = RD_A (Addr4 0xc0a8010a)\<rparr>]\<rparr>))) = [''nas''] \<and>
   an_ok (hd (ParsePacket (Some (new_msg\<lparr>msg_response := True, msg_answer :=
     [\<lparr>dr_name = ''NAS.local.'', dr_type = TypeA, dr_class = 1, dr_ttl = 120, dr_data = RD_A (Addr4 0xc0a8010a)\<rparr>]\<rparr>))))"
proof -
  let ?p = "Some (new_msg\<lparr>msg_response := True, msg_answer :=
     [\<lparr>dr_name = ''NAS.local.'', dr_type = TypeA, dr_class = 1, dr_ttl = 120, dr_data = RD_A (Addr4 0xc0a8010a)\<rparr>]\<rparr>)"
  have h: "map an_host (ParsePacket ?p) = [''nas'']"
    by code_simp
  then have "hd (ParsePacket ?p) \<in> set (ParsePacket ?p)"
    by (cases "ParsePacket ?p") auto
  then show ?thesis
    using h ParsePacket_ok [of ?p] by blast
qed

section \<open>Replays\<close>

text \<open>A sequence of checked signatures: time, MAC and fudge.\<close>

fun check_macs :: "(time \<times> string \<times> duration) list \<Rightarrow> sig_verifier \<Rightarrow> bool list" where
  "check_macs [] v = []"
| "check_macs ((t, mac, fudge) # cs) v = fst (freshMAC t mac fudge v) # check_macs cs (snd (freshMAC t mac fudge v))"

lemma mac_retain_min: "30 * second \<le> mac_retain fudge"
  by (simp add: mac_retain_def Let_def)

lemma freshMAC_keeps:
  assumes "gm_ok (sg_seen v)" "gm_get (sg_seen v) mac = Some t0" "now - t0 \<le> 30 * second"
  shows "gm_ok (sg_seen (snd (freshMAC now m fudge v))) \<and> gm_get (sg_seen (snd (freshMAC now m fudge v))) mac = Some t0"
proof -
  let ?s = "filter (\<lambda>(_, ts). \<not> now - ts > mac_retain fudge) (sg_seen v)"
  have "(mac, t0) \<in> set ?s"
    using map_of_SomeD [OF assms(2)] assms(3) mac_retain_min [of fudge] by auto
  moreover have ok: "gm_ok ?s"
    using assms(1) by (rule gm_ok_filter)
  ultimately have s: "gm_ok ?s" "gm_get ?s mac = Some t0"
    unfolding gm_ok_def by (simp_all add: map_of_is_SomeI)
  then show ?thesis
    using assms by (auto simp: freshMAC_def Let_def gm_has_def update_conv')
qed

lemma recorded_mac_refused:
  assumes "gm_get (sg_seen v) mac = Some t0" "now - t0 \<le> 30 * second"
  shows "\<not> fst (freshMAC now mac fudge v)"
proof -
  have "(mac, t0) \<in> set (filter (\<lambda>(_, ts). \<not> now - ts > mac_retain fudge) (sg_seen v))"
    using map_of_SomeD [OF assms(1)] assms(2) mac_retain_min [of fudge] by auto
  then have "gm_has (filter (\<lambda>(_, ts). \<not> now - ts > mac_retain fudge) (sg_seen v)) mac"
    by (force simp: gm_has_keys)
  then show ?thesis
    by (simp add: freshMAC_def)
qed

text \<open>Packets verified one after the other; the validity of a signature may depend on the time.\<close>

definition verify_all ::
    "(time \<Rightarrow> dns_msg \<Rightarrow> string \<Rightarrow> bool) \<Rightarrow> (time \<times> dns_msg option) list \<Rightarrow> sig_verifier option \<Rightarrow> sig_verifier option" where
  "verify_all tsig_valid ps sv = fold (\<lambda>(t, p) sv. snd (Verify (tsig_valid t) t p sv)) ps sv"

text \<open>The signature a packet carries, if its last additional record is one.\<close>

definition packet_mac :: "dns_msg option \<Rightarrow> string option" where
  "packet_mac pkt =
     (case pkt of
        None \<Rightarrow> None
      | Some m \<Rightarrow>
          if msg_extra m = [] then None
          else case dr_data (last (msg_extra m)) of RD_TSIG mac fudge \<Rightarrow> Some mac | _ \<Rightarrow> None)"

lemma Verify_cases:
  "Verify tv now pkt sv = (False, sv) \<or>
   (\<exists>v mac fudge. sv = Some v \<and> packet_mac pkt = Some mac \<and>
     Verify tv now pkt sv = (fst (freshMAC now mac fudge v), Some (snd (freshMAC now mac fudge v))))"
  by (auto simp: Verify_def packet_mac_def Let_def case_prod_beta split: option.splits rdata.splits)

lemma freshMAC_ok: "gm_ok (sg_seen v) \<Longrightarrow> gm_ok (sg_seen (snd (freshMAC now mac fudge v)))"
  by (auto simp: freshMAC_def Let_def gm_ok_filter)

definition sv_ok :: "sig_verifier option \<Rightarrow> bool" where
  "sv_ok sv \<longleftrightarrow> (\<forall>v. sv = Some v \<longrightarrow> gm_ok (sg_seen v))"

lemma verify_all_ok: "sv_ok sv \<Longrightarrow> sv_ok (verify_all tv ps sv)"
proof (induction ps arbitrary: sv)
  case (Cons p ps)
  obtain t m where p: "p = (t, m)"
    by (cases p)
  have "sv_ok (snd (Verify (tv t) t m sv))"
    using Verify_cases [of "tv t" t m sv] Cons.prems freshMAC_ok by (auto simp: sv_ok_def)
  then show ?case
    using Cons.IH p by (simp add: verify_all_def)
qed (simp add: verify_all_def)

text \<open>An accepted signature is recorded, and stays recorded for thirty seconds.\<close>

lemma Verify_records:
  assumes "Verify tv t0 pkt (Some v) = (True, sv)" "gm_ok (sg_seen v)" "length (sg_seen v) < tsigSeenCap"
  obtains v' mac where "sv = Some v'" "gm_ok (sg_seen v')" "packet_mac pkt = Some mac" "gm_get (sg_seen v') mac = Some t0"
proof -
  obtain mac fudge where m: "packet_mac pkt = Some mac" "fst (freshMAC t0 mac fudge v)" "sv = Some (snd (freshMAC t0 mac fudge v))"
    using Verify_cases [of tv t0 pkt "Some v"] assms(1) by auto
  have "length (filter (\<lambda>(_, ts). \<not> t0 - ts > mac_retain fudge) (sg_seen v)) < tsigSeenCap"
    using assms(3) by (meson length_filter_le order_le_less_trans)
  then have "gm_get (sg_seen (snd (freshMAC t0 mac fudge v))) mac = Some t0"
    using m(2) by (auto simp: freshMAC_def Let_def update_conv' split: if_splits)
  then show ?thesis
    using that [OF m(3) freshMAC_ok [OF assms(2)] m(1)] by blast
qed

lemma verify_all_keeps:
  assumes "gm_ok (sg_seen v)" "gm_get (sg_seen v) mac = Some t0" "\<forall>(t, p)\<in>set ps. t - t0 \<le> 30 * second"
  shows "\<exists>v'. verify_all tv ps (Some v) = Some v' \<and> gm_get (sg_seen v') mac = Some t0"
  using assms
proof (induction ps arbitrary: v)
  case (Cons p ps)
  obtain t m where p: "p = (t, m)"
    by (cases p)
  have "\<exists>v1. snd (Verify (tv t) t m (Some v)) = Some v1 \<and> gm_ok (sg_seen v1) \<and> gm_get (sg_seen v1) mac = Some t0"
    using Verify_cases [of "tv t" t m "Some v"] freshMAC_keeps [OF Cons.prems(1,2), of t] Cons.prems p by auto
  then show ?case
    using Cons.IH Cons.prems(3) p by (auto simp: verify_all_def)
qed (simp add: verify_all_def)

text \<open>
  C27. A replay is caught: let a verifier built from any configured keys have checked
  any packets, and let it now accept a packet, with room left in its memory of
  signatures.  Then every packet that carries the same signature is refused at any later
  check within thirty seconds, whatever other packets, valid or not and with whatever
  fudge, are checked in between.
\<close>

theorem replay_refused:
  assumes "verify_all tsig_valid before (NewSigVerifier secrets) = Some v"
    and "length (sg_seen v) < tsigSeenCap"
    and "Verify (tsig_valid t0) t0 pkt (Some v) = (True, sv)"
    and "\<forall>(t, p)\<in>set between. t - t0 \<le> 30 * second" and "now - t0 \<le> 30 * second"
    and "packet_mac replay = packet_mac pkt"
  shows "\<not> fst (Verify (tsig_valid now) now replay (verify_all tsig_valid between sv))"
proof -
  have "sv_ok (NewSigVerifier secrets)"
    by (simp add: sv_ok_def NewSigVerifier_def gm_ok_def)
  then have "gm_ok (sg_seen v)"
    using verify_all_ok [of "NewSigVerifier secrets" tsig_valid before] assms(1) by (simp add: sv_ok_def)
  then obtain v' mac where v': "sv = Some v'" "gm_ok (sg_seen v')" "packet_mac pkt = Some mac" "gm_get (sg_seen v') mac = Some t0"
    using Verify_records [OF assms(3) _ assms(2)] by blast
  obtain w where w: "verify_all tsig_valid between sv = Some w" "gm_get (sg_seen w) mac = Some t0"
    using verify_all_keeps [OF v'(2,4) assms(4)] v'(1) by blast
  show ?thesis
    using Verify_cases [of "tsig_valid now" now replay "Some w"] recorded_mac_refused [OF w(2) assms(5)] assms(6) v'(3) w(1)
    by auto
qed

text \<open>Two packets with the signature of a shared key, the second of them sent again.\<close>

definition signed_packet :: "string \<Rightarrow> nat \<Rightarrow> dns_msg option" where
  "signed_packet mac fudge =
     Some (new_msg\<lparr>msg_response := True, msg_extra :=
       [\<lparr>dr_name = ''k.'', dr_type = TypeTSIG, dr_class = 255, dr_ttl = 0, dr_data = RD_TSIG mac fudge\<rparr>]\<rparr>)"

theorem replay_refused_witness:
  "\<not> fst (Verify (\<lambda>m s. s = ''c2VjcmV0'') (29 * second) (signed_packet ''mac1'' 300)
     (verify_all (\<lambda>t m s. s = ''c2VjcmV0'') [(3 * second, signed_packet ''mac2'' 0)]
       (snd (Verify (\<lambda>m s. s = ''c2VjcmV0'') 0 (signed_packet ''mac1'' 300) (NewSigVerifier [(''K'', ''c2VjcmV0'')])))))"
proof -
  let ?v = "\<lparr>sg_secrets = [(''k.'', ''c2VjcmV0'')], sg_seen = []\<rparr>"
  have new: "NewSigVerifier [(''K'', ''c2VjcmV0'')] = Some ?v"
    by code_simp
  have accept: "Verify (\<lambda>m s. s = ''c2VjcmV0'') 0 (signed_packet ''mac1'' 300) (Some ?v) =
      (True, Some (?v\<lparr>sg_seen := [(''mac1'', 0)]\<rparr>))"
    by code_simp
  show ?thesis
    unfolding new accept snd_conv
    by (rule replay_refused [where tsig_valid = "\<lambda>t m s. s = ''c2VjcmV0''" and before = "[]" and
          secrets = "[(''K'', ''c2VjcmV0'')]" and v = ?v and ?t0.0 = 0 and pkt = "signed_packet ''mac1'' 300"])
      (simp_all add: verify_all_def new accept)
qed

definition demo_verifier :: sig_verifier where
  "demo_verifier = \<lparr>sg_secrets = [(''k.'', ''c2VjcmV0'')], sg_seen = []\<rparr>"

text \<open>
  The retention of a signature is cut short by other packets: a signature with
  a fudge of 300 seconds is to be remembered for 600, but one packet with a small
  fudge forgets everything older than thirty seconds, and the replay of the first
  packet, still inside its own time window, is accepted.
\<close>

theorem replay_accepted_in_window:
  "check_macs [(0, ''mac1'', 300 * second), (31 * second, ''mac2'', 0), (32 * second, ''mac1'', 300 * second)]
     demo_verifier = [True, True, True] \<and>
   check_macs [(0, ''mac1'', 300 * second), (32 * second, ''mac1'', 300 * second)]
     demo_verifier = [True, False]"
  by code_simp

end
