(* ===== verification/Token_Bucket.thy ===== *)
theory Token_Bucket
  imports Prelude
begin

text \<open>
  What a token bucket promises.  Two packages have one each, with their own fields:
  the solicitation of unknown hosts (\<^verbatim>\<open>mdns/resolve.go\<close>) and the dynamic DNS writer
  (\<^verbatim>\<open>ddns/ddns.go\<close>).  The interface fixes the level of a bucket at a time and asks
  that a call takes one token when there is one and that the level refills at the
  rate up to the burst; the client gets the bound on every window of time.  A number
  that the code keeps as a float64 is an exact rational.
\<close>

text \<open>The calls that were let through at or after a time, and the run of a bucket.\<close>

definition spent :: "time list \<Rightarrow> time \<Rightarrow> nat" where
  "spent em t0 = length (filter (\<lambda>e. t0 \<le> e) em)"

fun run_calls :: "(time \<Rightarrow> 'b \<Rightarrow> bool \<times> 'b) \<Rightarrow> time list \<Rightarrow> 'b \<Rightarrow> time list" where
  "run_calls allow [] b = []"
| "run_calls allow (t # ts) b =
     (let (ok, b') = allow t b in (if ok then [t] else []) @ run_calls allow ts b')"

lemma spent_Nil [simp]: "spent [] t0 = 0"
  by (simp add: spent_def)

lemma spent_append: "spent (xs @ ys) t0 = spent xs t0 + spent ys t0"
  by (simp add: spent_def)

lemma spent_one: "spent [t] t0 = (if t0 \<le> t then 1 else 0)"
  by (simp add: spent_def)

lemma spent_later: "(\<And>e. e \<in> set em \<Longrightarrow> e < t0) \<Longrightarrow> spent em t0 = 0"
  by (force simp: spent_def filter_empty_conv)

locale token_bucket =
  fixes allow :: "time \<Rightarrow> 'b \<Rightarrow> bool \<times> 'b"
    and level :: "'b \<Rightarrow> time \<Rightarrow> rat"
    and used_by :: "'b \<Rightarrow> time \<Rightarrow> bool"
    and rate :: rat and burst :: rat
  assumes rate_nonneg: "0 \<le> rate"
    and level_nonneg: "used_by b t \<Longrightarrow> 0 \<le> level b t"
    and level_burst: "used_by b t \<Longrightarrow> level b t \<le> burst"
    and level_refill: "used_by b t \<Longrightarrow> t \<le> t' \<Longrightarrow> level b t' = min burst (level b t + rate * of_int (t' - t))"
    and used_mono: "used_by b t \<Longrightarrow> t \<le> t' \<Longrightarrow> used_by b t'"
    and allow_used: "used_by b t \<Longrightarrow> used_by (snd (allow t b)) t"
    and allow_iff: "used_by b t \<Longrightarrow> fst (allow t b) \<longleftrightarrow> 1 \<le> level b t"
    and allow_level: "used_by b t \<Longrightarrow> level (snd (allow t b)) t = level b t - (if fst (allow t b) then 1 else 0)"
begin

definition window_ok :: "time list \<Rightarrow> 'b \<Rightarrow> time \<Rightarrow> bool" where
  "window_ok em b now \<longleftrightarrow> used_by b now \<and> (\<forall>e\<in>set em. e \<le> now) \<and>
     (\<forall>t0\<le>now. of_nat (spent em t0) + level b now \<le> burst + rate * of_int (now - t0))"

lemma window_new: "used_by b now \<Longrightarrow> window_ok [] b now"
  using level_burst rate_nonneg by (auto simp: window_ok_def intro: add_increasing2)

lemma window_advance:
  assumes "window_ok em b now" "now \<le> now'"
  shows "window_ok em b now'"
proof -
  have used: "used_by b now'" and past: "\<forall>e\<in>set em. e \<le> now'"
    using assms used_mono by (auto simp: window_ok_def)
  have "of_nat (spent em t0) + level b now' \<le> burst + rate * of_int (now' - t0)" if "t0 \<le> now'" for t0
  proof (cases "t0 \<le> now")
    case True
    have "level b now' \<le> level b now + rate * of_int (now' - now)"
      using level_refill [of b now now'] assms by (simp add: window_ok_def)
    moreover have "of_nat (spent em t0) + level b now \<le> burst + rate * of_int (now - t0)"
      using assms(1) True by (simp add: window_ok_def)
    moreover have "rate * of_int (now' - now) + rate * of_int (now - t0) = rate * of_int (now' - t0)"
      by (simp add: algebra_simps)
    ultimately show ?thesis by linarith
  next
    case False
    then have "spent em t0 = 0"
      using assms(1) by (intro spent_later) (force simp: window_ok_def)
    moreover have "0 \<le> rate * of_int (now' - t0)"
      using that rate_nonneg by simp
    ultimately show ?thesis
      using level_burst [OF used] by simp
  qed
  then show ?thesis
    using used past by (simp add: window_ok_def)
qed

lemma window_allow:
  assumes "window_ok em b now"
  shows "window_ok (em @ (if fst (allow now b) then [now] else [])) (snd (allow now b)) now"
proof -
  have used: "used_by b now"
    using assms by (simp add: window_ok_def)
  have "of_nat (spent (em @ (if fst (allow now b) then [now] else [])) t0) + level (snd (allow now b)) now =
      of_nat (spent em t0) + level b now" if "t0 \<le> now" for t0
    using allow_level [OF used] that by (simp add: spent_append spent_one)
  then show ?thesis
    using assms allow_used [OF used] by (auto simp: window_ok_def)
qed

lemma window_denied:
  assumes "window_ok em b now"
  shows "window_ok em (snd (allow now b)) now"
proof -
  have "used_by b now"
    using assms by (simp add: window_ok_def)
  then have "level (snd (allow now b)) now \<le> level b now" "used_by (snd (allow now b)) now"
    using allow_level allow_used by simp_all
  then show ?thesis
    using assms by (force simp: window_ok_def)
qed

lemma window_bound:
  assumes "window_ok em b now" "t0 \<le> now"
  shows "of_nat (spent em t0) \<le> burst + rate * of_int (now - t0)"
  using assms level_nonneg [of b now] by (force simp: window_ok_def)

lemma run_window:
  "window_ok em b t0 \<Longrightarrow> sorted (t0 # ts) \<Longrightarrow>
    \<exists>b'. window_ok (em @ run_calls allow ts b) b' (last (t0 # ts))"
proof (induction ts arbitrary: em b t0)
  case (Cons t ts)
  have w: "window_ok (em @ (if fst (allow t b) then [t] else [])) (snd (allow t b)) t"
    using window_allow [OF window_advance [OF Cons.prems(1)]] Cons.prems(2) by simp
  have "sorted (t # ts)"
    using Cons.prems(2) by simp
  then show ?case
    using Cons.IH [OF w] by (simp add: case_prod_unfold Let_def)
qed auto

text \<open>In every window the calls let through are bounded by the burst and the refill.\<close>

lemma run_bound:
  assumes "used_by b t0" "sorted (t0 # ts)" "t0 \<le> t1" "t1 \<le> last (t0 # ts)"
  shows "of_nat (spent (run_calls allow ts b) t1) \<le> burst + rate * of_int (last (t0 # ts) - t1)"
proof -
  obtain b' where "window_ok (run_calls allow ts b) b' (last (t0 # ts))"
    using run_window [OF window_new [OF assms(1)] assms(2)] by auto
  then show ?thesis
    using window_bound assms(4) by blast
qed

end

end
