(* ===== verification/Mdns_Source.thy ===== *)
theory Mdns_Source
  imports Mdns_Ingest Token_Bucket
begin

text \<open>
  Package \<^verbatim>\<open>internal/mdns\<close>, files \<^verbatim>\<open>source.go\<close> and \<^verbatim>\<open>resolve.go\<close>: the owner of the host
  cache and of the published view, active service discovery, and the solicitation of
  hosts that nobody announced yet.

  A channel of an outstanding solicitation is a number; the closed ones are recorded,
  and closing one a second time panics (\<^term>\<open>None\<close>).  A call of \<open>Resolve\<close> is two steps
  with a wait between them; the step relation at the end interleaves the waits of all
  callers with packets and expiry.  The clock readings of a call are arguments, and a
  reading and the critical section that uses it are one step.  Counters do not wrap.
\<close>

section \<open>The bucket\<close>

abbreviation (input) odGlobalRate :: rat where "odGlobalRate \<equiv> 10"
abbreviation (input) odGlobalBurst :: rat where "odGlobalBurst \<equiv> 20"
abbreviation (input) odClientRate :: rat where "odClientRate \<equiv> 5"
abbreviation (input) odClientBurst :: rat where "odClientBurst \<equiv> 10"
abbreviation (input) odInflightCap :: nat where "odInflightCap \<equiv> 64"
abbreviation (input) odSuppressWindow :: duration where "odSuppressWindow \<equiv> 10 * second"
abbreviation (input) odTableCap :: nat where "odTableCap \<equiv> 4096"

record od_bucket =
  ob_tokens :: rat
  ob_last :: "time option"

definition new_bucket :: od_bucket where
  "new_bucket = \<lparr>ob_tokens = 0, ob_last = None\<rparr>"

definition od_allow :: "rat \<Rightarrow> rat \<Rightarrow> time \<Rightarrow> od_bucket \<Rightarrow> bool \<times> od_bucket" where
  "od_allow rate burst now b =
     (let t1 = (case ob_last b of
                  None \<Rightarrow> ob_tokens b
                | Some l \<Rightarrow> ob_tokens b + of_int (now - l) / 1000000000 * rate);
          t2 = (if t1 > burst then burst else if ob_last b = None then burst else t1) in
      if t2 \<ge> 1 then (True, \<lparr>ob_tokens = t2 - 1, ob_last = Some now\<rparr>)
      else (False, \<lparr>ob_tokens = t2, ob_last = Some now\<rparr>))"

section \<open>State\<close>

record od_stats =
  os_emitted :: nat
  os_hits :: nat
  os_suppressed :: nat
  os_limited :: nat
  os_cap_full :: nat

record source =
  sr_cache :: mcache
  sr_view :: mdns_view
  sr_query_every :: duration
  sr_sender :: bool
  sr_last_query :: "time option"
  sr_discovered :: "string list"
  sr_instances :: "string list"
  sr_wait :: duration
  sr_pending :: "(string, nat) gomap option"
  sr_recent :: "(string, time) gomap"
  sr_global :: od_bucket
  sr_clients :: "(addr, od_bucket) gomap"
  sr_stats :: od_stats
  sr_next :: nat
  sr_closed :: "nat list"

definition WithServeStale :: "duration \<Rightarrow> duration \<Rightarrow> source \<Rightarrow> source" where
  "WithServeStale stale goodbye s =
     s\<lparr>sr_cache := (sr_cache s)\<lparr>mc_stale_grace := stale, mc_goodbye_grace := goodbye\<rparr>\<rparr>"

definition WithServiceDiscovery :: "duration \<Rightarrow> source \<Rightarrow> source" where
  "WithServiceDiscovery every s = s\<lparr>sr_query_every := every\<rparr>"

definition WithTrustedStore :: "duration \<Rightarrow> int \<Rightarrow> source \<Rightarrow> source" where
  "WithTrustedStore grace mx s =
     (let c = (sr_cache s)\<lparr>mc_trusted_grace := grace\<rparr> in
      s\<lparr>sr_cache := (if mx > 0 then c\<lparr>mc_max_trusted := mx\<rparr> else c)\<rparr>)"

definition WithOnDemand :: "duration \<Rightarrow> source \<Rightarrow> source" where
  "WithOnDemand wait s =
     s\<lparr>sr_wait := wait, sr_pending := Some [], sr_recent := [], sr_global := new_bucket, sr_clients := []\<rparr>"

definition publish :: "time \<Rightarrow> source \<Rightarrow> source" where
  "publish now s = s\<lparr>sr_view := mc_view now (sr_cache s)\<rparr>"

definition NewSource :: "time \<Rightarrow> (source \<Rightarrow> source) list \<Rightarrow> source" where
  "NewSource now opts =
     publish now (fold (\<lambda>opt s. opt s) opts
       \<lparr>sr_cache = NewCache, sr_view = mc_view now NewCache, sr_query_every = 0, sr_sender = False,
        sr_last_query = None, sr_discovered = [], sr_instances = [], sr_wait = 0, sr_pending = None,
        sr_recent = [], sr_global = new_bucket, sr_clients = [],
        sr_stats = \<lparr>os_emitted = 0, os_hits = 0, os_suppressed = 0, os_limited = 0, os_cap_full = 0\<rparr>,
        sr_next = 0, sr_closed = []\<rparr>)"

definition SetSender :: "source \<Rightarrow> source" where
  "SetSender s = s\<lparr>sr_sender := True\<rparr>"

section \<open>Service discovery\<close>

definition addType :: "string \<Rightarrow> source \<Rightarrow> source" where
  "addType t s =
     (if t \<notin> set (sr_discovered s) \<and> length (sr_discovered s) < maxDiscoveredTypes
      then s\<lparr>sr_discovered := sr_discovered s @ [t]\<rparr> else s)"

definition addInstance :: "string \<Rightarrow> source \<Rightarrow> source" where
  "addInstance inst s =
     (if inst \<notin> set (sr_instances s) \<and> length (sr_instances s) < maxDiscoveredInstances
      then s\<lparr>sr_instances := sr_instances s @ [inst]\<rparr> else s)"

definition discoverySets :: "source \<Rightarrow> string list \<times> string list" where
  "discoverySets s =
     (take maxQueryTypes (commonServiceTypes @ sr_discovered s), take maxQueryInstances (sr_instances s))"

definition sendQuery :: "source \<Rightarrow> dns_msg list" where
  "sendQuery s =
     (if sr_query_every s \<le> 0 \<or> \<not> sr_sender s then []
      else [buildDiscoveryQuery (fst (discoverySets s)) (snd (discoverySets s))])"

definition PokeDiscovery :: "time \<Rightarrow> source \<Rightarrow> dns_msg list \<times> source" where
  "PokeDiscovery now s =
     (if sr_query_every s \<le> 0 \<or> \<not> sr_sender s then ([], s)
      else if (case sr_last_query s of None \<Rightarrow> False | Some l \<Rightarrow> now - l < sr_query_every s) then ([], s)
      else (let s' = s\<lparr>sr_last_query := Some now\<rparr> in (sendQuery s', s')))"

section \<open>Packets\<close>

fun complete_loop :: "string list \<Rightarrow> (string, nat) gomap \<Rightarrow> nat list \<Rightarrow> ((string, nat) gomap \<times> nat list) option" where
  "complete_loop [] p cl = Some (p, cl)"
| "complete_loop (h # hs) p cl =
     (case gm_get p h of
        None \<Rightarrow> complete_loop hs p cl
      | Some fl \<Rightarrow> if fl \<in> set cl then None else complete_loop hs (gm_del p h) (fl # cl))"

definition completeInflight :: "string list \<Rightarrow> source \<Rightarrow> source option" where
  "completeInflight hosts s =
     (case sr_pending s of
        None \<Rightarrow> Some s
      | Some p \<Rightarrow>
          if hosts = [] then Some s
          else map_option (\<lambda>(p', cl). s\<lparr>sr_pending := Some p', sr_closed := cl\<rparr>)
                 (complete_loop hosts p (sr_closed s)))"

fun apply_announcements :: "time \<Rightarrow> trust \<Rightarrow> announcement list \<Rightarrow> mcache \<Rightarrow> string list \<times> change list \<times> mcache" where
  "apply_announcements now tr [] c = ([], [], c)"
| "apply_announcements now tr (a # as) c =
     (let (ch, evs, c1) = mc_apply a now tr c;
          (hosts, evs', c2) = apply_announcements now tr as c1 in
      ((if ch then [an_host a] else []) @ hosts, evs @ evs', c2))"

fun apply_services :: "service list \<Rightarrow> mcache \<Rightarrow> bool \<times> mcache" where
  "apply_services [] c = (False, c)"
| "apply_services (sv # svs) c =
     (let (ch1, c1) = ApplyService (svc_host sv) (svc_type sv) (svc_port sv) (svc_text sv) c;
          (ch2, c2) = ApplyInfo (svc_host sv) (svc_desc sv) c1;
          (ch3, c3) = apply_services svs c2 in
      (ch1 \<or> ch2 \<or> ch3, c3))"

text \<open>Everything a packet does before the view is published: the hosts to wake, the change events, whether to publish.\<close>

definition absorb :: "dns_msg option \<Rightarrow> trust \<Rightarrow> time \<Rightarrow> source \<Rightarrow> string list \<times> change list \<times> bool \<times> source" where
  "absorb pkt tr now s =
     (let (hosts, evs, c1) = apply_announcements now tr (ParsePacket pkt) (sr_cache s);
          (chs, c2) = apply_services (ParseServices pkt) c1;
          s1 = s\<lparr>sr_cache := c2\<rparr>;
          s2 = (if sr_query_every s > 0
                then fold addInstance (parseInstances pkt) (fold addType (parseServiceTypes pkt) s1) else s1) in
      (hosts, evs, hosts \<noteq> [] \<or> chs, s2))"

text \<open>
  What a goroutine does after that, one action at a time: build and store the view
  (other goroutines can run between the two), and wake the callers that wait.
\<close>

datatype src_action = PublishView | StoreView mdns_view | WakeWaiters "string list"

definition packet_actions :: "string list \<Rightarrow> bool \<Rightarrow> src_action list" where
  "packet_actions hosts changed = (if changed then [PublishView, WakeWaiters hosts] else [])"

fun perform :: "time \<Rightarrow> src_action \<Rightarrow> source \<Rightarrow> source option" where
  "perform now PublishView s = Some (publish now s)"
| "perform now (StoreView v) s = Some (s\<lparr>sr_view := v\<rparr>)"
| "perform now (WakeWaiters hosts) s = completeInflight hosts s"

text \<open>The states that a sequence of actions goes through, the first and the last included.\<close>

fun run_actions :: "time \<Rightarrow> src_action list \<Rightarrow> source \<Rightarrow> source list option" where
  "run_actions now [] s = Some [s]"
| "run_actions now (a # as) s =
     (case perform now a s of None \<Rightarrow> None | Some s' \<Rightarrow> map_option (Cons s) (run_actions now as s'))"

definition packet_states ::
    "dns_msg option \<Rightarrow> trust \<Rightarrow> time \<Rightarrow> time \<Rightarrow> source \<Rightarrow> (change list \<times> source list) option" where
  "packet_states pkt tr now now2 s =
     (let (hosts, evs, changed, s1) = absorb pkt tr now s in
      map_option (Pair evs) (run_actions now2 (packet_actions hosts changed) s1))"

definition HandlePacket :: "dns_msg option \<Rightarrow> trust \<Rightarrow> time \<Rightarrow> time \<Rightarrow> source \<Rightarrow> (change list \<times> source) option" where
  "HandlePacket pkt tr now now2 s = map_option (\<lambda>(evs, ss). (evs, last ss)) (packet_states pkt tr now now2 s)"

lemma run_actions_nonempty: "run_actions now as s = Some ss \<Longrightarrow> ss \<noteq> []"
  by (cases as) (auto split: option.splits)

lemma packet_states_eq:
  "packet_states pkt tr now now2 s =
     (case absorb pkt tr now s of (hosts, evs, changed, s1) \<Rightarrow>
        if changed then map_option (\<lambda>s3. (evs, [s1, publish now2 s1, s3])) (completeInflight hosts (publish now2 s1))
        else Some (evs, [s1]))"
  by (cases "absorb pkt tr now s") (simp add: packet_states_def packet_actions_def split: option.splits)

lemma HandlePacket_eq:
  "HandlePacket pkt tr now now2 s =
     (case absorb pkt tr now s of (hosts, evs, changed, s1) \<Rightarrow>
        if changed then map_option (Pair evs) (completeInflight hosts (publish now2 s1)) else Some (evs, s1))"
  by (cases "absorb pkt tr now s") (simp add: HandlePacket_def packet_states_eq option.map_comp comp_def)

text \<open>One turn of the housekeeping loop of \<open>Run\<close>: the expiry, then the view is published.\<close>

definition run_expire :: "time \<Rightarrow> source \<Rightarrow> change list \<times> source" where
  "run_expire now s = (let (_, evs, c) = Expire now (sr_cache s) in (evs, s\<lparr>sr_cache := c\<rparr>))"

definition run_tick :: "time \<Rightarrow> time \<Rightarrow> source \<Rightarrow> change list \<times> source" where
  "run_tick now now2 s = (let (evs, s1) = run_expire now s in (evs, publish now2 s1))"

section \<open>Solicitation\<close>

definition buildHostQuery :: "string \<Rightarrow> dns_msg" where
  "buildHostQuery label =
     (let name = Fqdn (label @ ''.local'') in
      new_msg\<lparr>msg_question := [\<lparr>q_name = name, q_type = TypeA, q_class = ClassINET\<rparr>,
                                \<lparr>q_name = name, q_type = TypeAAAA, q_class = ClassINET\<rparr>]\<rparr>)"

definition trim_clients :: "time \<Rightarrow> (addr, od_bucket) gomap \<Rightarrow> (addr, od_bucket) gomap" where
  "trim_clients now m =
     (if length m > odTableCap then
        (let m1 = filter (\<lambda>(_, b). \<not> (case ob_last b of None \<Rightarrow> True | Some l \<Rightarrow> l < now - odSuppressWindow)) m in
         drop (length m1 - odTableCap) m1)
      else m)"

definition odClientAllow :: "time \<Rightarrow> addr \<Rightarrow> source \<Rightarrow> bool \<times> source" where
  "odClientAllow now client s =
     (if \<not> IsValid client then (True, s)
      else
        (let m = trim_clients now (sr_clients s);
             b = (case gm_get m client of None \<Rightarrow> new_bucket | Some b \<Rightarrow> b);
             (ok, b') = od_allow odClientRate odClientBurst now b in
         (ok, s\<lparr>sr_clients := gm_set m client b'\<rparr>)))"

definition odBoundRecent :: "time \<Rightarrow> source \<Rightarrow> source" where
  "odBoundRecent now s =
     (if length (sr_recent s) \<le> odTableCap then s
      else
        (let m = filter (\<lambda>(_, t). \<not> t < now - odSuppressWindow) (sr_recent s) in
         s\<lparr>sr_recent := (if length m > odTableCap then [] else m)\<rparr>))"

text \<open>What the first part of a call decides: return false, wait for another call, or solicit and wait.\<close>

datatype od_begin = OD_Return | OD_Join nat | OD_Emit nat

definition count_suppressed :: "source \<Rightarrow> source" where
  "count_suppressed s = s\<lparr>sr_stats := (sr_stats s)\<lparr>os_suppressed := os_suppressed (sr_stats s) + 1\<rparr>\<rparr>"

definition count_cap_full :: "source \<Rightarrow> source" where
  "count_cap_full s = s\<lparr>sr_stats := (sr_stats s)\<lparr>os_cap_full := os_cap_full (sr_stats s) + 1\<rparr>\<rparr>"

definition count_limited :: "source \<Rightarrow> source" where
  "count_limited s = s\<lparr>sr_stats := (sr_stats s)\<lparr>os_limited := os_limited (sr_stats s) + 1\<rparr>\<rparr>"

definition od_emit :: "time \<Rightarrow> time \<Rightarrow> string \<Rightarrow> (string, nat) gomap \<Rightarrow> source \<Rightarrow> od_begin \<times> source" where
  "od_emit now now2 label p s =
     (let fl = sr_next s;
          s1 = odBoundRecent now2 (s\<lparr>sr_next := fl + 1, sr_pending := Some (gm_set p label fl),
                                     sr_recent := gm_set (sr_recent s) label now\<rparr>) in
      (OD_Emit fl, s1\<lparr>sr_stats := (sr_stats s1)\<lparr>os_emitted := os_emitted (sr_stats s1) + 1\<rparr>\<rparr>))"

text \<open>The global bucket is asked first; the bucket of the client only if it let the call through.\<close>

definition od_limits :: "time \<Rightarrow> addr \<Rightarrow> source \<Rightarrow> bool \<times> source" where
  "od_limits now client s =
     (let (ok, g) = od_allow odGlobalRate odGlobalBurst now (sr_global s);
          s1 = s\<lparr>sr_global := g\<rparr> in
      if \<not> ok then (False, s1) else odClientAllow now client s1)"

definition resolve_begin :: "time \<Rightarrow> time \<Rightarrow> string \<Rightarrow> addr \<Rightarrow> source \<Rightarrow> od_begin \<times> source" where
  "resolve_begin now now2 label client s =
     (case sr_pending s of
        None \<Rightarrow> (OD_Return, s)
      | Some p \<Rightarrow>
          if \<not> sr_sender s \<or> label = [] then (OD_Return, s)
          else case gm_get p label of
            Some fl \<Rightarrow> (OD_Join fl, s)
          | None \<Rightarrow>
              if (case gm_get (sr_recent s) label of None \<Rightarrow> False | Some t \<Rightarrow> now - t < odSuppressWindow)
              then (OD_Return, count_suppressed s)
              else if length p \<ge> odInflightCap then (OD_Return, count_cap_full s)
              else
                (let (ok, s1) = od_limits now client s in
                 if \<not> ok then (OD_Return, count_limited s1) else od_emit now now2 label p s1))"

text \<open>After the wait of the call that solicited.\<close>

definition resolve_end :: "string \<Rightarrow> nat \<Rightarrow> bool \<Rightarrow> source \<Rightarrow> source" where
  "resolve_end label fl ok s =
     (let s1 = (case sr_pending s of
                  None \<Rightarrow> s
                | Some p \<Rightarrow> if gm_get p label = Some fl then s\<lparr>sr_pending := Some (gm_del p label)\<rparr> else s) in
      if ok then s1\<lparr>sr_stats := (sr_stats s1)\<lparr>os_hits := os_hits (sr_stats s1) + 1\<rparr>\<rparr> else s1)"

definition OnDemandStats :: "source \<Rightarrow> (od_stats \<times> nat) option" where
  "OnDemandStats s =
     (case sr_pending s of None \<Rightarrow> None | Some p \<Rightarrow> Some (sr_stats s, length p))"

section \<open>The bucket keeps its promise\<close>

definition od_level :: "rat \<Rightarrow> rat \<Rightarrow> od_bucket \<Rightarrow> time \<Rightarrow> rat" where
  "od_level rate burst b t =
     (case ob_last b of
        None \<Rightarrow> burst
      | Some l \<Rightarrow> min burst (ob_tokens b + of_int (t - l) / 1000000000 * rate))"

definition od_used :: "rat \<Rightarrow> od_bucket \<Rightarrow> time \<Rightarrow> bool" where
  "od_used burst b t \<longleftrightarrow> ob_tokens b \<le> burst \<and>
     (case ob_last b of None \<Rightarrow> True | Some l \<Rightarrow> l \<le> t \<and> 0 \<le> ob_tokens b)"

lemma od_allow_level:
  assumes "od_used burst b t"
  shows "od_allow rate burst t b =
    (1 \<le> od_level rate burst b t,
     \<lparr>ob_tokens = od_level rate burst b t - (if 1 \<le> od_level rate burst b t then 1 else 0), ob_last = Some t\<rparr>)"
  using assms by (auto simp: od_allow_def od_level_def od_used_def Let_def min_def split: option.splits)

lemma min_refill: "0 \<le> (d :: rat) \<Longrightarrow> min m (k + (x + d)) = min m (min m (k + x) + d)"
  by (auto simp: min_def)

lemma od_bucket_laws:
  assumes "0 \<le> rate" "0 \<le> burst"
  shows "token_bucket (od_allow rate burst) (od_level rate burst) (od_used burst) (rate / 1000000000) burst"
proof
  show "0 \<le> rate / 1000000000"
    using assms by simp
  show nn: "0 \<le> od_level rate burst b t" if "od_used burst b t" for b t
    using that assms by (auto simp: od_level_def od_used_def split: option.splits)
  show lb: "od_level rate burst b t \<le> burst" if "od_used burst b t" for b t
    by (auto simp: od_level_def split: option.splits)
  show "od_level rate burst b t' = min burst (od_level rate burst b t + rate / 1000000000 * of_int (t' - t))"
    if u: "od_used burst b t" and t: "t \<le> t'" for b t t'
  proof (cases "ob_last b")
    case (Some l)
    have "(of_int (t' - l) :: rat) = of_int (t - l) + of_int (t' - t)"
      by simp
    then have "(of_int (t' - l) :: rat) / 1000000000 * rate = of_int (t - l) / 1000000000 * rate + rate / 1000000000 * of_int (t' - t)"
      by (simp only: add_divide_distrib distrib_right) simp
    moreover have "0 \<le> rate / 1000000000 * of_int (t' - t)"
      using assms t by simp
    moreover have "od_level rate burst b u = min burst (ob_tokens b + of_int (u - l) / 1000000000 * rate)" for u
      using Some by (simp add: od_level_def)
    ultimately show ?thesis
      using min_refill by presburger
  qed (use assms t in \<open>simp add: od_level_def\<close>)
  show "od_used burst b t'" if "od_used burst b t" "t \<le> t'" for b t t'
    using that by (auto simp: od_used_def split: option.splits)
  show "od_used burst (snd (od_allow rate burst t b)) t" if "od_used burst b t" for b t
    using nn [OF that] lb [OF that] by (auto simp: od_allow_level [OF that] od_used_def)
  show "fst (od_allow rate burst t b) \<longleftrightarrow> 1 \<le> od_level rate burst b t" if "od_used burst b t" for b t
    by (simp add: od_allow_level [OF that])
  show "od_level rate burst (snd (od_allow rate burst t b)) t =
      od_level rate burst b t - (if fst (od_allow rate burst t b) then 1 else 0)" if "od_used burst b t" for b t
    using lb [OF that] by (simp add: od_allow_level [OF that]) (simp add: od_level_def)
qed

interpretation odg: token_bucket "od_allow 10 20" "od_level 10 20" "od_used 20" "1 / 100000000" 20
  using od_bucket_laws [of 10 20] by simp

interpretation odc: token_bucket "od_allow 5 10" "od_level 5 10" "od_used 10" "1 / 200000000" 10
  using od_bucket_laws [of 5 10] by simp

section \<open>All callers together\<close>

text \<open>
  The system: the source, the clock, the callers that wait (the name, the channel, and
  whether the caller is the one that solicited), the solicitations made so far, and for
  each packet or housekeeping turn under way the actions it has still to do.
\<close>

record src_sys =
  sy_src :: source
  sy_clock :: time
  sy_wait :: "(string \<times> nat \<times> bool) list"
  sy_sent :: "(string \<times> time) list"
  sy_procs :: "src_action list list"

text \<open>
  A wait ends with success only when its channel is closed, and may end without success
  at any time (the timer, or the context of the caller).  Packets are handled
  concurrently: the changes of one packet to the cache are one step, and building the
  view, storing it and waking callers are further steps, between which anything else
  can happen.
\<close>

inductive src_step :: "src_sys \<Rightarrow> src_sys \<Rightarrow> bool" where
  packet: "sy_clock y \<le> now \<Longrightarrow> absorb pkt tr now (sy_src y) = (hosts, evs, changed, s) \<Longrightarrow>
    src_step y (y\<lparr>sy_src := s, sy_clock := now, sy_procs := packet_actions hosts changed # sy_procs y\<rparr>)"
| tick: "sy_clock y \<le> now \<Longrightarrow> run_expire now (sy_src y) = (evs, s) \<Longrightarrow>
    src_step y (y\<lparr>sy_src := s, sy_clock := now, sy_procs := [PublishView] # sy_procs y\<rparr>)"
| build: "sy_clock y \<le> now \<Longrightarrow> PublishView # as \<in> set (sy_procs y) \<Longrightarrow>
    src_step y (y\<lparr>sy_clock := now,
      sy_procs := (StoreView (mc_view now (sr_cache (sy_src y))) # as) # remove1 (PublishView # as) (sy_procs y)\<rparr>)"
| act: "a # as \<in> set (sy_procs y) \<Longrightarrow> a \<noteq> PublishView \<Longrightarrow> perform (sy_clock y) a (sy_src y) = Some s \<Longrightarrow>
    src_step y (y\<lparr>sy_src := s, sy_procs := as # remove1 (a # as) (sy_procs y)\<rparr>)"
| poke: "sy_clock y \<le> now \<Longrightarrow> PokeDiscovery now (sy_src y) = (qs, s) \<Longrightarrow>
    src_step y (y\<lparr>sy_src := s, sy_clock := now\<rparr>)"
| call_return: "sy_clock y \<le> now \<Longrightarrow> now \<le> now2 \<Longrightarrow> resolve_begin now now2 label client (sy_src y) = (OD_Return, s) \<Longrightarrow>
    src_step y (y\<lparr>sy_src := s, sy_clock := now2\<rparr>)"
| call_join: "sy_clock y \<le> now \<Longrightarrow> now \<le> now2 \<Longrightarrow> resolve_begin now now2 label client (sy_src y) = (OD_Join fl, s) \<Longrightarrow>
    src_step y (y\<lparr>sy_src := s, sy_clock := now2, sy_wait := (label, fl, False) # sy_wait y\<rparr>)"
| call_emit: "sy_clock y \<le> now \<Longrightarrow> now \<le> now2 \<Longrightarrow> resolve_begin now now2 label client (sy_src y) = (OD_Emit fl, s) \<Longrightarrow>
    src_step y (y\<lparr>sy_src := s, sy_clock := now2, sy_wait := (label, fl, True) # sy_wait y,
      sy_sent := sy_sent y @ [(label, now)]\<rparr>)"
| emitter_ends: "(label, fl, True) \<in> set (sy_wait y) \<Longrightarrow> ok \<longrightarrow> fl \<in> set (sr_closed (sy_src y)) \<Longrightarrow>
    src_step y (y\<lparr>sy_src := resolve_end label fl ok (sy_src y), sy_wait := remove1 (label, fl, True) (sy_wait y)\<rparr>)"
| joiner_ends: "(label, fl, False) \<in> set (sy_wait y) \<Longrightarrow> ok \<longrightarrow> fl \<in> set (sr_closed (sy_src y)) \<Longrightarrow>
    src_step y (y\<lparr>sy_wait := remove1 (label, fl, False) (sy_wait y)\<rparr>)"

definition src_start :: "source \<Rightarrow> time \<Rightarrow> src_sys" where
  "src_start s now = \<lparr>sy_src = s, sy_clock = now, sy_wait = [], sy_sent = [], sy_procs = []\<rparr>"

section \<open>Channels\<close>

text \<open>
  The solicitations under way: one per name, at most 64, their channels are different
  and open, and each has a caller that waits for it and will take it off the table.
\<close>

definition emitters :: "(string \<times> nat \<times> bool) list \<Rightarrow> (string \<times> nat) list" where
  "emitters ws = map (\<lambda>(l, fl, _). (l, fl)) (filter (\<lambda>(_, _, e). e) ws)"

definition chan_ok :: "(string, nat) gomap option \<Rightarrow> nat list \<Rightarrow> nat \<Rightarrow> (string \<times> nat \<times> bool) list \<Rightarrow> bool" where
  "chan_ok pending cl nxt ws \<longleftrightarrow>
     (case pending of
        None \<Rightarrow> ws = []
      | Some p \<Rightarrow> gm_ok p \<and> length p \<le> odInflightCap \<and> distinct (map snd p) \<and>
          set (map snd p) \<inter> set cl = {} \<and> set p \<subseteq> set (emitters ws)) \<and>
     (\<forall>fl\<in>set cl. fl < nxt) \<and> distinct (map snd (emitters ws)) \<and> (\<forall>(l, fl, e)\<in>set ws. fl < nxt)"

definition chan_inv :: "src_sys \<Rightarrow> bool" where
  "chan_inv y \<longleftrightarrow> chan_ok (sr_pending (sy_src y)) (sr_closed (sy_src y)) (sr_next (sy_src y)) (sy_wait y)"

text \<open>Operations that leave the fields of the solicitation alone.\<close>

definition same_od :: "source \<Rightarrow> source \<Rightarrow> bool" where
  "same_od s s' \<longleftrightarrow> sr_pending s' = sr_pending s \<and> sr_closed s' = sr_closed s \<and> sr_next s' = sr_next s \<and>
     sr_recent s' = sr_recent s \<and> sr_global s' = sr_global s \<and> sr_clients s' = sr_clients s"

lemma same_od_refl [simp]: "same_od s s"
  by (simp add: same_od_def)

lemma same_od_trans: "same_od a b \<Longrightarrow> same_od b c \<Longrightarrow> same_od a c"
  by (simp add: same_od_def)

lemma same_od_fold: "(\<And>x s. same_od s (f x s)) \<Longrightarrow> same_od s (fold f xs s)"
  by (induction xs arbitrary: s) (auto intro: same_od_trans)

lemma same_od_simple:
  "same_od s (addType t s)" "same_od s (addInstance t s)" "same_od s (publish now s)" "same_od s (s\<lparr>sr_cache := c\<rparr>)"
  "same_od s (snd (run_expire now s))" "same_od s (snd (PokeDiscovery now s))"
  by (auto simp: same_od_def addType_def addInstance_def publish_def run_expire_def PokeDiscovery_def Let_def
      split: prod.splits option.splits)

lemma learn_same_od: "same_od s (fold addInstance xs (fold addType ys s))"
  by (rule same_od_trans) (rule same_od_fold, rule same_od_simple)+

lemma absorb_same_od:
  assumes "absorb pkt tr now s = (hosts, evs, ch, s2)"
  shows "same_od s s2"
proof -
  obtain c where "s2 = (if sr_query_every s > 0 then fold addInstance (parseInstances pkt)
      (fold addType (parseServiceTypes pkt) (s\<lparr>sr_cache := c\<rparr>)) else s\<lparr>sr_cache := c\<rparr>)"
    using assms by (auto simp: absorb_def Let_def split: prod.splits)
  then show ?thesis
    using learn_same_od same_od_simple(4) same_od_trans by (metis (full_types))
qed

lemma complete_loop_ok:
  assumes "gm_ok p" "distinct (map snd p)" "set (map snd p) \<inter> set cl = {}"
  shows "\<exists>p' cl'. complete_loop hs p cl = Some (p', cl') \<and> gm_ok p' \<and> distinct (map snd p') \<and>
    set (map snd p') \<inter> set cl' = {} \<and> set p' \<subseteq> set p \<and> length p' \<le> length p \<and> set cl' \<subseteq> set cl \<union> set (map snd p)"
  using assms
proof (induction hs arbitrary: p cl)
  case (Cons h hs)
  show ?case
  proof (cases "gm_get p h")
    case None
    then show ?thesis
      using Cons.IH [OF Cons.prems] by simp
  next
    case (Some fl)
    then have fl: "(h, fl) \<in> set p" "fl \<notin> set cl"
      using map_of_SomeD [OF Some] Cons.prems(3) by force+
    let ?p = "gm_del p h"
    have d: "distinct (map snd ?p)"
      using Cons.prems(2) by (simp add: AList.delete_eq distinct_map_filter)
    have sub: "set ?p \<subseteq> set p"
      by (rule gm_del_subset)
    have "fl \<notin> set (map snd ?p)"
    proof
      assume "fl \<in> set (map snd ?p)"
      then obtain k where k: "(k, fl) \<in> set ?p"
        by auto
      then have "k \<noteq> h" "(k, fl) \<in> set p"
        using sub by (auto simp: AList.delete_eq)
      then show False
        using fl(1) Cons.prems(2) inj_onD [of snd "set p" "(k, fl)" "(h, fl)"] by (simp add: distinct_map)
    qed
    then have x: "set (map snd ?p) \<inter> set (fl # cl) = {}"
      using Cons.prems(3) sub by force
    have len: "length ?p \<le> length p"
      by (simp add: AList.delete_eq)
    obtain p' cl' where r: "complete_loop hs ?p (fl # cl) = Some (p', cl')" "gm_ok p'" "distinct (map snd p')"
      "set (map snd p') \<inter> set cl' = {}" "set p' \<subseteq> set ?p" "length p' \<le> length ?p"
      "set cl' \<subseteq> set (fl # cl) \<union> set (map snd ?p)"
      using Cons.IH [OF _ d x] Cons.prems(1) by auto
    have "complete_loop (h # hs) p cl = Some (p', cl')"
      using Some fl(2) r(1) by simp
    moreover have "fl \<in> snd ` set p"
      using fl(1) by force
    then have "set cl' \<subseteq> set cl \<union> set (map snd p)"
      using r(7) sub by auto
    ultimately show ?thesis
      using r(2-6) sub len by (meson order_trans)
  qed
qed auto

lemma emitters_Cons:
  "emitters ((l, fl, e) # ws) = (if e then (l, fl) # emitters ws else emitters ws)"
  by (simp add: emitters_def)

lemma emitters_remove: "emitters (remove1 (l, fl, e) ws) = (if e then remove1 (l, fl) (emitters ws) else emitters ws)"
  by (induction ws) (auto simp: emitters_def)

lemma emitters_wait: "(l, fl) \<in> set (emitters ws) \<longleftrightarrow> (l, fl, True) \<in> set ws"
  by (force simp: emitters_def)

definition same_chan :: "source \<Rightarrow> source \<Rightarrow> bool" where
  "same_chan s s' \<longleftrightarrow> sr_pending s' = sr_pending s \<and> sr_closed s' = sr_closed s \<and> sr_next s' = sr_next s"

lemma same_od_chan: "same_od s s' \<Longrightarrow> same_chan s s'"
  by (simp add: same_od_def same_chan_def)

lemma chan_inv_same:
  "chan_inv y \<Longrightarrow> same_chan (sy_src y) s \<Longrightarrow> chan_inv (y\<lparr>sy_src := s, sy_clock := t\<rparr>)"
  by (simp add: chan_inv_def same_chan_def)

lemma odClientAllow_keeps:
  "odClientAllow now client s = (ok, s') \<Longrightarrow> \<exists>m. s' = s\<lparr>sr_clients := m\<rparr>"
  by (auto simp: odClientAllow_def Let_def split: if_splits prod.splits) (metis source.surjective source.update_convs(12))

lemma od_limits_keeps:
  assumes "od_limits now client s = (ok, s')"
  shows "\<exists>m. s' = s\<lparr>sr_global := snd (od_allow odGlobalRate odGlobalBurst now (sr_global s)), sr_clients := m\<rparr>"
    "ok \<Longrightarrow> fst (od_allow odGlobalRate odGlobalBurst now (sr_global s))"
proof -
  let ?g = "snd (od_allow odGlobalRate odGlobalBurst now (sr_global s))"
  show "\<exists>m. s' = s\<lparr>sr_global := ?g, sr_clients := m\<rparr>"
  proof (cases "fst (od_allow odGlobalRate odGlobalBurst now (sr_global s))")
    case True
    then show ?thesis
      using assms odClientAllow_keeps [of now client "s\<lparr>sr_global := ?g\<rparr>" ok s']
      by (simp add: od_limits_def Let_def case_prod_unfold)
  next
    case False
    then have "s' = s\<lparr>sr_global := ?g, sr_clients := sr_clients s\<rparr>"
      using assms by (auto simp: od_limits_def Let_def case_prod_unfold)
    then show ?thesis by blast
  qed
  show "ok \<Longrightarrow> fst (od_allow odGlobalRate odGlobalBurst now (sr_global s))"
    using assms by (simp add: od_limits_def Let_def case_prod_unfold split: if_splits)
qed

definition suppressed :: "time \<Rightarrow> string \<Rightarrow> source \<Rightarrow> bool" where
  "suppressed now label s \<longleftrightarrow>
     (case gm_get (sr_recent s) label of None \<Rightarrow> False | Some t \<Rightarrow> now - t < odSuppressWindow)"

lemma resolve_begin_return:
  assumes "resolve_begin now now2 label client s = (OD_Return, s')"
  shows "same_chan s s' \<and> sr_recent s' = sr_recent s \<and>
    (sr_global s' = sr_global s \<or> sr_global s' = snd (od_allow odGlobalRate odGlobalBurst now (sr_global s)))"
proof -
  have "s' \<in> {s, count_suppressed s, count_cap_full s} \<or> (\<exists>ok s1. od_limits now client s = (ok, s1) \<and> s' = count_limited s1)"
    using assms by (auto simp: resolve_begin_def od_emit_def Let_def split: option.splits if_splits prod.splits)
  then show ?thesis
  proof
    assume "\<exists>ok s1. od_limits now client s = (ok, s1) \<and> s' = count_limited s1"
    then obtain ok s1 where o: "od_limits now client s = (ok, s1)" "s' = count_limited s1"
      by blast
    show ?thesis
      using od_limits_keeps(1) [OF o(1)] o(2) by (auto simp: count_limited_def same_chan_def)
  qed (auto simp: same_chan_def count_suppressed_def count_cap_full_def)
qed

lemma resolve_begin_join:
  "resolve_begin now now2 label client s = (OD_Join fl, s') \<Longrightarrow>
    s' = s \<and> (\<exists>p. sr_pending s = Some p \<and> gm_get p label = Some fl)"
  by (auto simp: resolve_begin_def od_emit_def Let_def split: option.splits if_splits prod.splits)

lemma resolve_begin_emit:
  assumes "resolve_begin now now2 label client s = (OD_Emit fl, s')"
  obtains p m st where "sr_pending s = Some p" "gm_get p label = None" "length p < odInflightCap"
    "\<not> suppressed now label s" "fl = sr_next s"
    "fst (od_allow odGlobalRate odGlobalBurst now (sr_global s))"
    "s' = (odBoundRecent now2 (s\<lparr>sr_global := snd (od_allow odGlobalRate odGlobalBurst now (sr_global s)), sr_clients := m,
       sr_next := fl + 1, sr_pending := Some (gm_set p label fl), sr_recent := gm_set (sr_recent s) label now\<rparr>))\<lparr>sr_stats := st\<rparr>"
proof -
  obtain p where p: "sr_pending s = Some p" "gm_get p label = None" "length p < odInflightCap" "\<not> suppressed now label s"
    using assms by (auto simp: resolve_begin_def suppressed_def split: option.splits if_splits prod.splits)
  obtain s1 where s1: "od_limits now client s = (True, s1)" "od_emit now now2 label p s1 = (OD_Emit fl, s')"
    using assms p by (auto simp: resolve_begin_def suppressed_def split: option.splits if_splits prod.splits)
  obtain m where m: "s1 = s\<lparr>sr_global := snd (od_allow odGlobalRate odGlobalBurst now (sr_global s)), sr_clients := m\<rparr>"
    using od_limits_keeps(1) [OF s1(1)] by blast
  show ?thesis
    by (rule that [OF p, of "sr_stats s'" m])
      (use s1(2) od_limits_keeps(2) [OF s1(1)] in \<open>simp_all add: m od_emit_def Let_def\<close>, use s1(2) m in \<open>auto simp: od_emit_def Let_def\<close>)
qed

lemma odBoundRecent_keeps: "\<exists>r. odBoundRecent now s = s\<lparr>sr_recent := r\<rparr>"
proof -
  have "s = s\<lparr>sr_recent := sr_recent s\<rparr>" by simp
  then show ?thesis
    unfolding odBoundRecent_def Let_def by (metis (full_types))
qed

lemma chan_ok_complete:
  assumes "chan_ok pend cl nxt ws" "pend = Some p"
  shows "\<exists>p' cl'. complete_loop hs p cl = Some (p', cl') \<and> chan_ok (Some p') cl' nxt ws"
proof -
  have p: "gm_ok p" "length p \<le> odInflightCap" "distinct (map snd p)" "set (map snd p) \<inter> set cl = {}"
    "set p \<subseteq> set (emitters ws)" and w: "\<forall>fl\<in>set cl. fl < nxt" "\<forall>(l, fl, e)\<in>set ws. fl < nxt"
    "distinct (map snd (emitters ws))"
    using assms by (simp_all add: chan_ok_def)
  have "\<forall>fl\<in>set (map snd p). fl < nxt"
  proof
    fix fl assume "fl \<in> set (map snd p)"
    then obtain l where "(l, fl) \<in> set p" by auto
    then have "(l, fl, True) \<in> set ws"
      using p(5) emitters_wait by auto
    then show "fl < nxt" using w(2) by auto
  qed
  moreover obtain p' cl' where r: "complete_loop hs p cl = Some (p', cl')" "gm_ok p'" "distinct (map snd p')"
    "set (map snd p') \<inter> set cl' = {}" "set p' \<subseteq> set p" "length p' \<le> length p" "set cl' \<subseteq> set cl \<union> set (map snd p)"
    using complete_loop_ok [OF p(1,3,4), of hs] by auto
  ultimately have "chan_ok (Some p') cl' nxt ws"
    unfolding chan_ok_def option.case using p w by (intro conjI) (auto dest!: subsetD)
  then show ?thesis
    using r(1) by blast
qed

lemma completeInflight_chan:
  assumes "chan_ok (sr_pending s) (sr_closed s) (sr_next s) ws"
  shows "\<exists>p cl. completeInflight hosts s = Some (s\<lparr>sr_pending := p, sr_closed := cl\<rparr>) \<and> chan_ok p cl (sr_next s) ws"
proof (cases "sr_pending s = None \<or> hosts = []")
  case True
  then have "completeInflight hosts s = Some (s\<lparr>sr_pending := sr_pending s, sr_closed := sr_closed s\<rparr>)"
    by (auto simp: completeInflight_def split: option.splits)
  then show ?thesis
    using assms by blast
next
  case False
  then obtain p where p: "sr_pending s = Some p" "hosts \<noteq> []"
    by auto
  then show ?thesis
    using chan_ok_complete [OF assms p(1), of hosts] by (auto simp: completeInflight_def)
qed

lemma HandlePacket_chan:
  assumes "chan_ok (sr_pending s) (sr_closed s) (sr_next s) ws"
  shows "\<exists>evs s'. HandlePacket pkt tr now now2 s = Some (evs, s') \<and>
    chan_ok (sr_pending s') (sr_closed s') (sr_next s') ws \<and>
    sr_recent s' = sr_recent s \<and> sr_global s' = sr_global s"
proof -
  obtain hosts evs ch s1 where a: "absorb pkt tr now s = (hosts, evs, ch, s1)"
    by (metis prod_cases4)
  have same: "same_od s s1"
    using absorb_same_od [OF a] .
  then have "same_od s (publish now2 s1)"
    using same_od_trans same_od_simple(3) by blast
  then have *: "chan_ok (sr_pending (publish now2 s1)) (sr_closed (publish now2 s1)) (sr_next (publish now2 s1)) ws"
    "sr_recent (publish now2 s1) = sr_recent s" "sr_global (publish now2 s1) = sr_global s"
    using assms by (simp_all add: same_od_def)
  show ?thesis
  proof (cases ch)
    case True
    then show ?thesis
      using completeInflight_chan [OF *(1), of hosts] *(2,3) a by (auto simp: HandlePacket_eq)
  next
    case False
    then show ?thesis
      using a assms same by (auto simp: HandlePacket_eq same_od_def)
  qed
qed

lemma emit_chan:
  assumes "chan_ok (Some p) cl nxt ws" "gm_get p label = None" "length p < odInflightCap"
  shows "chan_ok (Some (gm_set p label nxt)) cl (nxt + 1) ((label, nxt, True) # ws)"
proof -
  have p: "gm_ok p" "distinct (map snd p)" "set (map snd p) \<inter> set cl = {}" "set p \<subseteq> set (emitters ws)"
    and w: "\<forall>fl\<in>set cl. fl < nxt" "\<forall>(l, fl, e)\<in>set ws. fl < nxt" "distinct (map snd (emitters ws))"
    using assms by (simp_all add: chan_ok_def)
  have "nxt \<notin> snd ` set (emitters ws)"
    using w(2) emitters_wait by force
  moreover from this have "nxt \<notin> snd ` set p"
    using p(4) by auto
  moreover have "nxt \<notin> set cl" "gm_ok (p @ [(label, nxt)])"
    using w(1) p(1) assms(2) by (auto simp: gm_ok_def map_of_eq_None_iff)
  ultimately show ?thesis
    unfolding chan_ok_def option.case gm_set_new [OF assms(2)]
    using p w assms(3) by (auto simp: emitters_Cons less_Suc_eq)
qed

lemma end_chan:
  assumes "chan_ok (Some p) cl nxt ws" "(label, fl, True) \<in> set ws"
  shows "chan_ok (Some (if gm_get p label = Some fl then gm_del p label else p)) cl nxt (remove1 (label, fl, True) ws)"
proof -
  let ?p = "if gm_get p label = Some fl then gm_del p label else p"
  have p: "gm_ok p" "length p \<le> odInflightCap" "distinct (map snd p)" "set (map snd p) \<inter> set cl = {}"
    "set p \<subseteq> set (emitters ws)" and w: "\<forall>fl\<in>set cl. fl < nxt" "\<forall>(l, fl, e)\<in>set ws. fl < nxt"
    "distinct (map snd (emitters ws))"
    using assms by (simp_all add: chan_ok_def)
  have d: "distinct (emitters ws)"
    using w(3) distinct_map by blast
  have sub: "set ?p \<subseteq> set p - {(label, fl)}"
  proof (cases "gm_get p label = Some fl")
    case True
    then show ?thesis by (auto simp: AList.delete_eq)
  next
    case False
    then have "(label, fl) \<notin> set p"
      using p(1) map_of_is_SomeI [of p label fl] by (auto simp: gm_ok_def)
    then show ?thesis using False by auto
  qed
  have "length ?p \<le> length p" "gm_ok ?p" "distinct (map snd ?p)"
    using p(1,3) by (simp_all add: AList.delete_eq distinct_map_filter gm_ok_filter)
  moreover have "set (emitters (remove1 (label, fl, True) ws)) = set (emitters ws) - {(label, fl)}"
    using d by (simp add: emitters_remove)
  moreover have "distinct (map snd (emitters (remove1 (label, fl, True) ws)))"
    using w(3) by (simp add: emitters_remove distinct_map) (meson inj_on_diff inj_on_subset set_remove1_subset distinct_remove1)
  moreover have "\<forall>(l, fl, e)\<in>set (remove1 (label, fl, True) ws). fl < nxt"
    using w(2) by (meson notin_set_remove1)
  moreover have "set (map snd ?p) \<subseteq> set (map snd p)"
    using sub by (metis Diff_subset image_mono order_trans set_map)
  then have "set (map snd ?p) \<inter> set cl = {}"
    using p(4) by blast
  ultimately show ?thesis
    unfolding chan_ok_def option.case using p(2,5) w(1) sub by fastforce
qed

section \<open>The history of solicitations\<close>

definition spaced :: "(string \<times> time) list \<Rightarrow> bool" where
  "spaced sent \<longleftrightarrow> sorted_wrt (\<lambda>(l, t) (l', t'). l = l' \<longrightarrow> odSuppressWindow \<le> t' - t) sent"

definition hist_ok :: "(string \<times> time) list \<Rightarrow> (string, time) gomap \<Rightarrow> od_bucket \<Rightarrow> time \<Rightarrow> bool" where
  "hist_ok sent r g now \<longleftrightarrow> odg.window_ok (map snd sent) g now \<and> spaced sent \<and>
     gm_ok r \<and> length r \<le> odTableCap \<and> mset (map snd r) \<subseteq># mset (map snd sent) \<and>
     (\<forall>(l, t)\<in>set sent. now - t < odSuppressWindow \<longrightarrow> (\<exists>t'. gm_get r l = Some t' \<and> t \<le> t'))"

lemma hist_advance: "hist_ok sent r g now \<Longrightarrow> now \<le> now' \<Longrightarrow> hist_ok sent r g now'"
  unfolding hist_ok_def using odg.window_advance by fastforce

lemma hist_denied: "hist_ok sent r g now \<Longrightarrow> hist_ok sent r (snd (od_allow 10 20 now g)) now"
  unfolding hist_ok_def using odg.window_denied by blast

text \<open>The table of recent names never overflows: no more than 120 names fit into one window.\<close>

lemma recent_window:
  assumes "odg.window_ok em g now" "mset (map snd r) \<subseteq># mset em"
  shows "length (filter (\<lambda>(_, t). \<not> t < now - odSuppressWindow) r) \<le> 120"
proof -
  let ?t0 = "now - odSuppressWindow"
  have "length (filter (\<lambda>(_, t). \<not> t < ?t0) r) = size (filter_mset (\<lambda>t. ?t0 \<le> t) (mset (map snd r)))"
    by (induction r) (auto simp: not_less)
  also have "\<dots> \<le> size (filter_mset (\<lambda>t. ?t0 \<le> t) (mset em))"
    using assms(2) by (intro size_mset_mono multiset_filter_mono)
  also have "\<dots> = spent em ?t0"
    by (simp add: spent_def flip: mset_filter)
  finally have "length (filter (\<lambda>(_, t). \<not> t < ?t0) r) \<le> spent em ?t0" .
  moreover have "rat_of_nat (spent em ?t0) \<le> 20 + 1 / 100000000 * of_int (now - ?t0)"
    by (rule odg.window_bound [OF assms(1)]) simp
  then have "rat_of_nat (spent em ?t0) \<le> of_nat 120"
    by simp
  ultimately show ?thesis
    by (simp only: of_nat_le_iff)
qed

lemma hist_emit:
  assumes h: "hist_ok sent (sr_recent s) g clock" and t: "clock \<le> now" "now \<le> now2"
    and ok: "fst (od_allow 10 20 now g)" and ns: "\<not> suppressed now label s"
    and s': "s' = odBoundRecent now2 (s0\<lparr>sr_recent := gm_set (sr_recent s) label now\<rparr>)"
  shows "hist_ok (sent @ [(label, now)]) (sr_recent s') (snd (od_allow 10 20 now g)) now2"
proof -
  let ?em = "map snd (sent @ [(label, now)])" and ?r = "gm_set (sr_recent s) label now"
  have r: "gm_ok ?r" "length ?r \<le> odTableCap + 1" and sub0: "mset (map snd (sr_recent s)) \<subseteq># mset (map snd sent)"
    using h by (simp_all add: hist_ok_def gm_size_set)
  have "odg.window_ok (map snd sent) g now"
    using h t odg.window_advance by (auto simp: hist_ok_def)
  then have w: "odg.window_ok ?em (snd (od_allow 10 20 now g)) now2"
    using odg.window_advance [OF odg.window_allow t(2)] ok by fastforce
  have sub: "mset (map snd ?r) \<subseteq># mset ?em"
    by (rule subset_mset.order_trans [OF gm_set_vals]) (use sub0 in simp)
  let ?m = "filter (\<lambda>(_, t). \<not> t < now2 - odSuppressWindow) ?r"
  have small: "length ?m \<le> 120"
    by (rule recent_window [OF w sub])
  then have r': "sr_recent s' = (if length ?r \<le> odTableCap then ?r else ?m)"
    unfolding s' by (simp add: odBoundRecent_def Let_def)
  have old: "now - t \<ge> odSuppressWindow" if m: "(label, t) \<in> set sent" for t
  proof (rule ccontr)
    assume "\<not> now - t \<ge> odSuppressWindow"
    then obtain t' where "gm_get (sr_recent s) label = Some t'" "t \<le> t'"
      using h m t(1) by (fastforce simp: hist_ok_def)
    then show False
      using ns \<open>\<not> now - t \<ge> odSuppressWindow\<close> by (simp add: suppressed_def)
  qed
  have "spaced (sent @ [(label, now)])"
    using h old by (auto simp: spaced_def sorted_wrt_append hist_ok_def)
  moreover have "gm_ok (sr_recent s')" "length (sr_recent s') \<le> odTableCap"
    unfolding r' using r small by (auto simp: gm_ok_filter)
  moreover have "mset (map snd (sr_recent s')) \<subseteq># mset ?em"
    unfolding r' using sub subset_mset.order_trans [OF image_mset_subseteq_mono [OF multiset_filter_subset] sub [unfolded mset_map]]
    by (simp add: mset_filter)
  moreover have "\<exists>t'. gm_get (sr_recent s') l = Some t' \<and> t \<le> t'"
    if lt: "(l, t) \<in> set (sent @ [(label, now)])" "now2 - t < odSuppressWindow" for l t
  proof -
    obtain t' where t': "gm_get ?r l = Some t'" "t \<le> t'"
    proof (cases "l = label")
      case True
      have "t \<le> now"
        using lt(1) w h t by (auto simp: hist_ok_def odg.window_ok_def)
      then show ?thesis
        using that [of now] True by (simp add: update_conv')
    next
      case False
      then have "(l, t) \<in> set sent" "clock - t < odSuppressWindow"
        using lt t by auto
      then show ?thesis
        using h that False by (fastforce simp: hist_ok_def update_conv')
    qed
    moreover from this have "gm_get ?m l = Some t'"
      using lt(2) by (intro gm_get_filter [OF r(1)]) auto
    ultimately show ?thesis
      unfolding r' by auto
  qed
  ultimately show ?thesis
    unfolding hist_ok_def using w by blast
qed

definition sys_inv :: "src_sys \<Rightarrow> bool" where
  "sys_inv y \<longleftrightarrow> chan_inv y \<and> hist_ok (sy_sent y) (sr_recent (sy_src y)) (sr_global (sy_src y)) (sy_clock y)"

lemma run_expire_od: "run_expire now s = (evs, s') \<Longrightarrow> same_od s s'"
  using same_od_simple(5) [of s now] by simp

lemma Poke_od: "PokeDiscovery now s = (qs, s') \<Longrightarrow> same_od s s'"
  using same_od_simple(6) [of s now] by simp

lemma sys_inv_same:
  assumes "sys_inv y" "same_od (sy_src y) s" "sy_clock y \<le> now"
  shows "sys_inv (y\<lparr>sy_src := s, sy_clock := now\<rparr>)"
  using assms hist_advance [of "sy_sent y" _ _ "sy_clock y" now] by (simp add: sys_inv_def chan_inv_def same_od_def)

lemma sys_inv_procs [simp]: "sys_inv (y\<lparr>sy_procs := ps\<rparr>) = sys_inv y"
  by (simp add: sys_inv_def chan_inv_def)

text \<open>No action of a goroutine stops the process.\<close>

lemma perform_chan:
  assumes "chan_ok (sr_pending s) (sr_closed s) (sr_next s) ws"
  shows "\<exists>s'. perform now a s = Some s' \<and> chan_ok (sr_pending s') (sr_closed s') (sr_next s') ws \<and>
    sr_recent s' = sr_recent s \<and> sr_global s' = sr_global s"
proof (cases a)
  case (WakeWaiters hosts)
  then show ?thesis
    using completeInflight_chan [OF assms, of hosts] by auto
qed (use assms in \<open>simp_all add: publish_def\<close>)

lemma sys_inv_act:
  assumes "sys_inv y" "perform (sy_clock y) a (sy_src y) = Some s"
  shows "sys_inv (y\<lparr>sy_src := s\<rparr>)"
proof -
  have "chan_ok (sr_pending (sy_src y)) (sr_closed (sy_src y)) (sr_next (sy_src y)) (sy_wait y)"
    using assms(1) by (simp add: sys_inv_def chan_inv_def)
  then show ?thesis
    using perform_chan [of "sy_src y" "sy_wait y" "sy_clock y" a] assms by (auto simp: sys_inv_def chan_inv_def)
qed

lemma sys_inv_emit:
  assumes inv: "sys_inv y" and t: "sy_clock y \<le> now" "now \<le> now2"
    and r: "resolve_begin now now2 label client (sy_src y) = (OD_Emit fl, s)"
  shows "sys_inv (y\<lparr>sy_src := s, sy_clock := now2, sy_wait := (label, fl, True) # sy_wait y,
      sy_sent := sy_sent y @ [(label, now)]\<rparr>)"
proof -
  obtain p m st where e: "sr_pending (sy_src y) = Some p" "gm_get p label = None" "length p < odInflightCap"
    "\<not> suppressed now label (sy_src y)" "fl = sr_next (sy_src y)"
    "fst (od_allow odGlobalRate odGlobalBurst now (sr_global (sy_src y)))"
    "s = (odBoundRecent now2 ((sy_src y)\<lparr>sr_global := snd (od_allow odGlobalRate odGlobalBurst now (sr_global (sy_src y))), sr_clients := m,
       sr_next := fl + 1, sr_pending := Some (gm_set p label fl), sr_recent := gm_set (sr_recent (sy_src y)) label now\<rparr>))\<lparr>sr_stats := st\<rparr>"
    by (rule resolve_begin_emit [OF r])
  let ?s0 = "(sy_src y)\<lparr>sr_global := snd (od_allow odGlobalRate odGlobalBurst now (sr_global (sy_src y))), sr_clients := m,
       sr_next := fl + 1, sr_pending := Some (gm_set p label fl)\<rparr>"
  let ?s1 = "odBoundRecent now2 (?s0\<lparr>sr_recent := gm_set (sr_recent (sy_src y)) label now\<rparr>)"
  obtain rc where "?s1 = (?s0\<lparr>sr_recent := gm_set (sr_recent (sy_src y)) label now\<rparr>)\<lparr>sr_recent := rc\<rparr>"
    using odBoundRecent_keeps by blast
  then have f: "sr_pending s = Some (gm_set p label fl)" "sr_closed s = sr_closed (sy_src y)" "sr_next s = fl + 1"
    "sr_global s = snd (od_allow odGlobalRate odGlobalBurst now (sr_global (sy_src y)))" "sr_recent s = sr_recent ?s1"
    using e(7) by simp_all
  have "chan_ok (Some (gm_set p label fl)) (sr_closed (sy_src y)) (fl + 1) ((label, fl, True) # sy_wait y)"
    unfolding e(5) by (rule emit_chan [OF _ e(2,3)]) (use inv e(1) in \<open>simp add: sys_inv_def chan_inv_def\<close>)
  moreover have "hist_ok (sy_sent y @ [(label, now)]) (sr_recent ?s1) (sr_global s) now2"
    unfolding f(4) by (rule hist_emit [OF _ t e(6,4) refl]) (use inv in \<open>simp add: sys_inv_def\<close>)
  ultimately show ?thesis
    by (simp add: sys_inv_def chan_inv_def f)
qed

lemma resolve_end_fields:
  "sr_pending s = Some p \<Longrightarrow> sr_pending (resolve_end label fl ok s) = Some (if gm_get p label = Some fl then gm_del p label else p)"
  "sr_closed (resolve_end label fl ok s) = sr_closed s" "sr_next (resolve_end label fl ok s) = sr_next s"
  "sr_recent (resolve_end label fl ok s) = sr_recent s" "sr_global (resolve_end label fl ok s) = sr_global s"
  by (simp_all add: resolve_end_def Let_def split: option.splits)

lemma join_end_chan:
  assumes "chan_ok pend cl nxt ws"
  shows "chan_ok pend cl nxt (remove1 (label, fl, False) ws)"
proof -
  have "\<forall>(l, fl, e)\<in>set (remove1 (label, fl, False) ws). fl < nxt"
    using assms set_remove1_subset [of "(label, fl, False)" ws] unfolding chan_ok_def by blast
  then show ?thesis
    using assms by (cases pend) (auto simp: chan_ok_def emitters_remove)
qed

lemma src_step_inv: "src_step y y' \<Longrightarrow> sys_inv y \<Longrightarrow> sys_inv y'"
proof (induction rule: src_step.induct)
  case (packet y now pkt tr hosts evs changed s)
  then have "sys_inv (y\<lparr>sy_src := s, sy_clock := now\<rparr>)"
    by (intro sys_inv_same absorb_same_od)
  then show ?case
    by (simp add: sys_inv_def chan_inv_def)
next
  case (tick y now evs s)
  then have "sys_inv (y\<lparr>sy_src := s, sy_clock := now\<rparr>)"
    by (intro sys_inv_same run_expire_od)
  then show ?case
    by (simp add: sys_inv_def chan_inv_def)
next
  case (build y now as)
  then have "sys_inv (y\<lparr>sy_src := sy_src y, sy_clock := now\<rparr>)"
    by (intro sys_inv_same) simp_all
  then show ?case
    by (simp add: sys_inv_def chan_inv_def)
next
  case (act a as y s)
  then have "sys_inv (y\<lparr>sy_src := s\<rparr>)"
    by (intro sys_inv_act)
  then show ?case
    by (simp add: sys_inv_def chan_inv_def)
next
  case (poke y now qs s)
  then show ?case
    using sys_inv_same [OF _ Poke_od [OF poke(2)]] by simp
next
  case (call_return y now now2 label client s)
  have h: "hist_ok (sy_sent y) (sr_recent (sy_src y)) (sr_global (sy_src y)) now"
    using call_return hist_advance by (auto simp: sys_inv_def)
  then have "hist_ok (sy_sent y) (sr_recent s) (sr_global s) now2"
    using resolve_begin_return [OF call_return(3)] hist_denied [OF h] hist_advance [OF _ call_return(2)] by auto
  then show ?case
    using resolve_begin_return [OF call_return(3)] call_return(4) by (simp add: sys_inv_def chan_inv_def same_chan_def)
next
  case (call_join y now now2 label client fl s)
  then obtain p where p: "s = sy_src y" "sr_pending (sy_src y) = Some p" "gm_get p label = Some fl"
    using resolve_begin_join by blast
  have ok: "chan_ok (Some p) (sr_closed s) (sr_next s) (sy_wait y)"
    using call_join(4) p by (simp add: sys_inv_def chan_inv_def)
  then have "(label, fl, True) \<in> set (sy_wait y)"
    using map_of_SomeD [OF p(3)] emitters_wait by (auto simp: chan_ok_def)
  then have "chan_ok (Some p) (sr_closed s) (sr_next s) ((label, fl, False) # sy_wait y)"
    using ok by (auto simp: chan_ok_def emitters_Cons)
  then show ?case
    using call_join hist_advance [of "sy_sent y" _ _ "sy_clock y" now2] p by (simp add: sys_inv_def chan_inv_def)
next
  case (call_emit y now now2 label client fl s)
  then show ?case
    using sys_inv_emit by blast
next
  case (emitter_ends label fl y ok)
  then obtain p where p: "sr_pending (sy_src y) = Some p"
    by (cases "sr_pending (sy_src y)") (auto simp: sys_inv_def chan_inv_def chan_ok_def)
  then show ?case
    using emitter_ends end_chan [of p _ _ "sy_wait y" label fl]
    by (simp add: sys_inv_def chan_inv_def resolve_end_fields)
next
  case (joiner_ends label fl y ok)
  then have "chan_ok (sr_pending (sy_src y)) (sr_closed (sy_src y)) (sr_next (sy_src y)) (remove1 (label, fl, False) (sy_wait y))"
    by (simp add: sys_inv_def chan_inv_def join_end_chan)
  then show ?case
    using joiner_ends by (simp add: sys_inv_def chan_inv_def)
qed

text \<open>The source as the daemon builds and wires it; the last argument turns solicitation on.\<close>

definition start_source :: "time \<Rightarrow> duration \<Rightarrow> duration \<Rightarrow> duration \<Rightarrow> duration \<Rightarrow> int \<Rightarrow> duration option \<Rightarrow> source" where
  "start_source now stale goodbye every grace mx od =
     SetSender (NewSource now
       ([WithServeStale stale goodbye, WithServiceDiscovery every, WithTrustedStore grace mx] @
        (case od of None \<Rightarrow> [] | Some wait \<Rightarrow> [WithOnDemand wait])))"

lemma start_inv: "sys_inv (src_start (start_source t stale goodbye every grace mx od) t)"
proof -
  have w: "odg.window_ok [] new_bucket t"
    by (rule odg.window_new) (simp add: od_used_def new_bucket_def)
  show ?thesis
    using w by (cases od) (simp_all add: sys_inv_def src_start_def start_source_def SetSender_def NewSource_def publish_def WithServeStale_def
      WithServiceDiscovery_def WithTrustedStore_def WithOnDemand_def Let_def chan_inv_def chan_ok_def hist_ok_def
      spaced_def emitters_def gm_ok_def)
qed

lemma reachable_inv:
  assumes "src_step\<^sup>*\<^sup>* (src_start (start_source t stale goodbye every grace mx od) t) y"
  shows "sys_inv y"
  using assms by (induction rule: rtranclp_induct) (auto simp: start_inv intro: src_step_inv)

text \<open>
  C7. Solicitation is limited whatever clients and the network do: in every
  interleaving of callers, packets, expiry and time-outs, at most 64 solicitations are
  under way; one name is solicited at most once in ten seconds; up to now, since any
  earlier time, at most 20 plus ten per second were sent; and the table that remembers
  the names has at most 4096 entries, so the reset of that table, which would forget
  the suppression, never happens.
\<close>

theorem solicitation_limits:
  assumes "src_step\<^sup>*\<^sup>* (src_start (start_source t stale goodbye every grace mx od) t) y"
  shows "(\<forall>p. sr_pending (sy_src y) = Some p \<longrightarrow> length p \<le> odInflightCap) \<and> spaced (sy_sent y) \<and>
    (\<forall>t1. t1 \<le> sy_clock y \<longrightarrow> of_nat (spent (map snd (sy_sent y)) t1) \<le> (20 + of_int (sy_clock y - t1) / 100000000 :: rat)) \<and>
    length (sr_recent (sy_src y)) \<le> odTableCap"
proof -
  have inv: "chan_inv y" "odg.window_ok (map snd (sy_sent y)) (sr_global (sy_src y)) (sy_clock y)" "spaced (sy_sent y)"
    "length (sr_recent (sy_src y)) \<le> odTableCap"
    using reachable_inv [OF assms] by (simp_all add: sys_inv_def hist_ok_def)
  then show ?thesis
    using odg.window_bound [OF inv(2)] by (auto simp: chan_inv_def chan_ok_def)
qed

text \<open>
  C29. Waking callers is safe: in every reachable state, with any number of packets
  half handled, each action that is still to be done, and the handling of any further
  packet, closes no channel twice (which would stop the process); every solicitation
  under way has the caller that will end it, and so when nobody waits none is left.
\<close>

theorem solicitation_no_panic:
  assumes "src_step\<^sup>*\<^sup>* (src_start (start_source t stale goodbye every grace mx od) t) y"
  shows "HandlePacket pkt tr now now2 (sy_src y) \<noteq> None \<and>
    (\<forall>a as. a # as \<in> set (sy_procs y) \<longrightarrow> perform now a (sy_src y) \<noteq> None) \<and>
    (\<forall>p label fl. sr_pending (sy_src y) = Some p \<and> gm_get p label = Some fl \<longrightarrow> (label, fl, True) \<in> set (sy_wait y))"
proof -
  have c: "chan_ok (sr_pending (sy_src y)) (sr_closed (sy_src y)) (sr_next (sy_src y)) (sy_wait y)"
    using reachable_inv [OF assms] by (simp add: sys_inv_def chan_inv_def)
  have "(label, fl, True) \<in> set (sy_wait y)" if "sr_pending (sy_src y) = Some p" "gm_get p label = Some fl" for p label fl
    using c that map_of_SomeD [OF that(2)] emitters_wait by (auto simp: chan_ok_def)
  then show ?thesis
    using HandlePacket_chan [OF c, of pkt tr now now2] perform_chan [OF c] by fastforce
qed

definition demo_client :: addr where "demo_client = Addr4 0xc0a80105"
definition demo_client2 :: addr where "demo_client2 = Addr4 0xc0a80106"

definition demo_source :: source where
  "demo_source = start_source 0 0 0 0 0 0 (Some (400000000))"

text \<open>One caller asks for a name that nobody announced.\<close>

definition demo_asked :: src_sys where
  "demo_asked = (src_start demo_source 0)\<lparr>sy_src := snd (resolve_begin second second ''nas'' demo_client demo_source),
     sy_clock := second, sy_wait := [(''nas'', 0, True)], sy_sent := [(''nas'', second)]\<rparr>"

lemma demo_asked_reachable: "src_step\<^sup>*\<^sup>* (src_start (start_source 0 0 0 0 0 0 (Some 400000000)) 0) demo_asked"
proof -
  have "fst (resolve_begin second second ''nas'' demo_client demo_source) = OD_Emit 0"
    by code_simp
  then have "resolve_begin second second ''nas'' demo_client (sy_src (src_start demo_source 0)) =
      (OD_Emit 0, snd (resolve_begin second second ''nas'' demo_client demo_source))"
    by (simp add: prod_eq_iff src_start_def)
  from src_step.call_emit [OF _ _ this] have "src_step (src_start demo_source 0) demo_asked"
    by (simp add: demo_asked_def src_start_def)
  then show ?thesis
    by (auto simp: demo_source_def [symmetric])
qed

theorem solicitation_limits_witness:
  "sy_sent demo_asked = [(''nas'', second)] \<and> spaced (sy_sent demo_asked) \<and> length (sr_recent (sy_src demo_asked)) \<le> odTableCap"
  using solicitation_limits [OF demo_asked_reachable] by (simp add: demo_asked_def)

definition demo_packet :: "string \<Rightarrow> nat \<Rightarrow> dns_msg option" where
  "demo_packet name ttl = Some (new_msg\<lparr>msg_response := True, msg_answer :=
     [\<lparr>dr_name = name, dr_type = TypeA, dr_class = 1, dr_ttl = ttl, dr_data = RD_A (Addr4 0xc0a8010a)\<rparr>]\<rparr>)"

theorem solicitation_no_panic_witness:
  "HandlePacket (demo_packet ''nas.local.'' 120) TrustNone (2 * second) (2 * second) (sy_src demo_asked) \<noteq> None \<and>
   (''nas'', 0, True) \<in> set (sy_wait demo_asked)"
  using solicitation_no_panic [OF demo_asked_reachable] by (simp add: demo_asked_def)

section \<open>A woken caller finds the host\<close>

definition landed :: "time \<Rightarrow> mcache \<Rightarrow> string \<Rightarrow> bool" where
  "landed until c h \<longleftrightarrow> (\<exists>e. gm_get (mc_hosts c) h = Some e \<and> until \<le> me_expiry e \<and> me_addrs e \<noteq> [])"

text \<open>The shortest life an announcement gives: a second, or the grace after a goodbye.\<close>

definition life :: "mcache \<Rightarrow> duration" where
  "life c = (if mc_goodbye_grace c > 0 then min second (mc_goodbye_grace c) else second)"

lemma applyTrusted_hosts: "mc_hosts (snd (applyTrustedLocked a now c)) = mc_hosts c"
  "mc_goodbye_grace (snd (applyTrustedLocked a now c)) = mc_goodbye_grace c"
  "mc_stale_grace (snd (applyTrustedLocked a now c)) = mc_stale_grace c"
  by (simp_all add: applyTrustedLocked_def evictOldestTrustedLocked_def Let_def split: option.splits)

lemma mc_apply_room:
  assumes ne: "an_host a \<noteq> []" "an_addrs a \<noteq> []" and room: "length (mc_hosts c) < maxHosts"
  obtains e where "mc_hosts (snd (snd (mc_apply a now tr c))) = gm_set (mc_hosts c) (an_host a) e"
    "now + life c \<le> me_expiry e \<or> mc_stale_grace c < 0" "me_addrs e \<noteq> []"
    "mc_goodbye_grace (snd (snd (mc_apply a now tr c))) = mc_goodbye_grace c"
    "mc_stale_grace (snd (snd (mc_apply a now tr c))) = mc_stale_grace c"
proof (rule mc_apply_cases [OF ne, of c now tr])
  fix e0 known v c1 ch1 as e
  assume b: "apply_base a c = (e0, known, v, c1)" "diffLocked (refresh_entry a now known c1 e0) = (ch1, as, e)"
    "snd (snd (mc_apply a now tr c)) = (let c2 = c1\<lparr>mc_hosts := gm_set (mc_hosts c1) (an_host a) e\<rparr> in
       if isStrong tr then snd (applyTrustedLocked a now c2) else c2)"
  have c1: "c1 = c"
    using b(1) room by (auto simp: apply_base_def split: option.splits)
  have "me_expiry e = me_expiry (refresh_entry a now known c e0)" "me_addrs e = me_addrs (refresh_entry a now known c e0)"
    using b(2) c1 by (auto simp: diffLocked_def Let_def split: if_splits)
  moreover have "now + life c \<le> me_expiry (refresh_entry a now known c e0) \<or> mc_stale_grace c < 0"
    by (auto simp: refresh_entry_def life_def Let_def)
  moreover have "me_addrs (refresh_entry a now known c e0) \<noteq> []"
    using ne(2) by (simp add: refresh_entry_def Let_def add_addrs_nonempty)
  ultimately show ?thesis
    using that [of e] b(3) c1 by (simp add: Let_def applyTrusted_hosts)
qed

lemma apply_announcements_landed:
  assumes "\<forall>a\<in>set as. an_host a \<noteq> [] \<and> an_addrs a \<noteq> []" "length (mc_hosts c) + length as \<le> maxHosts"
    "0 \<le> mc_stale_grace c" "mc_inv c" "apply_announcements now tr as c = (hosts, evs, c')"
    "\<forall>h\<in>set hs. landed (now + life c) c h"
  shows "(\<forall>h\<in>set hs \<union> set hosts. landed (now + life c) c' h) \<and> mc_inv c'"
  using assms
proof (induction as arbitrary: c hosts evs hs)
  case (Cons a as)
  obtain ch ev c1 where a: "mc_apply a now tr c = (ch, ev, c1)"
    by (metis prod_cases3)
  obtain hosts2 ev2 where r: "apply_announcements now tr as c1 = (hosts2, ev2, c')" "hosts = (if ch then [an_host a] else []) @ hosts2"
    using Cons.prems(5) a by (auto split: prod.splits)
  have c1: "c1 = snd (snd (mc_apply a now tr c))"
    using a by simp
  obtain e where e: "mc_hosts c1 = gm_set (mc_hosts c) (an_host a) e" "now + life c \<le> me_expiry e" "me_addrs e \<noteq> []"
    "mc_goodbye_grace c1 = mc_goodbye_grace c" "mc_stale_grace c1 = mc_stale_grace c"
    using mc_apply_room [of a c now tr] Cons.prems(1-3) unfolding c1 by force
  have life: "life c1 = life c"
    by (simp add: life_def e)
  have "length (mc_hosts c1) \<le> Suc (length (mc_hosts c))"
    using Cons.prems(4) by (simp add: e gm_size_set mc_inv_def)
  then have len: "length (mc_hosts c1) + length as \<le> maxHosts"
    using Cons.prems(2) by simp
  have inv: "mc_inv c1"
    using mc_step_inv [OF Cons.prems(4), of "MApply a now tr"] by (simp add: c1)
  have "\<forall>h\<in>set (an_host a # hs). landed (now + life c1) c1 h"
    using Cons.prems(6) e life by (auto simp: landed_def update_conv')
  then have "(\<forall>h\<in>set (an_host a # hs) \<union> set hosts2. landed (now + life c1) c' h) \<and> mc_inv c'"
    using Cons.prems(1,3) e(5) by (intro Cons.IH [OF _ len _ inv r(1)]) simp_all
  then show ?case
    using r(2) life by auto
qed auto

lemma apply_services_landed:
  "apply_services svs c = (ch, c') \<Longrightarrow> mc_inv c \<Longrightarrow> mc_inv c' \<and> (landed u c h \<longrightarrow> landed u c' h)"
proof (induction svs arbitrary: c ch)
  case (Cons sv svs)
  let ?c1 = "snd (ApplyService (svc_host sv) (svc_type sv) (svc_port sv) (svc_text sv) c)"
  let ?c2 = "snd (ApplyInfo (svc_host sv) (svc_desc sv) ?c1)"
  have "mc_inv ?c1"
    using mc_step_inv [OF Cons.prems(2), of "MService (svc_host sv) (svc_type sv) (svc_port sv) (svc_text sv)"] by simp
  then have "mc_inv ?c2"
    using mc_step_inv [of ?c1 "MInfo (svc_host sv) (svc_desc sv)"] by simp
  moreover have "landed u c h \<longrightarrow> landed u ?c1 h" "landed u ?c1 h \<longrightarrow> landed u ?c2 h"
    by (auto simp: ApplyService_def ApplyInfo_def landed_def update_conv' split: option.splits)
  moreover obtain ch3 where "apply_services svs ?c2 = (ch3, c')"
    using Cons.prems(1) by (auto simp: case_prod_unfold Let_def prod_eq_iff)
  ultimately show ?case
    using Cons.IH by blast
qed simp

lemma landed_visible:
  assumes "landed u c h" "now \<le> u" "mc_inv c"
  shows "gm_list (v_forward (mc_view now c)) h \<noteq> []"
proof -
  obtain e a where e: "gm_get (mc_hosts c) h = Some e" "u \<le> me_expiry e" "a \<in> set (me_addrs e)"
    using assms(1) by (auto simp: landed_def) (metis list.set_intros(1) neq_Nil_conv)
  have l: "live_entry now c h = Some e"
    using e assms(2) by (auto simp: live_entry_def)
  have v: "gm_list (v_forward (mc_view now c)) h = host_rrs now c h"
    using assms(3) by (intro view_forward) (simp_all add: mc_inv_def)
  show ?thesis
  proof (cases "a \<in> set (trustedAddrsLocked h now c)")
    case True
    then have "sort (trustedAddrsLocked h now c) \<noteq> []"
      by (metis empty_iff list.set(1) set_sort)
    then show ?thesis
      unfolding v by (simp add: host_rrs_def Let_def)
  next
    case False
    then have "filter (\<lambda>a. a \<notin> set (trustedAddrsLocked h now c)) (sort (me_addrs e)) \<noteq> []"
      using e(3) by (metis (mono_tags, lifting) filter_empty_conv set_sort)
    then show ?thesis
      unfolding v by (simp add: host_rrs_def Let_def l)
  qed
qed

lemma complete_loop_closes:
  "complete_loop hs p cl = Some (p', cl') \<Longrightarrow> fl \<in> set cl' \<Longrightarrow> fl \<in> set cl \<or> (\<exists>h\<in>set hs. gm_get p h = Some fl)"
proof (induction hs arbitrary: p cl)
  case (Cons h hs)
  show ?case
  proof (cases "gm_get p h")
    case None
    then show ?thesis using Cons by auto
  next
    case (Some f)
    then have "complete_loop hs (gm_del p h) (f # cl) = Some (p', cl')"
      using Cons.prems(1) by (auto split: if_splits)
    then show ?thesis
      using Cons.IH [of "gm_del p h" "f # cl"] Cons.prems(2) Some by (auto simp: delete_conv' split: if_splits)
  qed
qed auto

lemma learn_cache: "sr_cache (fold addInstance xs (fold addType ys s)) = sr_cache s"
proof -
  have "sr_cache (fold addInstance xs s) = sr_cache s" for s
    by (induction xs arbitrary: s) (simp_all add: addInstance_def)
  moreover have "sr_cache (fold addType ys s) = sr_cache s"
    by (induction ys arbitrary: s) (simp_all add: addType_def)
  ultimately show ?thesis by simp
qed

lemma absorb_landed:
  assumes "absorb pkt tr now s = (hosts, evs, ch, s1)" "mc_inv (sr_cache s)" "0 \<le> mc_stale_grace (sr_cache s)"
    "length (mc_hosts (sr_cache s)) + length (ParsePacket pkt) \<le> maxHosts"
  shows "mc_inv (sr_cache s1) \<and> (\<forall>h\<in>set hosts. landed (now + life (sr_cache s)) (sr_cache s1) h)"
proof -
  obtain hs1 ev1 c1 where ann: "apply_announcements now tr (ParsePacket pkt) (sr_cache s) = (hs1, ev1, c1)"
    by (metis prod_cases3)
  obtain chs c2 where svc: "apply_services (ParseServices pkt) c1 = (chs, c2)"
    by (metis surj_pair)
  have h: "hosts = hs1" and s1: "sr_cache s1 = c2"
    using assms(1) ann svc learn_cache by (auto simp: absorb_def Let_def)
  have pk: "\<forall>a\<in>set (ParsePacket pkt). an_host a \<noteq> [] \<and> an_addrs a \<noteq> []"
    using parsed_ok by (auto simp: an_ok_def)
  have land: "mc_inv c1" "\<forall>h\<in>set hosts. landed (now + life (sr_cache s)) c1 h"
    using apply_announcements_landed [OF pk assms(4,3,2) ann, of "[]"] h by auto
  then show ?thesis
    using apply_services_landed [OF svc land(1)] s1 by blast
qed

text \<open>
  C30. A caller is woken only when the host can be answered: in every state that
  the handling of a packet goes through, seen between any two of its actions, if the
  channel of a solicitation has been closed by the packet, then the view stored in that
  same state has an address for the name that was solicited, so the view is always
  stored before the callers are woken.  (The view is published within the shortest life
  of an announcement, the packet does not overflow the table of hosts, and no other
  goroutine stores a view in between.)
\<close>

theorem woken_caller_sees_host:
  assumes "mc_inv (sr_cache s)" "0 \<le> mc_stale_grace (sr_cache s)" "now2 \<le> now + life (sr_cache s)"
    "length (mc_hosts (sr_cache s)) + length (ParsePacket pkt) \<le> maxHosts"
    "sr_pending s = Some p" "packet_states pkt tr now now2 s = Some (evs, ss)" "s' \<in> set ss"
    "fl \<in> set (sr_closed s')" "fl \<notin> set (sr_closed s)"
  shows "\<exists>label. gm_get p label = Some fl \<and> gm_list (v_forward (sr_view s')) label \<noteq> []"
proof -
  obtain hosts ev ch s1 where a: "absorb pkt tr now s = (hosts, ev, ch, s1)"
    by (metis prod_cases4)
  have same: "same_od s s1" "same_od s (publish now2 s1)"
    using absorb_same_od [OF a] same_od_trans same_od_simple(3) by blast+
  then have "fl \<notin> set (sr_closed s1)" "fl \<notin> set (sr_closed (publish now2 s1))"
    using assms(9) by (simp_all add: same_od_def)
  then have done': "completeInflight hosts (publish now2 s1) = Some s'"
    using assms(6-8) a by (auto simp: packet_states_eq split: if_splits)
  then obtain p' cl' where cl: "complete_loop hosts p (sr_closed s) = Some (p', cl')"
      "s' = (publish now2 s1)\<lparr>sr_pending := Some p', sr_closed := cl'\<rparr>"
    using same assms(5,8,9) by (cases "hosts = []") (auto simp: completeInflight_def same_od_def split: option.splits)
  then obtain label where l: "label \<in> set hosts" "gm_get p label = Some fl"
    using complete_loop_closes [OF cl(1)] assms(8,9) by auto
  have "landed (now + life (sr_cache s)) (sr_cache s1) label" "mc_inv (sr_cache s1)"
    using absorb_landed [OF a assms(1,2,4)] l(1) by blast+
  then have "gm_list (v_forward (mc_view now2 (sr_cache s1))) label \<noteq> []"
    using landed_visible assms(3) by blast
  then show ?thesis
    using l(2) cl(2) by (auto simp: publish_def)
qed

definition demo_states :: "change list \<times> source list" where
  "demo_states = the (packet_states (demo_packet ''nas.local.'' 120) TrustNone (2 * second) (2 * second) (sy_src demo_asked))"

theorem woken_caller_sees_host_witness:
  "map (\<lambda>s. (sr_closed s, map fst (v_forward (sr_view s)))) (snd demo_states) = [([], []), ([], [''nas'']), ([0], [''nas''])] \<and>
   (\<exists>label. gm_get [(''nas'', 0)] label = Some (0 :: nat) \<and> gm_list (v_forward (sr_view (last (snd demo_states)))) label \<noteq> [])"
proof -
  have e: "sr_cache (sy_src demo_asked) = NewCache \<and>
      length (ParsePacket (demo_packet ''nas.local.'' 120)) \<le> maxHosts \<and> sr_pending (sy_src demo_asked) = Some [(''nas'', 0)] \<and>
      packet_states (demo_packet ''nas.local.'' 120) TrustNone (2 * second) (2 * second) (sy_src demo_asked) \<noteq> None \<and>
      0 \<in> set (sr_closed (last (snd demo_states))) \<and> 0 \<notin> set (sr_closed (sy_src demo_asked))"
    by code_simp
  have m: "map (\<lambda>s. (sr_closed s, map fst (v_forward (sr_view s)))) (snd demo_states) = [([], []), ([], [''nas'']), ([0], [''nas''])]"
    by code_simp
  have "packet_states (demo_packet ''nas.local.'' 120) TrustNone (2 * second) (2 * second) (sy_src demo_asked) =
      Some (fst demo_states, snd demo_states)"
    using e by (auto simp: demo_states_def)
  moreover have "last (snd demo_states) \<in> set (snd demo_states)"
    using m by (intro last_in_set) auto
  ultimately show ?thesis
    using woken_caller_sees_host [of "sy_src demo_asked" "2 * second" "2 * second" "demo_packet ''nas.local.'' 120" "[(''nas'', 0)]"
        TrustNone "fst demo_states" "snd demo_states" "last (snd demo_states)" 0] e NewCache_inv m
    by (simp add: NewCache_def life_def)
qed

section \<open>Limits of the design\<close>

fun ask_all :: "(string \<times> addr) list \<Rightarrow> time \<Rightarrow> source \<Rightarrow> od_begin list" where
  "ask_all [] now s = []"
| "ask_all ((l, c) # qs) now s = (let (r, s') = resolve_begin now now l c s in r # ask_all qs now s')"

definition flood :: "nat \<Rightarrow> (string \<times> addr) list" where
  "flood n = map (\<lambda>i. (''h'' @ Itoa i, demo_client)) [0..<n]"

text \<open>
  One client can use up the budget of all: its calls beyond its own limit take
  tokens from the global bucket before its own bucket refuses them.  After twenty
  calls of one client, of which only the first ten are let through, another client that
  asks for the first time is refused.
\<close>

theorem client_flood_drains_global:
  "ask_all (flood 20 @ [(''nas'', demo_client2)]) 0 demo_source = map OD_Emit [0..<10] @ replicate 10 OD_Return @ [OD_Return]"
  by code_simp

text \<open>
  An answer can be ignored: a host whose entry has run out, but was not removed
  yet, announces the address it had before.  The announcement counts as no change, so
  the view is not published again and stays without the host, and a caller that
  waits for it is not woken.
\<close>

definition packets :: "(string \<times> nat \<times> time) list \<Rightarrow> source \<Rightarrow> source option" where
  "packets ps s = fold (\<lambda>(name, ttl, t) so. Option.bind so (\<lambda>s. map_option snd (HandlePacket (demo_packet name ttl) TrustNone t t s)))
     ps (Some s)"

theorem reannouncement_not_published:
  "map_option (\<lambda>s. (map fst (v_forward (sr_view s)), map fst (v_forward (mc_view (12 * second) (sr_cache s)))))
     (packets [(''nas.local.'', 10, 0), (''tv.local.'', 60, 11 * second), (''nas.local.'', 10, 12 * second)] demo_source) =
   Some ([''tv''], [''nas'', ''tv''])"
  by code_simp

text \<open>
  A stored view can be older than the one it replaces: the housekeeping turn builds
  its view before a packet arrives and stores it after the packet stored its own.  The
  caller is then woken although the stored view lacks the host.
\<close>

definition late_packet_source :: source where
  "late_packet_source = snd (snd (snd (absorb (demo_packet ''nas.local.'' 120) TrustNone (2 * second) (sy_src demo_asked))))"

definition late_store :: src_sys where
  "late_store = demo_asked\<lparr>
     sy_src := the (perform (2 * second) (WakeWaiters [''nas'']) (late_packet_source\<lparr>sr_view := mc_view (2 * second) NewCache\<rparr>)),
     sy_clock := 2 * second, sy_procs := [[], []]\<rparr>"

lemma late_store_reachable: "src_step\<^sup>*\<^sup>* (src_start (start_source 0 0 0 0 0 0 (Some 400000000)) 0) late_store"
proof -
  let ?old = "mc_view (2 * second) NewCache"
  let ?new = "mc_view (2 * second) (sr_cache late_packet_source)"
  let ?y = "\<lambda>s ps. \<lparr>sy_src = s, sy_clock = 2 * second, sy_wait = [(''nas'', 0, True)],
      sy_sent = [(''nas'', second)], sy_procs = ps\<rparr>"
  define y1 where "y1 = ?y (sy_src demo_asked) [[PublishView]]"
  define y2 where "y2 = ?y (sy_src demo_asked) [[StoreView ?old]]"
  define y3 where "y3 = ?y (late_packet_source) [[PublishView, WakeWaiters [''nas'']], [StoreView ?old]]"
  define y4 where "y4 = ?y (late_packet_source) [[StoreView ?new, WakeWaiters [''nas'']], [StoreView ?old]]"
  define y5 where "y5 = ?y (late_packet_source\<lparr>sr_view := ?new\<rparr>) [[WakeWaiters [''nas'']], [StoreView ?old]]"
  define y6 where "y6 = ?y (late_packet_source\<lparr>sr_view := ?old\<rparr>) [[], [WakeWaiters [''nas'']]]"
  have e: "run_expire (2 * second) (sy_src demo_asked) = ([], sy_src demo_asked) \<and> sr_cache (sy_src demo_asked) = NewCache \<and>
      sy_procs demo_asked = [] \<and> sy_clock demo_asked = second"
    by code_simp
  have a: "case absorb (demo_packet ''nas.local.'' 120) TrustNone (2 * second) (sy_src demo_asked) of
      (hosts, evs, ch, s) \<Rightarrow> hosts = [''nas''] \<and> evs = [] \<and> ch"
    by code_simp
  then have ab: "absorb (demo_packet ''nas.local.'' 120) TrustNone (2 * second) (sy_src demo_asked) =
      ([''nas''], [], True, late_packet_source)"
    by (auto simp: late_packet_source_def split: prod.splits)
  have w: "perform (2 * second) (WakeWaiters [''nas'']) (late_packet_source\<lparr>sr_view := ?old\<rparr>) \<noteq> None"
    by code_simp
  have "src_step demo_asked y1"
    using src_step.tick [of demo_asked "2 * second"] e by (simp add: y1_def demo_asked_def src_start_def)
  moreover have "src_step y1 y2"
    using src_step.build [of y1 "2 * second" "[]"] e by (simp add: y1_def y2_def)
  moreover have "src_step y2 (y2\<lparr>sy_src := late_packet_source, sy_clock := 2 * second,
      sy_procs := packet_actions [''nas''] True # sy_procs y2\<rparr>)"
    by (rule src_step.packet) (use ab in \<open>simp_all add: y2_def y1_def\<close>)
  then have "src_step y2 y3"
    by (simp add: packet_actions_def y3_def y2_def y1_def)
  moreover have "src_step y3 y4"
    using src_step.build [of y3 "2 * second" "[WakeWaiters [''nas'']]"] by (simp add: y4_def y3_def y2_def y1_def)
  moreover have "src_step y4 y5"
    using src_step.act [of "StoreView ?new" "[WakeWaiters [''nas'']]" y4] by (simp add: y5_def y4_def y3_def y2_def y1_def)
  moreover have "src_step y5 y6"
    using src_step.act [of "StoreView ?old" "[]" y5] by (simp add: y6_def y5_def y4_def y3_def y2_def y1_def)
  moreover have "src_step y6 late_store"
    using src_step.act [of "WakeWaiters [''nas'']" "[]" y6] w
    by (auto simp: late_store_def demo_asked_def src_start_def y6_def y5_def y4_def y3_def y2_def y1_def)
  ultimately have "src_step\<^sup>*\<^sup>* demo_asked late_store"
    by (meson converse_rtranclp_into_rtranclp rtranclp.rtrancl_refl)
  then show ?thesis
    using demo_asked_reachable by (meson rtranclp_trans)
qed

theorem late_store_hides_host:
  "src_step\<^sup>*\<^sup>* (src_start (start_source 0 0 0 0 0 0 (Some 400000000)) 0) late_store \<and>
   sr_closed (sy_src late_store) = [0] \<and> gm_list (v_forward (sr_view (sy_src late_store))) ''nas'' = [] \<and>
   map rr_content (gm_list (v_forward (mc_view (2 * second) (sr_cache (sy_src late_store)))) ''nas'') = [''192.168.1.10'']"
proof -
  have "sr_closed (sy_src late_store) = [0] \<and> gm_list (v_forward (sr_view (sy_src late_store))) ''nas'' = [] \<and>
   map rr_content (gm_list (v_forward (mc_view (2 * second) (sr_cache (sy_src late_store)))) ''nas'') = [''192.168.1.10'']"
    by code_simp
  then show ?thesis
    using late_store_reachable by blast
qed

end
