(* ===== verification/Revzone.thy ===== *)
theory Revzone
  imports Netmatch Zone
begin

text \<open>
  Package \<^verbatim>\<open>internal/revzone\<close>: the reverse zones of the locally managed prefixes
  (\<^verbatim>\<open>revzone.go\<close>) and the watcher that follows the prefixes of the host
  (\<^verbatim>\<open>watcher.go\<close>).

  The interfaces of the host are an argument.  An index out of range is the value None.
\<close>

section \<open>From a prefix to a reverse zone\<close>

datatype rz_error = NotOctetAligned | NotNibbleAligned | NeitherFamily | UnknownScope string | ListInterfaces

definition ZoneFor :: "net_prefix \<Rightarrow> (rz_error + string) option" where
  "ZoneFor p0 =
     (let p = Masked p0; bits = pfx_bits p in
      case Unmap (pfx_addr p) of
        Addr4 w \<Rightarrow>
          if bits mod 8 \<noteq> 0 then Some (Inl NotOctetAligned)
          else
            (let n = bits div 8; o4 = octets4 w in
             if n > length o4 then None
             else Some (Inr (Join (map (\<lambda>i. Itoa (o4 ! i)) (rev [0 ..< n]) @ [''in-addr'', ''arpa'']) ''.'' @ ''.'')))
      | Addr6 w z \<Rightarrow>
          if bits mod 4 \<noteq> 0 then Some (Inl NotNibbleAligned)
          else
            (let n = bits div 4; nib = nibbles6 w in
             if n > length nib then None
             else Some (Inr (Join (map (\<lambda>i. Hex (nib ! i)) (rev [0 ..< n]) @ [''ip6'', ''arpa'']) ''.'' @ ''.'')))
      | AddrNone \<Rightarrow> Some (Inl NeitherFamily))"

fun derive_loop :: "net_prefix list \<Rightarrow> string list \<Rightarrow> net_prefix list \<Rightarrow> (string list \<times> net_prefix list) option" where
  "derive_loop [] zones unaligned = Some (zones, unaligned)"
| "derive_loop (p0 # ps) zones unaligned =
     (let p = Masked p0 in
      case ZoneFor p of
        None \<Rightarrow> None
      | Some (Inl err) \<Rightarrow> derive_loop ps zones (unaligned @ [p])
      | Some (Inr z) \<Rightarrow> derive_loop ps (if z \<in> set zones then zones else zones @ [z]) unaligned)"

definition Derive :: "net_prefix list \<Rightarrow> (string list \<times> net_prefix list) option" where
  "Derive ps = map_option (\<lambda>(zones, unaligned). (sort zones, unaligned)) (derive_loop ps [] [])"

definition rev_contains :: "string \<Rightarrow> string \<Rightarrow> bool" where
  "rev_contains parent child = (if parent = child then True else HasSuffix child (''.'' @ parent))"

section \<open>Detecting prefixes\<close>

abbreviation (input) ScopeOff :: string where "ScopeOff \<equiv> ''off''"
abbreviation (input) ScopePrivate :: string where "ScopePrivate \<equiv> ''private''"
abbreviation (input) ScopeGlobal :: string where "ScopeGlobal \<equiv> ''global''"
abbreviation (input) ScopeAll :: string where "ScopeAll \<equiv> ''all''"

definition ValidScope :: "string \<Rightarrow> bool" where
  "ValidScope s \<longleftrightarrow> s \<in> set [ScopeOff, ScopePrivate, ScopeGlobal, ScopeAll]"

text \<open>An address of an interface: the bytes of a \<open>net.IPNet\<close> and the ones of its mask, or another kind.\<close>

datatype sys_addr = SysIPNet "nat list" nat | SysOther

record sys_iface =
  sif_up :: bool
  sif_loopback :: bool
  sif_addrs :: "sys_addr list option"

definition PrefixFrom :: "addr \<Rightarrow> nat \<Rightarrow> net_prefix" where
  "PrefixFrom a n = (if IsValid a \<and> n \<le> BitLen a then Prefix (WithZone a []) n else Prefix AddrNone 0)"

definition PrefixString :: "net_prefix \<Rightarrow> string" where
  "PrefixString p = (if prefix_valid p then AddrString (pfx_addr p) @ ''/'' @ Itoa (pfx_bits p) else ''invalid Prefix'')"

fun linklocal_multicast_un :: "addr \<Rightarrow> bool" where
  "linklocal_multicast_un (Addr4 w) \<longleftrightarrow> drop_bit 8 w = 0xe00000"
| "linklocal_multicast_un (Addr6 w z) \<longleftrightarrow> drop_bit 112 w AND 0xff0f = 0xff02"
| "linklocal_multicast_un AddrNone \<longleftrightarrow> False"

definition IsLinkLocalMulticast :: "addr \<Rightarrow> bool" where
  "IsLinkLocalMulticast a = linklocal_multicast_un (Unmap a)"

definition scope_match :: "string \<Rightarrow> addr \<Rightarrow> bool" where
  "scope_match scope ip =
     (if scope = ScopePrivate then IsPrivate ip
      else if scope = ScopeGlobal then IsGlobalUnicast ip \<and> \<not> IsPrivate ip
      else if scope = ScopeAll then IsPrivate ip \<or> IsGlobalUnicast ip
      else False)"

definition managed_prefix :: "string \<Rightarrow> sys_addr \<Rightarrow> net_prefix option" where
  "managed_prefix scope a =
     (case a of
        SysOther \<Rightarrow> None
      | SysIPNet bs ones \<Rightarrow>
          (case AddrFromSlice bs of
             None \<Rightarrow> None
           | Some ip0 \<Rightarrow>
               (let ip = Unmap ip0 in
                if IsLoopback ip \<or> IsLinkLocalUnicast ip \<or> IsLinkLocalMulticast ip then None
                else if \<not> scope_match scope ip then None
                else Some (Masked (PrefixFrom ip ones)))))"

fun classify_loop :: "string \<Rightarrow> string list \<Rightarrow> sys_addr list \<Rightarrow> net_prefix list" where
  "classify_loop scope seen [] = []"
| "classify_loop scope seen (a # as) =
     (case managed_prefix scope a of
        None \<Rightarrow> classify_loop scope seen as
      | Some p \<Rightarrow>
          if PrefixString p \<in> set seen then classify_loop scope seen as
          else p # classify_loop scope (PrefixString p # seen) as)"

definition sortPrefixes :: "net_prefix list \<Rightarrow> net_prefix list" where
  "sortPrefixes ps = sort_key PrefixString ps"

definition classifyAndFilter :: "sys_addr list \<Rightarrow> string \<Rightarrow> net_prefix list" where
  "classifyAndFilter as scope = (if scope = ScopeOff then [] else sortPrefixes (classify_loop scope [] as))"

definition allInterfaceAddrs :: "sys_iface list option \<Rightarrow> sys_addr list option" where
  "allInterfaceAddrs ifs =
     map_option (\<lambda>is. concat (map (\<lambda>i. case sif_addrs i of None \<Rightarrow> [] | Some as \<Rightarrow> as)
        (filter (\<lambda>i. sif_up i \<and> \<not> sif_loopback i) is))) ifs"

definition DetectPrefixes :: "sys_iface list option \<Rightarrow> string \<Rightarrow> rz_error + net_prefix list" where
  "DetectPrefixes ifs scope =
     (if \<not> ValidScope scope then Inl (UnknownScope scope)
      else case allInterfaceAddrs ifs of
        None \<Rightarrow> Inl ListInterfaces
      | Some as \<Rightarrow> Inr (classifyAndFilter as scope))"

section \<open>The watcher\<close>

definition PrefixSetChanged :: "net_prefix list \<Rightarrow> net_prefix list \<Rightarrow> bool" where
  "PrefixSetChanged a b \<longleftrightarrow> length a \<noteq> length b \<or> (\<exists>i\<in>set [0 ..< length a]. a ! i \<noteq> b ! i)"

record rz_watch =
  wt_last :: "net_prefix list"
  wt_have :: bool

definition watch_start :: rz_watch where
  "watch_start = \<lparr>wt_last = [], wt_have = False\<rparr>"

text \<open>One check: the scan is an argument, the result is the set reported by \<open>onChange\<close>, if any.\<close>

definition watch_check :: "string + net_prefix list \<Rightarrow> rz_watch \<Rightarrow> net_prefix list option \<times> rz_watch" where
  "watch_check scan w =
     (case scan of
        Inl err \<Rightarrow> (None, w)
      | Inr cur0 \<Rightarrow>
          (let cur = sortPrefixes cur0 in
           if \<not> wt_have w \<or> PrefixSetChanged (wt_last w) cur
           then (Some cur, w\<lparr>wt_last := cur, wt_have := True\<rparr>)
           else (None, w)))"

section \<open>Labels and digits\<close>

text \<open>On dotted names made of labels, the label-wise suffix test is the suffix relation on the labels.\<close>

lemma Join_append: "xs \<noteq> [] \<Longrightarrow> ys \<noteq> [] \<Longrightarrow> Join (xs @ ys) sep = Join xs sep @ sep @ Join ys sep"
  by (induction xs) (auto simp: Join_Cons)

definition dotless :: "string list \<Rightarrow> bool" where
  "dotless ls \<longleftrightarrow> (\<forall>l\<in>set ls. CHR ''.'' \<notin> set l)"

abbreviation dotted :: "string list \<Rightarrow> string" where
  "dotted ls \<equiv> Join ls ''.'' @ ''.''"

lemma SplitByte_snoc: "SplitByte c (a @ c # b) = SplitByte c a @ SplitByte c b"
  by (induction a) (auto split: list.splits)

lemma dotted_split:
  assumes "ls \<noteq> []" "dotless ls"
  shows "SplitByte (CHR ''.'') (dotted ls) = ls @ [[]]"
  using SplitByte_snoc [of "CHR ''.''" "Join ls ''.''" "[]"] SplitByte_Join [OF assms(1), of "CHR ''.''"] assms(2)
  by (simp add: dotless_def)

lemma isSuffixLabel_dotted:
  assumes "ls \<noteq> []" "zs \<noteq> []" "dotless ls" "dotless zs"
  shows "isSuffixLabel (dotted ls) (dotted zs) \<longleftrightarrow> suffix zs ls"
proof
  assume s: "isSuffixLabel (dotted ls) (dotted zs)"
  show "suffix zs ls"
  proof (cases "dotted ls = dotted zs")
    case True
    then show ?thesis
      using dotted_split assms by (metis append_same_eq suffix_order.refl)
  next
    case False
    then obtain p where p: "dotted ls = p @ CHR ''.'' # dotted zs"
      using s by (auto simp: isSuffixLabel_def HasSuffix_def suffix_def)
    then have "ls @ [[]] = SplitByte (CHR ''.'') p @ zs @ [[]]"
      using dotted_split [OF assms(1,3)] dotted_split [OF assms(2,4)] SplitByte_snoc by metis
    then show ?thesis
      by (metis append.assoc append_same_eq suffixI)
  qed
next
  assume "suffix zs ls"
  then obtain ps where "ls = ps @ zs"
    by (auto simp: suffix_def)
  then show "isSuffixLabel (dotted ls) (dotted zs)"
    using assms(2) by (cases "ps = []") (simp_all add: isSuffixLabel_def HasSuffix_def Join_append suffix_def)
qed

text \<open>Two numbers with the same leading digits agree above them.\<close>

lemma leading_digits:
  fixes x y B :: nat
  assumes "0 < B" "n \<le> N" "x < B ^ N" "y < B ^ N"
  shows "(\<forall>i<n. x div B ^ (N - 1 - i) mod B = y div B ^ (N - 1 - i) mod B) \<longleftrightarrow> x div B ^ (N - n) = y div B ^ (N - n)"
  using assms(2)
proof (induction n)
  case 0
  then show ?case
    using assms by simp
next
  case (Suc n)
  let ?k = "N - Suc n"
  have k: "N - n = Suc ?k" "N - 1 - n = ?k"
    using Suc.prems by simp_all
  have d: "z div B ^ Suc ?k = z div B ^ ?k div B" for z
    by (metis div_mult2_eq power_Suc2)
  have e: "x div B ^ ?k = y div B ^ ?k \<longleftrightarrow>
      x div B ^ Suc ?k = y div B ^ Suc ?k \<and> x div B ^ ?k mod B = y div B ^ ?k mod B"
    unfolding d by (metis div_mult_mod_eq)
  have "(\<forall>i<Suc n. x div B ^ (N - 1 - i) mod B = y div B ^ (N - 1 - i) mod B) \<longleftrightarrow>
      (\<forall>i<n. x div B ^ (N - 1 - i) mod B = y div B ^ (N - 1 - i) mod B) \<and> x div B ^ ?k mod B = y div B ^ ?k mod B"
    unfolding All_less_Suc k(2) by blast
  also have "\<dots> \<longleftrightarrow> x div B ^ Suc ?k = y div B ^ Suc ?k \<and> x div B ^ ?k mod B = y div B ^ ?k mod B"
    using Suc.IH [OF Suc_leD [OF Suc.prems], unfolded k(1)] by (simp only:)
  finally show ?case
    unfolding e .
qed

lemma octet_digit: "i < 4 \<Longrightarrow> octets4 w ! i = unat w div 256 ^ (3 - i) mod 256"
proof -
  assume "i < 4"
  then consider "i = 0" | "i = 1" | "i = 2" | "i = 3"
    by linarith
  then show ?thesis
    by cases (simp_all add: octets4_def unat_drop_bit_eq drop_bit_eq_div [where 'a = nat])
qed

lemma nibble_digit: "i < 32 \<Longrightarrow> nibbles6 w ! i = unat w div 16 ^ (31 - i) mod 16"
proof -
  assume i: "i < 32"
  have "nibbles6 w ! i = unat (take_bit 4 (drop_bit (4 * (31 - i)) w))"
    using i by (simp add: nibbles6_def rev_nth)
  also have "\<dots> = unat w div 2 ^ (4 * (31 - i)) mod 2 ^ 4"
    by (simp add: unsigned_take_bit_eq unat_drop_bit_eq take_bit_eq_mod [where 'a = nat] drop_bit_eq_div [where 'a = nat])
  finally show ?thesis
    by (simp add: power_mult)
qed

lemma digits_length [simp]: "length (octets4 w) = 4" "length (nibbles6 v) = 32"
  by (simp_all add: octets4_def nibbles6_def)

text \<open>Reversed labels of the leading digits are a suffix of the reversed labels of all digits.\<close>

lemma digits_suffix:
  assumes "length a = N" "length b = N" "n \<le> N" "\<And>i j. i < N \<Longrightarrow> j < N \<Longrightarrow> f (a ! i) = f (b ! j) \<Longrightarrow> a ! i = b ! j"
  shows "suffix (map (\<lambda>i. f (b ! i)) (rev [0 ..< n]) @ t) (rev (map f a) @ t) \<longleftrightarrow> (\<forall>i<n. a ! i = b ! i)"
proof -
  have r: "map (\<lambda>i. f (b ! i)) (rev [0 ..< n]) = rev (map (\<lambda>i. f (b ! i)) [0 ..< n])"
    by (simp add: rev_map)
  have "suffix (map (\<lambda>i. f (b ! i)) (rev [0 ..< n]) @ t) (rev (map f a) @ t) \<longleftrightarrow>
      prefix (map (\<lambda>i. f (b ! i)) [0 ..< n]) (map f a)"
    unfolding r by (simp add: suffix_to_prefix)
  also have "\<dots> \<longleftrightarrow> (\<forall>i<n. f (a ! i) = f (b ! i))"
    using assms(1,3) by (auto simp: prefix_def list_eq_iff_nth_eq nth_append intro!: exI [of _ "drop n (map f a)"])
  also have "\<dots> \<longleftrightarrow> (\<forall>i<n. a ! i = b ! i)"
    using assms by fastforce
  finally show ?thesis .
qed

lemma labels_dotted:
  "ys \<noteq> [] \<Longrightarrow> concat (map (\<lambda>b. f b @ ''.'') xs) @ dotted ys = dotted (map f xs @ ys)"
  by (induction xs) (auto simp: Join_Cons)

definition labels4 :: "32 word \<Rightarrow> string list" where
  "labels4 w = rev (map Itoa (octets4 w)) @ [''in-addr'', ''arpa'']"

definition labels6 :: "128 word \<Rightarrow> string list" where
  "labels6 w = rev (map Hex (nibbles6 w)) @ [''ip6'', ''arpa'']"

lemma Hex_digit: "d < 16 \<Longrightarrow> Hex d = [hex_digit d]"
  by (simp add: Hex.simps)

lemma nibbles_small: "d \<in> set (nibbles6 w) \<Longrightarrow> d < 16"
  by (auto simp: in_set_conv_nth nibble_digit)

lemma name4: "rev_octets w @ ''in-addr.arpa.'' = dotted (labels4 w)"
  using labels_dotted [of "[''in-addr'', ''arpa'']" Itoa "rev (octets4 w)"]
  by (simp add: rev_octets_def labels4_def rev_map)

lemma name6: "rev_nibbles w @ ''ip6.arpa.'' = dotted (labels6 w)"
proof -
  have "concat (map (\<lambda>n. [hex_digit n, CHR ''.'']) (rev (nibbles6 w))) = concat (map (\<lambda>b. Hex b @ ''.'') (rev (nibbles6 w)))"
    by (intro arg_cong [where f = concat] map_cong refl) (simp add: Hex_digit nibbles_small)
  then show ?thesis
    using labels_dotted [of "[''ip6'', ''arpa'']" Hex "rev (nibbles6 w)"]
    by (simp add: rev_nibbles_def labels6_def rev_map)
qed

lemma Itoa_dotless: "CHR ''.'' \<notin> set (Itoa n)"
  using Itoa_digits [of "CHR ''.''" n] by (auto simp: is_digit_def)

lemma hex_digit_dotless: "d < 16 \<Longrightarrow> hex_digit d \<noteq> CHR ''.''"
  by (auto simp: hex_digit_def char_of_eq_iff take_bit_eq_mod split: if_splits)

lemma labels_dotless: "dotless (labels4 w)" "dotless (labels6 v)"
proof -
  show "dotless (labels4 w)"
    by (auto simp: dotless_def labels4_def Itoa_dotless)
  have "CHR ''.'' \<notin> set (Hex d)" if "d \<in> set (nibbles6 v)" for d
    using hex_digit_dotless [of d] nibbles_small [OF that] by (auto simp: Hex_digit)
  then show "dotless (labels6 v)"
    by (auto simp: dotless_def labels6_def)
qed

lemma zone4_suffix:
  assumes "n \<le> 4"
  shows "isSuffixLabel (dotted (labels4 a)) (dotted (map (\<lambda>i. Itoa (octets4 p ! i)) (rev [0 ..< n]) @ [''in-addr'', ''arpa''])) \<longleftrightarrow>
    unat a div 2 ^ (32 - 8 * n) = unat p div 2 ^ (32 - 8 * n)"
proof -
  have "isSuffixLabel (dotted (labels4 a)) (dotted (map (\<lambda>i. Itoa (octets4 p ! i)) (rev [0 ..< n]) @ [''in-addr'', ''arpa''])) \<longleftrightarrow>
      suffix (map (\<lambda>i. Itoa (octets4 p ! i)) (rev [0 ..< n]) @ [''in-addr'', ''arpa'']) (labels4 a)"
    by (rule isSuffixLabel_dotted [OF _ _ labels_dotless(1)]) (auto simp: dotless_def Itoa_dotless labels4_def)
  also have "\<dots> \<longleftrightarrow> (\<forall>i<n. octets4 a ! i = octets4 p ! i)"
    unfolding labels4_def by (rule digits_suffix [where N = 4]) (use assms Itoa_inj in auto)
  also have "\<dots> \<longleftrightarrow> (\<forall>i<n. unat a div 256 ^ (4 - 1 - i) mod 256 = unat p div 256 ^ (4 - 1 - i) mod 256)"
    using assms by (auto simp: octet_digit)
  also have "\<dots> \<longleftrightarrow> unat a div 256 ^ (4 - n) = unat p div 256 ^ (4 - n)"
    by (rule leading_digits) (use assms unsigned_less [of a] unsigned_less [of p] in simp_all)
  finally show ?thesis
    by (simp add: power_mult [of 2 8, simplified] flip: diff_mult_distrib2 [of 8 4, simplified])
qed

lemma zone6_suffix:
  assumes "n \<le> 32"
  shows "isSuffixLabel (dotted (labels6 a)) (dotted (map (\<lambda>i. Hex (nibbles6 p ! i)) (rev [0 ..< n]) @ [''ip6'', ''arpa''])) \<longleftrightarrow>
    unat a div 2 ^ (128 - 4 * n) = unat p div 2 ^ (128 - 4 * n)"
proof -
  have h: "CHR ''.'' \<notin> set (Hex (nibbles6 w ! i))" "nibbles6 w ! i < 16" if "i < 32" for w i
    using hex_digit_dotless [of "nibbles6 w ! i"] that by (auto simp: Hex_digit nibble_digit)
  have "isSuffixLabel (dotted (labels6 a)) (dotted (map (\<lambda>i. Hex (nibbles6 p ! i)) (rev [0 ..< n]) @ [''ip6'', ''arpa''])) \<longleftrightarrow>
      suffix (map (\<lambda>i. Hex (nibbles6 p ! i)) (rev [0 ..< n]) @ [''ip6'', ''arpa'']) (labels6 a)"
    by (rule isSuffixLabel_dotted [OF _ _ labels_dotless(2)]) (use h(1) assms in \<open>auto simp: dotless_def labels6_def\<close>)
  also have "\<dots> \<longleftrightarrow> (\<forall>i<n. nibbles6 a ! i = nibbles6 p ! i)"
    unfolding labels6_def by (rule digits_suffix [where N = 32]) (use assms h(2) hex_digit_inj in \<open>auto simp: Hex_digit\<close>)
  also have "\<dots> \<longleftrightarrow> (\<forall>i<n. unat a div 16 ^ (32 - 1 - i) mod 16 = unat p div 16 ^ (32 - 1 - i) mod 16)"
    using assms by (auto simp: nibble_digit)
  also have "\<dots> \<longleftrightarrow> unat a div 16 ^ (32 - n) = unat p div 16 ^ (32 - n)"
    by (rule leading_digits) (use assms unsigned_less [of a] unsigned_less [of p] in simp_all)
  finally show ?thesis
    by (simp add: power_mult [of 2 4, simplified] flip: diff_mult_distrib2 [of 4 32, simplified])
qed

text \<open>A name under one reverse tree is never inside a zone of the other.\<close>

lemma other_tree:
  assumes "suffix (xs @ [t, ''arpa'']) (ys @ [t', ''arpa''])"
  shows "t = t'"
proof -
  obtain ps where "ys @ [t', ''arpa''] = ps @ xs @ [t, ''arpa'']"
    using assms by (auto simp: suffix_def)
  then have "last (butlast (ys @ [t', ''arpa''])) = last (butlast (ps @ xs @ [t, ''arpa'']))"
    by (rule arg_cong)
  then show ?thesis
    by (simp add: butlast_append)
qed

lemma Masked_div:
  "unat (w AND NOT (mask k)) div 2 ^ k = unat (w :: 'a :: len word) div 2 ^ k"
proof -
  have "drop_bit k (w AND NOT (mask k)) = drop_bit k w"
    by (rule bit_word_eqI) (auto simp: bit_simps dest: bit_imp_le_length)
  then show ?thesis
    using drop_bit_eq_iff_div by blast
qed

definition reverse_labels :: "addr \<Rightarrow> string list" where
  "reverse_labels a = (case a of Addr4 w \<Rightarrow> labels4 w | Addr6 w z \<Rightarrow> labels6 w | AddrNone \<Rightarrow> [])"

lemma reverse_name_labels: "IsValid a \<Longrightarrow> reverse_name a = Some (dotted (reverse_labels (Unmap a)))"
  by (cases "Unmap a") (auto simp: reverse_name_def reverse_labels_def name4 name6 IsValid_def split: addr.splits,
    metis IsValid_def Unmap_valid)

lemma mapped_bits: "drop_bit 32 (w AND mask6 m) = (0xffff :: 128 word) \<Longrightarrow> 96 \<le> m"
proof -
  assume "drop_bit 32 (w AND mask6 m) = (0xffff :: 128 word)"
  then have "bit (drop_bit 32 (w AND mask6 m)) 0"
    by simp
  then show "96 \<le> m"
    by (auto simp: bit_simps mask6_def)
qed

lemma ZoneFor_mapped:
  assumes "drop_bit 32 (w AND mask6 m) = 0xffff" "m mod 8 = 0"
  shows "ZoneFor (Prefix (Addr6 w zn) m) = None"
  using assms mapped_bits [OF assms(1)] by (auto simp: ZoneFor_def Let_def)

text \<open>The zone of a prefix holds the reverse names of the addresses of the prefix and no others.\<close>

lemma ZoneFor_exact:
  assumes p: "prefix_valid p" and z: "ZoneFor p = Some (Inr z)" and a: "IsValid a" "\<not> hasZone a"
  shows "isSuffixLabel (dotted (reverse_labels (Unmap a))) z \<longleftrightarrow> PrefixContains p (Unmap a)"
proof -
  have z4: "\<not> hasZone (Unmap a)"
    using a(2) by (cases a) auto
  have val: "Unmap a \<noteq> AddrNone"
    using a(1) by (metis IsValid_def Unmap_valid)
  show ?thesis
  proof (cases "pfx_addr p")
    case AddrNone
    then show ?thesis
      using p by (simp add: prefix_valid_def IsValid_def)
  next
    case (Addr4 w)
    then obtain m where m: "p = Prefix (Addr4 w) m" "m \<le> 32"
      using p by (cases p) (auto simp: prefix_valid_def)
    let ?w = "w AND NOT (mask (32 - m))"
    let ?ls = "map (\<lambda>i. Itoa (octets4 ?w ! i)) (rev [0 ..< m div 8]) @ [''in-addr'', ''arpa'']"
    have e: "z = dotted ?ls" "8 * (m div 8) = m"
      using z m by (auto simp: ZoneFor_def Let_def split: if_splits)
    show ?thesis
    proof (cases "Unmap a")
      case (Addr4 v)
      then show ?thesis
        using zone4_suffix [of "m div 8" v ?w] m e Masked_div [of w "32 - m"] unfolding m(1)
        by (simp add: reverse_labels_def PrefixContains4_div del: PrefixContains.simps)
    next
      case (Addr6 v zn)
      have "dotless ?ls"
        by (auto simp: dotless_def Itoa_dotless)
      then show ?thesis
        using Addr6 isSuffixLabel_dotted [OF _ _ labels_dotless(2) [of v], of ?ls] other_tree [of _ "''in-addr''" _ "''ip6''"] m e
        by (auto simp: reverse_labels_def labels6_def)
    qed (use val in simp)
  next
    case (Addr6 w zn)
    then obtain m where m: "p = Prefix (Addr6 w zn) m" "m \<le> 128"
      using p by (cases p) (auto simp: prefix_valid_def)
    let ?w = "w AND mask6 m"
    let ?ls = "map (\<lambda>i. Hex (nibbles6 ?w ! i)) (rev [0 ..< m div 4]) @ [''ip6'', ''arpa'']"
    have "drop_bit 32 ?w \<noteq> 0xffff"
      using ZoneFor_mapped [of w m zn] z m(1) by (auto simp: ZoneFor_def Let_def split: if_splits)
    then have e: "z = dotted ?ls" "4 * (m div 4) = m"
      using z m by (auto simp: ZoneFor_def Let_def split: if_splits)
    show ?thesis
    proof (cases "Unmap a")
      case (Addr6 v zv)
      then show ?thesis
        using zone6_suffix [of "m div 4" v ?w] m e Masked_div [of w "128 - m"] z4 unfolding m(1)
        by (simp add: reverse_labels_def PrefixContains6_div mask6_def del: PrefixContains.simps)
    next
      case (Addr4 v)
      have "CHR ''.'' \<notin> set (Hex (nibbles6 ?w ! i))" if "i < m div 4" for i
        using that m hex_digit_dotless [of "nibbles6 ?w ! i"] by (auto simp: Hex_digit nibble_digit)
      then have "dotless ?ls"
        by (auto simp: dotless_def)
      then show ?thesis
        using Addr4 isSuffixLabel_dotted [OF _ _ labels_dotless(1) [of v], of ?ls] other_tree [of _ "''ip6''" _ "''in-addr''"] m e
        by (auto simp: reverse_labels_def labels4_def)
    qed (use val in simp)
  qed
qed

section \<open>Derived zones\<close>

definition aligned :: "net_prefix \<Rightarrow> bool" where
  "aligned p = (case pfx_addr p of Addr4 w \<Rightarrow> pfx_bits p mod 8 = 0 | Addr6 w z \<Rightarrow> pfx_bits p mod 4 = 0 | AddrNone \<Rightarrow> False)"

text \<open>The prefixes detection yields: valid and not v4-mapped, or the zero prefix.\<close>

definition plain_prefix :: "net_prefix \<Rightarrow> bool" where
  "plain_prefix p \<longleftrightarrow> prefix_valid p \<and> \<not> Is4In6 (pfx_addr p) \<or> p = Prefix AddrNone 0"

lemma Masked_idem [simp]: "Masked (Masked p) = Masked p"
  by (cases p rule: Masked.cases) (simp_all add: and.assoc)

lemma ZoneFor_Masked [simp]: "ZoneFor (Masked p) = ZoneFor p"
  by (simp add: ZoneFor_def)

text \<open>The zones are those of the prefixes that have one.\<close>

lemma derive_loop_zones:
  "derive_loop ps zones un = Some (zs, un') \<Longrightarrow> set zs = set zones \<union> {z. \<exists>p\<in>set ps. ZoneFor p = Some (Inr z)}"
  by (induction ps zones un rule: derive_loop.induct) (auto simp: Let_def split: option.splits sum.splits if_splits)

lemma Derive_zones: "Derive ps = Some (zs, un) \<Longrightarrow> set zs = {z. \<exists>p\<in>set ps. ZoneFor p = Some (Inr z)}"
  using derive_loop_zones by (fastforce simp: Derive_def)

lemma masked_not_mapped: "drop_bit 32 w \<noteq> 0xffff \<Longrightarrow> drop_bit 32 (w AND mask6 m) \<noteq> (0xffff :: 128 word)"
proof
  assume w: "drop_bit 32 w \<noteq> 0xffff" and d: "drop_bit 32 (w AND mask6 m) = (0xffff :: 128 word)"
  have "drop_bit 32 (w AND mask6 m) = drop_bit 32 w"
    using mapped_bits [OF d] by (intro bit_word_eqI) (auto simp: bit_simps mask6_def dest: bit_imp_le_length)
  then show False
    using w d by simp
qed

lemma ZoneFor_plain:
  assumes "plain_prefix p"
  shows "if aligned p then \<exists>z. ZoneFor p = Some (Inr z) else \<exists>err. ZoneFor p = Some (Inl err)"
proof (cases p)
  case (Prefix a m)
  have "ZoneFor (Prefix a m) = Some (Inl NeitherFamily)" if "a = AddrNone"
    using that by (simp add: ZoneFor_def)
  then show ?thesis
    using assms Prefix masked_not_mapped
    by (cases a) (auto simp: plain_prefix_def aligned_def prefix_valid_def ZoneFor_def Let_def)
qed

lemma derive_loop_spec:
  assumes "\<forall>p\<in>set ps. plain_prefix p"
  shows "\<exists>zs'. derive_loop ps zs un = Some (zs', un @ map Masked (filter (\<lambda>p. \<not> aligned p) ps)) \<and>
    set zs' = set zs \<union> {z. \<exists>p\<in>set ps. ZoneFor p = Some (Inr z)} \<and> (distinct zs \<longrightarrow> distinct zs')"
  using assms
proof (induction ps arbitrary: zs un)
  case (Cons p ps)
  have p: "plain_prefix p" and ps: "\<forall>p\<in>set ps. plain_prefix p"
    using Cons.prems by simp_all
  show ?case
  proof (cases "aligned p")
    case True
    then obtain z where z: "ZoneFor p = Some (Inr z)"
      using ZoneFor_plain [OF p] by auto
    then show ?thesis
      using Cons.IH [OF ps, of "if z \<in> set zs then zs else zs @ [z]" un] True by (auto simp: Let_def)
  next
    case False
    then obtain err where z: "ZoneFor p = Some (Inl err)"
      using ZoneFor_plain [OF p] by auto
    then show ?thesis
      using Cons.IH [OF ps, of zs "un @ [Masked p]"] False by (auto simp: Let_def)
  qed
qed auto

text \<open>
  The reverse zones neither over- nor under-represent the managed address space.
  For the prefixes detection yields, the derivation ends without a failure; the refused
  prefixes are exactly those that are not aligned to a label boundary; and the reverse
  name of an address lies in one of the zones just when the address lies in one of the
  aligned prefixes.
\<close>

theorem Derive_exact:
  assumes "\<forall>p\<in>set ps. plain_prefix p"
  shows "\<exists>zones. Derive ps = Some (zones, map Masked (filter (\<lambda>p. \<not> aligned p) ps)) \<and> sorted zones \<and> distinct zones \<and>
    (\<forall>a. IsValid a \<and> \<not> hasZone a \<longrightarrow>
      (\<exists>n. reverse_name a = Some n \<and>
        ((\<exists>z\<in>set zones. isSuffixLabel n z) \<longleftrightarrow> (\<exists>p\<in>set ps. aligned p \<and> PrefixContains p (Unmap a)))))"
proof -
  obtain zs where zs: "derive_loop ps [] [] = Some (zs, map Masked (filter (\<lambda>p. \<not> aligned p) ps))"
    "set zs = {z. \<exists>p\<in>set ps. ZoneFor p = Some (Inr z)}" "distinct zs"
    using derive_loop_spec [OF assms, of "[]" "[]"] by auto
  have "(\<exists>z\<in>set (sort zs). isSuffixLabel (dotted (reverse_labels (Unmap a))) z) \<longleftrightarrow>
      (\<exists>p\<in>set ps. aligned p \<and> PrefixContains p (Unmap a))" if a: "IsValid a" "\<not> hasZone a" for a
  proof -
    have "isSuffixLabel (dotted (reverse_labels (Unmap a))) z \<longleftrightarrow> PrefixContains p (Unmap a)"
      if "p \<in> set ps" "ZoneFor p = Some (Inr z)" for p z
    proof (rule ZoneFor_exact [OF _ that(2) a])
      show "prefix_valid p"
        using assms that by (auto simp: plain_prefix_def ZoneFor_def)
    qed
    moreover have "aligned p \<longleftrightarrow> (\<exists>z. ZoneFor p = Some (Inr z))" if "p \<in> set ps" for p
      using ZoneFor_plain [of p] assms that by (auto split: if_splits)
    ultimately show ?thesis
      unfolding set_sort zs(2) by blast
  qed
  then show ?thesis
    using zs reverse_name_labels by (auto simp: Derive_def)
qed

lemma detected_plain:
  assumes "DetectPrefixes ifs scope = Inr ps" "p \<in> set ps"
  shows "plain_prefix p"
proof -
  have "plain_prefix q" if q: "managed_prefix scope a = Some q" for a q
  proof -
    obtain ip ones where ip: "q = Masked (PrefixFrom (Unmap ip) ones)"
      using q by (auto simp: managed_prefix_def Let_def split: sys_addr.splits option.splits if_splits)
    show ?thesis
    proof (cases "Unmap ip")
      case (Addr6 w z)
      then have "drop_bit 32 w \<noteq> 0xffff"
        using Unmap_not_4in6 [of ip] by simp
      then show ?thesis
        using ip Addr6 masked_not_mapped by (auto simp: PrefixFrom_def plain_prefix_def prefix_valid_def IsValid_def)
    qed (use ip in \<open>auto simp: PrefixFrom_def plain_prefix_def prefix_valid_def IsValid_def\<close>)
  qed
  moreover have "\<exists>a. managed_prefix scope a = Some q" if "q \<in> set (classify_loop scope seen as)" for q seen as
    using that by (induction as arbitrary: seen) (auto split: option.splits if_splits)
  ultimately have "plain_prefix q" if "q \<in> set (classify_loop scope seen as)" for q seen as
    using that by blast
  then show ?thesis
    using assms by (auto simp: DetectPrefixes_def classifyAndFilter_def sortPrefixes_def split: if_splits option.splits)
qed

section \<open>What the watcher reports\<close>

fun watch_run :: "(string + net_prefix list) list \<Rightarrow> rz_watch \<Rightarrow> net_prefix list list" where
  "watch_run [] w = []"
| "watch_run (s # ss) w = (let (ev, w') = watch_check s w in (case ev of None \<Rightarrow> [] | Some e \<Rightarrow> [e]) @ watch_run ss w')"

lemma PrefixSetChanged_iff: "PrefixSetChanged a b \<longleftrightarrow> a \<noteq> b"
proof -
  have "a = b" if "length a = length b" "\<forall>i\<in>set [0 ..< length a]. a ! i = b ! i"
    using that by (intro nth_equalityI) simp_all
  then show ?thesis
    unfolding PrefixSetChanged_def by blast
qed

definition scanned :: "(string + net_prefix list) list \<Rightarrow> net_prefix list list" where
  "scanned ss = List.map_filter (\<lambda>s. case s of Inl _ \<Rightarrow> None | Inr ps \<Rightarrow> Some (sortPrefixes ps)) ss"

lemma watch_run_have:
  "wt_have w \<Longrightarrow> wt_last w # watch_run ss w = remdups_adj (wt_last w # scanned ss)"
proof (induction ss arbitrary: w)
  case (Cons s ss)
  show ?case
  proof (cases s)
    case (Inl e)
    then show ?thesis
      using Cons by (simp add: watch_check_def scanned_def List.map_filter_simps)
  next
    case (Inr ps)
    then show ?thesis
      using Cons.IH [of "w\<lparr>wt_last := sortPrefixes ps, wt_have := True\<rparr>"] Cons.IH [of w] Cons.prems
      by (cases "wt_last w = sortPrefixes ps") (auto simp: watch_check_def scanned_def List.map_filter_simps PrefixSetChanged_iff Let_def)
  qed
qed (simp add: scanned_def List.map_filter_simps)

text \<open>
  The watcher reports the prefix sets of the successful scans, in order, each once per
  change: failed scans are skipped and a scan equal to the one before it is silent.
\<close>

theorem watcher_reports_changes: "watch_run ss watch_start = remdups_adj (scanned ss)"
proof (induction ss)
  case (Cons s ss)
  show ?case
  proof (cases s)
    case (Inl e)
    then show ?thesis
      using Cons by (simp add: watch_check_def scanned_def List.map_filter_simps)
  next
    case (Inr ps)
    then show ?thesis
      using watch_run_have [of "watch_start\<lparr>wt_last := sortPrefixes ps, wt_have := True\<rparr>" ss]
      by (simp add: watch_check_def scanned_def List.map_filter_simps watch_start_def Let_def)
  qed
qed (simp add: scanned_def List.map_filter_simps)

theorem Derive_exact_witness:
  "list_all plain_prefix [Prefix (Addr4 0xC0A80000) 16, Prefix (Addr4 0x0A000000) 9] \<and>
   (\<exists>zones. Derive [Prefix (Addr4 0xC0A80000) 16, Prefix (Addr4 0x0A000000) 9] = Some (zones, [Prefix (Addr4 0x0A000000) 9]) \<and>
      (\<exists>n. reverse_name (Addr4 0xC0A80105) = Some n \<and> (\<exists>z\<in>set zones. isSuffixLabel n z)))"
proof -
  let ?ps = "[Prefix (Addr4 0xC0A80000) 16, Prefix (Addr4 0x0A000000) 9]"
  have p: "\<forall>p\<in>set ?ps. plain_prefix p"
    by code_simp
  have m: "map Masked (filter (\<lambda>p. \<not> aligned p) ?ps) = [Prefix (Addr4 0x0A000000) 9]"
    by code_simp
  have a: "\<exists>p\<in>set ?ps. aligned p \<and> PrefixContains p (Unmap (Addr4 0xC0A80105))" "IsValid (Addr4 0xC0A80105)" "\<not> hasZone (Addr4 0xC0A80105)"
    by code_simp+
  show ?thesis
    using Derive_exact [OF p] p a unfolding m list_all_iff by blast
qed

text \<open>A v4-mapped prefix is taken for an IPv4 prefix and its length is not: the octets are indexed out of range.\<close>

theorem mapped_prefix_panics:
  "ZoneFor (Prefix (Addr6 0xffffc0a80000 []) 112) = None"
  by code_simp

end
