(* ===== verification/Config.thy ===== *)
theory Config
  imports Revzone
begin

text \<open>
  Package \<^verbatim>\<open>internal/config\<close>: the settings, their defaults and their validation.

  The environment is an argument: what reading a file gives, whether a pair of
  certificate files loads and until when its leaf is valid, which names the DNS library
  accepts as domain names, the group database, and the clock.  Decoding TOML over the
  defaults (go-toml) is an argument too.
\<close>

section \<open>Settings\<close>

record listen_config =
  lc_mode :: string
  lc_addresses :: "string list"
  lc_port :: int
  lc_udp :: bool
  lc_tcp :: bool

record access_config =
  axc_allow :: "string list"
  axc_refuse :: "string list"

record upstream_config =
  uc_servers :: "string list"
  uc_cleartext_fallback :: bool
  uc_breaker :: bool

record zones_config =
  zc_local :: "string list"
  zc_reverse :: "string list"
  zc_reverse_detect :: string
  zc_stub :: "(string, string list) gomap"

record mdns_config =
  mdc_local_domain :: string
  mdc_stale_grace :: string
  mdc_goodbye_grace :: string
  mdc_service_discovery :: bool
  mdc_resolve_on_demand :: bool
  mdc_resolve_on_demand_wait :: string
  mdc_serve_dnssd :: bool
  mdc_trusted_grace :: string
  mdc_max_trusted :: int

record vhost_config =
  vc_feed :: string
  vc_proxy_v4 :: string
  vc_proxy_v6 :: string
  vc_exclude_zones :: "string list"

record cf_config =
  cf_read_token_file :: string
  cf_edit_token_file :: string
  cf_base_url :: string
  cf_tunnel_suffixes :: "string list"

record tsig_key =
  tk_name :: string
  tk_secret :: string
  tk_secret_file :: string
  tk_algorithm :: string

record ddns_config =
  dn_enabled :: bool
  dn_dry_run :: bool
  dn_rate :: string
  dn_eligible :: "string list"
  dn_trusted_sources :: "string list"
  dn_require_signature :: bool
  dn_tsig_keys :: "tsig_key list"
  dn_notify_socket :: string
  dn_notify_uids :: "int list"
  dn_notify_groups :: "string list"
  dn_notify_socket_mode :: string

record notify_config =
  nc_servers :: "string list"
  nc_socket :: string
  nc_tsig_key :: string
  nc_tsig_secret :: string
  nc_tsig_secret_file :: string
  nc_tsig_algorithm :: string

record diag_config =
  dg_addr :: string
  dg_allow :: "string list"
  dg_socket_mode :: string
  dg_allow_control :: bool
  dg_control_password :: string
  dg_control_password_file :: string

record dot_config =
  dot_enabled :: bool
  dot_port :: int

record doh_config =
  doh_enabled :: bool
  doh_port :: int
  doh_path :: string

record encrypted_config =
  ec_enabled :: bool
  ec_cert_file :: string
  ec_key_file :: string
  ec_adn :: string
  ec_mode :: string
  ec_addresses :: "string list"
  ec_advertise_ddr :: bool
  ec_ipv4_hint :: "string list"
  ec_ipv6_hint :: "string list"
  ec_dot :: dot_config
  ec_doh :: doh_config

record cache_config =
  cc_dir :: string
  cc_answers :: bool
  cc_max_entries :: int
  cc_serve_stale :: bool

record config =
  cfg_listen :: listen_config
  cfg_access :: access_config
  cfg_upstream :: upstream_config
  cfg_zones :: zones_config
  cfg_mdns :: mdns_config
  cfg_vhost :: vhost_config
  cfg_cloudflare :: cf_config
  cfg_ddns :: ddns_config
  cfg_notify :: notify_config
  cfg_diag :: diag_config
  cfg_cache :: cache_config
  cfg_encrypted :: encrypted_config

definition Default :: config where
  "Default =
     \<lparr>cfg_listen = \<lparr>lc_mode = ''private-auto'', lc_addresses = [], lc_port = 53, lc_udp = True, lc_tcp = True\<rparr>,
      cfg_access = \<lparr>axc_allow = DefaultPrivateClients, axc_refuse = []\<rparr>,
      cfg_upstream = \<lparr>uc_servers = [''1.1.1.1'', ''8.8.8.8''], uc_cleartext_fallback = False, uc_breaker = True\<rparr>,
      cfg_zones = \<lparr>zc_local = [], zc_reverse = [], zc_reverse_detect = [], zc_stub = []\<rparr>,
      cfg_mdns = \<lparr>mdc_local_domain = ''lan'', mdc_stale_grace = ''30m'', mdc_goodbye_grace = ''5m'',
        mdc_service_discovery = True, mdc_resolve_on_demand = True, mdc_resolve_on_demand_wait = ''300ms'',
        mdc_serve_dnssd = True, mdc_trusted_grace = ''168h'', mdc_max_trusted = 1024\<rparr>,
      cfg_vhost = \<lparr>vc_feed = [], vc_proxy_v4 = [], vc_proxy_v6 = [], vc_exclude_zones = []\<rparr>,
      cfg_cloudflare = \<lparr>cf_read_token_file = ''/etc/splitdns/cloudflare-read.token'', cf_edit_token_file = [],
        cf_base_url = [], cf_tunnel_suffixes = []\<rparr>,
      cfg_ddns = \<lparr>dn_enabled = False, dn_dry_run = True, dn_rate = ''10m'', dn_eligible = [], dn_trusted_sources = [],
        dn_require_signature = False, dn_tsig_keys = [], dn_notify_socket = ''/run/splitdns/notify.sock'',
        dn_notify_uids = [], dn_notify_groups = [], dn_notify_socket_mode = []\<rparr>,
      cfg_notify = \<lparr>nc_servers = [], nc_socket = [], nc_tsig_key = [], nc_tsig_secret = [], nc_tsig_secret_file = [],
        nc_tsig_algorithm = []\<rparr>,
      cfg_diag = \<lparr>dg_addr = ''127.0.0.1:8080'', dg_allow = [], dg_socket_mode = [], dg_allow_control = False,
        dg_control_password = [], dg_control_password_file = []\<rparr>,
      cfg_cache = \<lparr>cc_dir = ''/var/lib/splitdns'', cc_answers = True, cc_max_entries = 10000, cc_serve_stale = True\<rparr>,
      cfg_encrypted = \<lparr>ec_enabled = False, ec_cert_file = [], ec_key_file = [], ec_adn = [], ec_mode = [],
        ec_addresses = [], ec_advertise_ddr = True, ec_ipv4_hint = [], ec_ipv6_hint = [],
        ec_dot = \<lparr>dot_enabled = True, dot_port = 853\<rparr>,
        ec_doh = \<lparr>doh_enabled = True, doh_port = 443, doh_path = ''/dns-query''\<rparr>\<rparr>\<rparr>"

section \<open>Durations\<close>

text \<open>
  \<^verbatim>\<open>time.ParseDuration\<close> of the Go library: signed decimal numbers with units, computed in
  64-bit unsigned arithmetic; None stands for each of its errors.
\<close>

definition unit_map :: "(string, nat) gomap" where
  "unit_map = [(''ns'', 1), (''us'', 1000), ([CHR 0xC2, CHR 0xB5, CHR ''s''], 1000), ([CHR 0xCE, CHR 0xBC, CHR ''s''], 1000),
     (''ms'', 1000000), (''s'', 1000000000), (''m'', 60000000000), (''h'', 3600000000000)]"

fun leadingInt :: "nat \<Rightarrow> string \<Rightarrow> (nat \<times> string) option" where
  "leadingInt x [] = Some (x, [])"
| "leadingInt x (c # s) =
     (if \<not> is_digit c then Some (x, c # s)
      else if x > 2 ^ 63 div 10 then None
      else if x * 10 + digit_val c > 2 ^ 63 then None
      else leadingInt (x * 10 + digit_val c) s)"

fun leadingFraction :: "nat \<Rightarrow> nat \<Rightarrow> bool \<Rightarrow> string \<Rightarrow> nat \<times> nat \<times> string" where
  "leadingFraction x scale over [] = (x, scale, [])"
| "leadingFraction x scale over (c # s) =
     (if \<not> is_digit c then (x, scale, c # s)
      else if over then leadingFraction x scale over s
      else if x > (2 ^ 63 - 1) div 10 then leadingFraction x scale True s
      else if x * 10 + digit_val c > 2 ^ 63 then leadingFraction x scale True s
      else leadingFraction (x * 10 + digit_val c) (scale * 10) over s)"

definition unit_byte :: "char \<Rightarrow> bool" where
  "unit_byte c \<longleftrightarrow> \<not> (c = CHR ''.'' \<or> is_digit c)"

definition dur_fraction :: "string \<Rightarrow> nat \<times> nat \<times> string \<times> bool" where
  "dur_fraction s =
     (if s \<noteq> [] \<and> hd s = CHR ''.'' then
        (let (f, scale, t) = leadingFraction 0 1 False (tl s) in (f, scale, t, length t \<noteq> length (tl s)))
      else (0, 1, s, False))"

text \<open>One number with its unit: the amount and the rest of the text.\<close>

definition dur_item :: "string \<Rightarrow> (nat \<times> string) option" where
  "dur_item s =
     (if \<not> (hd s = CHR ''.'' \<or> is_digit (hd s)) then None
      else
        (case leadingInt 0 s of
           None \<Rightarrow> None
         | Some (v, s1) \<Rightarrow>
             (let pre = (length s1 \<noteq> length s);
                  (f, scale, s2, post) = dur_fraction s1;
                  u = takeWhile unit_byte s2; rest = dropWhile unit_byte s2 in
              if \<not> pre \<and> \<not> post then None
              else if u = [] then None
              else
                (case gm_get unit_map u of
                   None \<Rightarrow> None
                 | Some un \<Rightarrow>
                     if v > 2 ^ 63 div un then None
                     else
                       (let v1 = v * un; v2 = (if f > 0 then v1 + f * un div scale else v1) in
                        if v2 > 2 ^ 63 then None else Some (v2, rest))))))"

lemma leadingInt_shorter: "leadingInt x s = Some (v, s') \<Longrightarrow> length s' \<le> length s"
  by (induction x s rule: leadingInt.induct) (auto split: if_splits)

lemma leadingFraction_shorter: "leadingFraction x sc ov s = (f, sc', s') \<Longrightarrow> length s' \<le> length s"
  by (induction x sc ov s rule: leadingFraction.induct) (auto split: if_splits)

lemma dropWhile_shorter: "takeWhile P s \<noteq> [] \<Longrightarrow> length (dropWhile P s) < length s"
  by (cases s) (auto split: if_splits intro: le_imp_less_Suc length_dropWhile_le)

lemma dur_fraction_shorter: "dur_fraction s = (f, scale, t, post) \<Longrightarrow> length t \<le> length s"
  using leadingFraction_shorter [of 0 1 False "tl s"]
  by (auto simp: dur_fraction_def split: if_splits prod.splits intro: le_trans)

lemma dur_item_shorter:
  assumes "dur_item s = Some (v, rest)"
  shows "length rest < length s"
proof -
  obtain x s1 where s1: "leadingInt 0 s = Some (x, s1)"
    using assms by (auto simp: dur_item_def Let_def split: if_splits option.splits)
  obtain f scale s2 post where s2: "dur_fraction s1 = (f, scale, s2, post)"
    by (metis prod_cases4)
  have "takeWhile unit_byte s2 \<noteq> []" "rest = dropWhile unit_byte s2"
    using assms s1 s2 by (auto simp: dur_item_def Let_def split: if_splits option.splits)
  then show ?thesis
    using leadingInt_shorter [OF s1] dur_fraction_shorter [OF s2] dropWhile_shorter [of unit_byte s2] by simp
qed

function dur_loop :: "nat \<Rightarrow> string \<Rightarrow> nat option" where
  "dur_loop d s =
     (if s = [] then Some d
      else
        (case dur_item s of
           None \<Rightarrow> None
         | Some (v, rest) \<Rightarrow>
             (let d1 = (d + v) mod 2 ^ 64 in if d1 > 2 ^ 63 then None else dur_loop d1 rest)))"
  by pat_completeness auto
termination
  by (relation "measure (\<lambda>(d, s). length s)") (auto dest: dur_item_shorter)

declare dur_loop.simps [simp del]

definition ParseDuration :: "string \<Rightarrow> duration option" where
  "ParseDuration s0 =
     (let neg = (s0 \<noteq> [] \<and> hd s0 = CHR ''-'');
          s = (if s0 \<noteq> [] \<and> hd s0 \<in> {CHR ''-'', CHR ''+''} then tl s0 else s0) in
      if s = ''0'' then Some 0
      else if s = [] then None
      else
        (case dur_loop 0 s of
           None \<Rightarrow> None
         | Some d \<Rightarrow>
             if neg then Some (- int d)
             else if d > 2 ^ 63 - 1 then None
             else Some (int d)))"

definition parseDurOr :: "string \<Rightarrow> duration \<Rightarrow> duration" where
  "parseDurOr s def = (if s = [] then def else case ParseDuration s of Some d \<Rightarrow> d | None \<Rightarrow> def)"

section \<open>Resolved settings\<close>

definition TrimByte :: "char \<Rightarrow> string \<Rightarrow> string" where
  "TrimByte c s = rev (dropWhile (\<lambda>x. x = c) (rev (dropWhile (\<lambda>x. x = c) s)))"

definition LocalDomainLabel :: "mdns_config \<Rightarrow> string" where
  "LocalDomainLabel m = TrimByte (CHR ''.'') (ToLower (TrimSpace (mdc_local_domain m)))"

definition StaleGraceDuration :: "mdns_config \<Rightarrow> duration" where
  "StaleGraceDuration m = parseDurOr (mdc_stale_grace m) (30 * minute)"

definition GoodbyeGraceDuration :: "mdns_config \<Rightarrow> duration" where
  "GoodbyeGraceDuration m = parseDurOr (mdc_goodbye_grace m) (5 * minute)"

definition TrustedGraceDuration :: "mdns_config \<Rightarrow> duration" where
  "TrustedGraceDuration m =
     (if TrimSpace (mdc_trusted_grace m) = ''0'' then 0 else parseDurOr (mdc_trusted_grace m) (7 * 24 * hour))"

definition ResolveOnDemandWaitDuration :: "mdns_config \<Rightarrow> duration" where
  "ResolveOnDemandWaitDuration m =
     (let d = parseDurOr (mdc_resolve_on_demand_wait m) 300000000;
          d1 = (if d < 50000000 then 50000000 else d) in
      if d1 > 2 * second then 2 * second else d1)"

definition ResolvedTunnelSuffixes :: "cf_config \<Rightarrow> string list" where
  "ResolvedTunnelSuffixes c =
     (let src = (if cf_tunnel_suffixes c = [] then [''cfargotunnel.com''] else cf_tunnel_suffixes c) in
      map (\<lambda>s. ''.'' @ s @ ''.'')
        (filter (\<lambda>s. s \<noteq> []) (map (\<lambda>s. ToLower (TrimByte (CHR ''.'') (TrimSpace s))) src)))"

definition RateDuration :: "ddns_config \<Rightarrow> duration option" where
  "RateDuration d = (if dn_rate d = [] then Some 0 else ParseDuration (dn_rate d))"

definition TrustedSourceSet :: "ddns_config \<Rightarrow> string + net_set" where
  "TrustedSourceSet d = ParseSet (dn_trusted_sources d)"

definition CanonicalTSIGName :: "string \<Rightarrow> string" where
  "CanonicalTSIGName name = ToLower (TrimSuffix (TrimSpace name) ''.'') @ ''.''"

definition ADNFqdn :: "encrypted_config \<Rightarrow> string" where
  "ADNFqdn e = (if ec_adn e = [] then [] else Fqdn (ToLower (ec_adn e)))"

section \<open>The environment\<close>

datatype file_read = FileData string | FileMissing | FileError string

record cfg_env =
  env_read :: "string \<Rightarrow> file_read"
  env_cert :: "string \<Rightarrow> string \<Rightarrow> string + time"
  env_domain_name :: "string \<Rightarrow> bool"
  env_group :: "string \<Rightarrow> string option"
  env_ifaces :: "sys_iface list option"
  env_now :: time

datatype tsig_error = TsigNoName nat | TsigFile nat | TsigEmpty nat

fun tsig_loop :: "cfg_env \<Rightarrow> nat \<Rightarrow> tsig_key list \<Rightarrow> (string, string) gomap \<Rightarrow> tsig_error + (string, string) gomap" where
  "tsig_loop env i [] out = Inr out"
| "tsig_loop env i (k # ks) out =
     (let name = CanonicalTSIGName (tk_name k); inline = TrimSpace (tk_secret k) in
      if name = ''.'' then Inl (TsigNoName i)
      else
        (case (if inline = [] \<and> tk_secret_file k \<noteq> [] then env_read env (tk_secret_file k) else FileData inline) of
           FileData b \<Rightarrow>
             (let secret = TrimSpace b in
              if secret = [] then Inl (TsigEmpty i) else tsig_loop env (Suc i) ks (gm_set out name secret))
         | _ \<Rightarrow> Inl (TsigFile i)))"

definition TSIGKeyset :: "cfg_env \<Rightarrow> ddns_config \<Rightarrow> tsig_error + (string, string) gomap" where
  "TSIGKeyset env d = (if dn_tsig_keys d = [] then Inr [] else tsig_loop env 0 (dn_tsig_keys d) [])"

fun groups_loop :: "cfg_env \<Rightarrow> string list \<Rightarrow> (nat, string) gomap \<Rightarrow> string list \<Rightarrow> (nat, string) gomap \<times> string list" where
  "groups_loop env [] gids unknown = (gids, unknown)"
| "groups_loop env (n0 # ns) gids unknown =
     (let name = TrimSpace n0 in
      if name = [] then groups_loop env ns gids unknown
      else
        (case env_group env name of
           None \<Rightarrow> groups_loop env ns gids (unknown @ [name])
         | Some gid \<Rightarrow>
             (case ParseUint gid 32 of
                None \<Rightarrow> groups_loop env ns gids (unknown @ [name])
              | Some n \<Rightarrow> groups_loop env ns (gm_set gids n name) unknown)))"

definition ResolveNotifyGroups :: "cfg_env \<Rightarrow> string list \<Rightarrow> (nat, string) gomap \<times> string list" where
  "ResolveNotifyGroups env names = groups_loop env names [] []"

definition LoadCert :: "cfg_env \<Rightarrow> encrypted_config \<Rightarrow> string option" where
  "LoadCert env e =
     (case env_cert env (ec_cert_file e) (ec_key_file e) of
        Inl err \<Rightarrow> Some err
      | Inr not_after \<Rightarrow> if env_now env > not_after then Some ''certificate expired'' else None)"

section \<open>Validation\<close>

definition is_octal :: "string \<Rightarrow> bool" where
  "is_octal s \<longleftrightarrow> s \<noteq> [] \<and> (\<forall>c\<in>set s. is_digit c \<and> digit_val c < 8) \<and>
     foldl (\<lambda>v c. v * 8 + digit_val c) 0 s < 2 ^ 32"

datatype enc_error =
    NoTransport | NoCertFiles | BadCert string | NoADN | BadADN | DotPort int | DohPort int | DohPath | EncNoAddresses

datatype cfg_error =
    ListenPort int | ListenProto | ListenNoAddresses | AccessAllow string | AccessRefuse string | DdnsRate
  | OnDemandWait | TrustedSources string | TsigKeys tsig_error | SocketMode | Encrypted enc_error

definition enc_validate :: "cfg_env \<Rightarrow> encrypted_config \<Rightarrow> enc_error option" where
  "enc_validate env e =
     (if \<not> ec_enabled e then None
      else if \<not> dot_enabled (ec_dot e) \<and> \<not> doh_enabled (ec_doh e) then Some NoTransport
      else if ec_cert_file e = [] \<or> ec_key_file e = [] then Some NoCertFiles
      else case LoadCert env e of
        Some err \<Rightarrow> Some (BadCert err)
      | None \<Rightarrow>
          if ec_adn e = [] \<or> Fqdn (ec_adn e) = ''.'' then Some NoADN
          else if \<not> env_domain_name env (ec_adn e) then Some BadADN
          else if dot_enabled (ec_dot e) \<and> (dot_port (ec_dot e) \<le> 0 \<or> dot_port (ec_dot e) > 65535) then
            Some (DotPort (dot_port (ec_dot e)))
          else if doh_enabled (ec_doh e) \<and> (doh_port (ec_doh e) \<le> 0 \<or> doh_port (ec_doh e) > 65535) then
            Some (DohPort (doh_port (ec_doh e)))
          else if doh_enabled (ec_doh e) \<and> \<not> HasPrefix (doh_path (ec_doh e)) ''/'' then Some DohPath
          else if ec_mode e = ''explicit'' \<and> ec_addresses e = [] then Some EncNoAddresses
          else None)"

definition Validate :: "cfg_env \<Rightarrow> config \<Rightarrow> cfg_error option" where
  "Validate env c =
     (let l = cfg_listen c; d = cfg_ddns c; wait = mdc_resolve_on_demand_wait (cfg_mdns c) in
      if lc_port l \<le> 0 \<or> lc_port l > 65535 then Some (ListenPort (lc_port l))
      else if \<not> lc_udp l \<and> \<not> lc_tcp l then Some ListenProto
      else if lc_mode l = ''explicit'' \<and> lc_addresses l = [] then Some ListenNoAddresses
      else case ParseSet (axc_allow (cfg_access c)) of Inl e \<Rightarrow> Some (AccessAllow e)
      | Inr _ \<Rightarrow>
      case ParseSet (axc_refuse (cfg_access c)) of Inl e \<Rightarrow> Some (AccessRefuse e)
      | Inr _ \<Rightarrow>
      if RateDuration d = None then Some DdnsRate
      else if wait \<noteq> [] \<and> ParseDuration wait = None then Some OnDemandWait
      else case TrustedSourceSet d of Inl e \<Rightarrow> Some (TrustedSources e)
      | Inr _ \<Rightarrow>
      case TSIGKeyset env d of Inl e \<Rightarrow> Some (TsigKeys e)
      | Inr _ \<Rightarrow>
      if dn_notify_socket_mode d \<noteq> [] \<and> \<not> is_octal (dn_notify_socket_mode d) then Some SocketMode
      else case enc_validate env (cfg_encrypted c) of
        Some e \<Rightarrow> Some (Encrypted e)
      | None \<Rightarrow> None)"

datatype load_error = ReadError string | ParseError string | Invalid cfg_error

definition Load :: "(config \<Rightarrow> string \<Rightarrow> string + config) \<Rightarrow> cfg_env \<Rightarrow> string \<Rightarrow> load_error + config" where
  "Load decode env path =
     (case env_read env path of
        FileMissing \<Rightarrow> Inr Default
      | FileError e \<Rightarrow> Inl (ReadError e)
      | FileData data \<Rightarrow>
          (case decode Default data of
             Inl e \<Rightarrow> Inl (ParseError e)
           | Inr cfg \<Rightarrow>
               (case Validate env cfg of
                  Some e \<Rightarrow> Inl (Invalid e)
                | None \<Rightarrow> Inr cfg)))"

definition no_notify :: notify_config where
  "no_notify = \<lparr>nc_servers = [], nc_socket = [], nc_tsig_key = [], nc_tsig_secret = [], nc_tsig_secret_file = [],
     nc_tsig_algorithm = []\<rparr>"

definition LoadNotify :: "(string \<Rightarrow> string + notify_config) \<Rightarrow> cfg_env \<Rightarrow> string \<Rightarrow> load_error + notify_config" where
  "LoadNotify decode env path =
     (case env_read env path of
        FileMissing \<Rightarrow> Inr no_notify
      | FileError e \<Rightarrow> Inl (ReadError e)
      | FileData data \<Rightarrow>
          (case decode data of
             Inl e \<Rightarrow> Inl (ParseError e)
           | Inr n0 \<Rightarrow>
               (let n = n0\<lparr>nc_tsig_secret := TrimSpace (nc_tsig_secret n0)\<rparr> in
                if nc_tsig_secret n = [] \<and> nc_tsig_secret_file n \<noteq> [] then
                  (case env_read env (nc_tsig_secret_file n) of
                     FileData b \<Rightarrow> Inr (n\<lparr>nc_tsig_secret := TrimSpace b\<rparr>)
                   | FileMissing \<Rightarrow> Inl (ReadError ''missing'')
                   | FileError e \<Rightarrow> Inl (ReadError e))
                else Inr n)))"

section \<open>Policies built from the settings\<close>

definition AccessPolicy :: "config \<Rightarrow> string + access" where
  "AccessPolicy c =
     (case ParseSet (axc_allow (cfg_access c)) of
        Inl e \<Rightarrow> Inl e
      | Inr allow \<Rightarrow>
          (case ParseSet (axc_refuse (cfg_access c)) of
             Inl e \<Rightarrow> Inl e
           | Inr refuse \<Rightarrow> Inr \<lparr>Allow = Some allow, Refuse = Some refuse\<rparr>))"

definition explicit_zones :: "string list \<Rightarrow> string list" where
  "explicit_zones zs =
     fold (\<lambda>z0 acc. let z = ensureDot (ToLower (TrimSpace z0)) in if z \<noteq> [] \<and> z \<notin> set acc then acc @ [z] else acc) zs []"

definition ResolveReverseZones :: "cfg_env \<Rightarrow> config \<Rightarrow> (rz_error + string list \<times> net_prefix list) option" where
  "ResolveReverseZones env c =
     (let scope = (if zc_reverse_detect (cfg_zones c) = [] then ScopeOff else zc_reverse_detect (cfg_zones c));
          explicit = explicit_zones (zc_reverse (cfg_zones c)) in
      if \<not> ValidScope scope then Some (Inl (UnknownScope scope))
      else if scope = ScopeOff then Some (Inr (sort explicit, []))
      else
        (case DetectPrefixes (env_ifaces env) scope of
           Inl e \<Rightarrow> Some (Inl e)
         | Inr pfxs \<Rightarrow>
             (case Derive pfxs of
                None \<Rightarrow> None
              | Some (derived, un) \<Rightarrow>
                  (let extra = filter (\<lambda>z. z \<notin> set explicit \<and> \<not> (\<exists>e\<in>set explicit. rev_contains e z)) derived in
                   Some (Inr (sort (explicit @ extra), un))))))"

section \<open>Durations are 64-bit numbers\<close>

lemma dur_loop_bound: "d \<le> 2 ^ 63 \<Longrightarrow> dur_loop d s = Some d' \<Longrightarrow> d' \<le> 2 ^ 63"
proof (induction d s rule: dur_loop.induct)
  case (1 d s)
  show ?case
  proof (cases "s = []")
    case True
    then show ?thesis
      using 1 by (simp add: dur_loop.simps)
  next
    case False
    obtain v rest where i: "dur_item s = Some (v, rest)"
      using 1(3) False by (subst (asm) dur_loop.simps) (auto split: option.splits)
    let ?d = "(d + v) mod 2 ^ 64"
    have "?d \<le> 2 ^ 63" "dur_loop ?d rest = Some d'"
      using 1(3) False i by (subst (asm) dur_loop.simps, auto simp: Let_def split: if_splits)+
    then show ?thesis
      using 1(1) [OF False i refl refl] by simp
  qed
qed

lemma ParseDuration_int64: "ParseDuration s = Some d \<Longrightarrow> - (2 ^ 63) \<le> d \<and> d < 2 ^ 63"
proof -
  assume a: "ParseDuration s = Some d"
  have b: "int n \<le> 2 ^ 63" if "dur_loop 0 t = Some n" for t n
    using dur_loop_bound [OF _ that] by (metis of_nat_le_iff of_nat_numeral of_nat_power zero_le)
  show ?thesis
    using a b by (fastforce simp: ParseDuration_def Let_def split: if_splits option.splits)
qed

text \<open>The wait for an on-demand answer stays between 50ms and 2s, whatever the setting is.\<close>

lemma ResolveOnDemandWait_clamped:
  "50000000 \<le> ResolveOnDemandWaitDuration m" "ResolveOnDemandWaitDuration m \<le> 2 * second"
  by (simp_all add: ResolveOnDemandWaitDuration_def Let_def)

section \<open>A validated configuration starts\<close>

lemma Fqdn_root: "Fqdn s = ''.'' \<longleftrightarrow> s = [] \<or> s = ''.''"
  by (auto simp: Fqdn_def IsFqdn_def Let_def)

lemma Fqdn_not_Nil [simp]: "Fqdn s \<noteq> []"
  by (auto simp: Fqdn_def IsFqdn_def)

lemma ToLower_Nil [simp]: "ToLower s = [] \<longleftrightarrow> s = []"
  by (simp add: ToLower_def)

lemma ToLower_root: "ToLower s = ''.'' \<longleftrightarrow> s = ''.''"
proof
  assume a: "ToLower s = ''.''"
  then obtain c where c: "s = [c]" "ascii_lower c = CHR ''.''"
    by (auto simp: ToLower_def)
  have "c = CHR ''.''"
    using c(2) by (cases "CHR ''A'' \<le> c \<and> c \<le> CHR ''Z''")
      (auto simp: ascii_lower_def char_of_eq_iff take_bit_eq_mod less_eq_char_def)
  then show "s = ''.''"
    using c by simp
qed (simp add: ToLower_def ascii_lower_def)

lemma tsig_loop_ok:
  assumes "tsig_loop env i ks out = Inr out'" "\<forall>(n, s)\<in>set out. n \<noteq> ''.'' \<and> HasSuffix n ''.'' \<and> s \<noteq> []"
  shows "\<forall>(n, s)\<in>set out'. n \<noteq> ''.'' \<and> HasSuffix n ''.'' \<and> s \<noteq> []"
  using assms
proof (induction env i ks out rule: tsig_loop.induct)
  case (2 env i k ks out)
  obtain b where b: "TrimSpace b \<noteq> []" "CanonicalTSIGName (tk_name k) \<noteq> ''.''"
    "tsig_loop env (Suc i) ks (gm_set out (CanonicalTSIGName (tk_name k)) (TrimSpace b)) = Inr out'"
    "(if TrimSpace (tk_secret k) = [] \<and> tk_secret_file k \<noteq> [] then env_read env (tk_secret_file k)
      else FileData (TrimSpace (tk_secret k))) = FileData b"
    using 2(2) by (auto simp: Let_def split: if_splits file_read.splits)
  have "HasSuffix (CanonicalTSIGName (tk_name k)) ''.''"
    by (simp add: CanonicalTSIGName_def)
  moreover have "set (gm_set out (CanonicalTSIGName (tk_name k)) (TrimSpace b)) \<subseteq>
      insert (CanonicalTSIGName (tk_name k), TrimSpace b) (set out)"
    by (rule gm_set_subset)
  ultimately have "\<forall>(n, s)\<in>set (gm_set out (CanonicalTSIGName (tk_name k)) (TrimSpace b)). n \<noteq> ''.'' \<and> HasSuffix n ''.'' \<and> s \<noteq> []"
    using b(1,2) 2(3) by fastforce
  then show ?case
    using 2(1) [OF refl refl b(2,4) refl b(1,3)] by blast
qed simp

text \<open>
  A configuration that passes validation does not fail later: the access policy, the
  write rate, the trusted sources and the signature keys can all be built from it; every
  signature key has a proper name and a secret; the port is a port and some transport
  is on; and an encrypted front-end has a transport, a certificate that is valid now and
  ports and a path that can be served.
\<close>

theorem validated_config_starts:
  assumes "Validate env c = None"
  shows "(\<exists>pol. AccessPolicy c = Inr pol) \<and> (\<exists>r. RateDuration (cfg_ddns c) = Some r \<and> r < 2 ^ 63) \<and>
    (\<exists>t. TrustedSourceSet (cfg_ddns c) = Inr t) \<and>
    (\<exists>ks. TSIGKeyset env (cfg_ddns c) = Inr ks \<and> list_all (\<lambda>(n, s). n \<noteq> ''.'' \<and> HasSuffix n ''.'' \<and> s \<noteq> []) ks) \<and>
    lc_port (cfg_listen c) \<in> {1 .. 65535} \<and> (lc_udp (cfg_listen c) \<or> lc_tcp (cfg_listen c)) \<and>
    (ec_enabled (cfg_encrypted c) \<longrightarrow>
      LoadCert env (cfg_encrypted c) = None \<and> ADNFqdn (cfg_encrypted c) \<notin> {[], ''.''} \<and>
      (dot_enabled (ec_dot (cfg_encrypted c)) \<and> dot_port (ec_dot (cfg_encrypted c)) \<in> {1 .. 65535} \<or>
       doh_enabled (ec_doh (cfg_encrypted c)) \<and> doh_port (ec_doh (cfg_encrypted c)) \<in> {1 .. 65535} \<and>
         HasPrefix (doh_path (ec_doh (cfg_encrypted c))) ''/''))"
proof -
  let ?d = "cfg_ddns c" and ?e = "cfg_encrypted c" and ?l = "cfg_listen c"
  have l: "lc_port ?l \<in> {1 .. 65535}" "lc_udp ?l \<or> lc_tcp ?l"
    using assms by (auto simp: Validate_def Let_def split: if_splits)
  obtain al re where acc: "ParseSet (axc_allow (cfg_access c)) = Inr al" "ParseSet (axc_refuse (cfg_access c)) = Inr re"
    using assms by (auto simp: Validate_def Let_def split: if_splits sum.splits)
  obtain r where r: "RateDuration ?d = Some r"
    using assms acc by (auto simp: Validate_def Let_def split: if_splits sum.splits)
  obtain t where t: "TrustedSourceSet ?d = Inr t"
    using assms acc r by (auto simp: Validate_def Let_def split: if_splits sum.splits)
  obtain ks where ks: "TSIGKeyset env ?d = Inr ks"
    using assms acc r t by (auto simp: Validate_def Let_def split: if_splits sum.splits)
  have e: "enc_validate env ?e = None"
    using assms acc r t ks by (auto simp: Validate_def Let_def split: if_splits option.splits)
  have keys: "list_all (\<lambda>(n, s). n \<noteq> ''.'' \<and> HasSuffix n ''.'' \<and> s \<noteq> []) ks"
    using ks tsig_loop_ok [of env 0 "dn_tsig_keys ?d" "[]" ks] by (auto simp: TSIGKeyset_def list_all_iff split: if_splits)
  have rate: "r < 2 ^ 63"
    using r ParseDuration_int64 by (auto simp: RateDuration_def split: if_splits)
  have enc: "LoadCert env ?e = None \<and> ADNFqdn ?e \<notin> {[], ''.''} \<and>
      (dot_enabled (ec_dot ?e) \<and> dot_port (ec_dot ?e) \<in> {1 .. 65535} \<or>
       doh_enabled (ec_doh ?e) \<and> doh_port (ec_doh ?e) \<in> {1 .. 65535} \<and> HasPrefix (doh_path (ec_doh ?e)) ''/'')"
    if "ec_enabled ?e"
  proof -
    have "LoadCert env ?e = None" "ec_adn ?e \<noteq> []" "Fqdn (ec_adn ?e) \<noteq> ''.''"
      using e that by (auto simp: enc_validate_def split: if_splits option.splits)
    moreover have "dot_enabled (ec_dot ?e) \<and> dot_port (ec_dot ?e) \<in> {1 .. 65535} \<or>
       doh_enabled (ec_doh ?e) \<and> doh_port (ec_doh ?e) \<in> {1 .. 65535} \<and> HasPrefix (doh_path (ec_doh ?e)) ''/''"
      using e that by (auto simp: enc_validate_def split: if_splits option.splits)
    ultimately show ?thesis
      by (simp add: ADNFqdn_def Fqdn_root ToLower_root)
  qed
  show ?thesis
    using l acc r t ks keys rate enc by (auto simp: AccessPolicy_def)
qed

lemma default_valid: "Validate env Default = None"
proof -
  have "ParseSet DefaultPrivateClients = Inr default_client_set"
    by (rule DefaultPrivateClients_eq)
  moreover have "ParseDuration ''10m'' = Some (10 * minute)" "ParseDuration ''300ms'' = Some 300000000"
    by code_simp+
  moreover have "ParseSet [] = Inr \<lparr>set_prefixes = []\<rparr>"
    by code_simp
  ultimately show ?thesis
    by (simp add: Validate_def Default_def RateDuration_def TrustedSourceSet_def TSIGKeyset_def enc_validate_def)
qed

text \<open>
  Whatever file is read and however it is decoded, a configuration that loading returns
  has passed validation; the defaults, used when there is no file, pass it in every
  environment.
\<close>

theorem loaded_config_valid:
  assumes "Load decode env path = Inr c"
  shows "Validate env c = None"
  using assms default_valid by (auto simp: Load_def split: file_read.splits sum.splits option.splits)

section \<open>Reverse zones of a configuration\<close>

lemma rev_contains_suffix: "rev_contains parent child = isSuffixLabel child parent"
  by (auto simp: rev_contains_def isSuffixLabel_def)

lemma explicit_zones_distinct: "distinct (explicit_zones zs)"
proof -
  have "distinct acc \<Longrightarrow> distinct (fold (\<lambda>z0 acc. let z = ensureDot (ToLower (TrimSpace z0)) in
      if z \<noteq> [] \<and> z \<notin> set acc then acc @ [z] else acc) zs acc)" for acc
    by (induction zs arbitrary: acc) (auto simp: Let_def)
  then show ?thesis
    by (simp add: explicit_zones_def)
qed

definition detected_prefixes :: "cfg_env \<Rightarrow> config \<Rightarrow> net_prefix list" where
  "detected_prefixes env c =
     (if zc_reverse_detect (cfg_zones c) \<in> {[], ScopeOff} then []
      else case DetectPrefixes (env_ifaces env) (zc_reverse_detect (cfg_zones c)) of Inl _ \<Rightarrow> [] | Inr ps \<Rightarrow> ps)"

lemma detected_all_plain: "\<forall>p\<in>set (detected_prefixes env c). plain_prefix p"
proof (cases "DetectPrefixes (env_ifaces env) (zc_reverse_detect (cfg_zones c))")
  case (Inr ps)
  then show ?thesis
    using detected_plain [OF Inr] by (simp add: detected_prefixes_def)
qed (simp add: detected_prefixes_def)

text \<open>
  C8. The server is authoritative for the reverse names of exactly the managed space: the
  resolution of the reverse zones never fails on the prefixes of the host, and the
  reverse name of an address lies in one of the resulting zones just when it lies in a
  configured zone or the address lies in a detected prefix on a label boundary.  The
  zones are the configured ones and the zones of the detected prefixes that are not
  inside a configured one; leaving those out does not change what is covered.
\<close>

theorem reverse_zones_cover:
  "ResolveReverseZones env c \<noteq> None \<and> (\<forall>zones refused. ResolveReverseZones env c = Some (Inr (zones, refused)) \<longrightarrow>
    sorted zones \<and> distinct zones \<and>
    set zones = set (explicit_zones (zc_reverse (cfg_zones c))) \<union>
      {z. (\<exists>p\<in>set (detected_prefixes env c). ZoneFor p = Some (Inr z)) \<and>
        \<not> (\<exists>e\<in>set (explicit_zones (zc_reverse (cfg_zones c))). isSuffixLabel z e)} \<and>
    refused = map Masked (filter (\<lambda>p. \<not> aligned p) (detected_prefixes env c)) \<and>
    (\<forall>a. IsValid a \<and> \<not> hasZone a \<longrightarrow>
      (\<exists>n. reverse_name a = Some n \<and>
        ((\<exists>z\<in>set zones. isSuffixLabel n z) \<longleftrightarrow>
          (\<exists>z\<in>set (explicit_zones (zc_reverse (cfg_zones c))). isSuffixLabel n z) \<or>
          (\<exists>p\<in>set (detected_prefixes env c). aligned p \<and> PrefixContains p (Unmap a))))))"
proof -
  obtain r where r: "ResolveReverseZones env c = r"
    by simp
  let ?ex = "explicit_zones (zc_reverse (cfg_zones c))" and ?s = "zc_reverse_detect (cfg_zones c)"
  have name: "\<exists>n. reverse_name a = Some n" if "IsValid a" for a
    using reverse_name_labels that by blast
  obtain zs where zs: "Derive (detected_prefixes env c) = Some (zs, map Masked (filter (\<lambda>p. \<not> aligned p) (detected_prefixes env c)))"
    "distinct zs"
    and cover: "\<And>a n. IsValid a \<Longrightarrow> \<not> hasZone a \<Longrightarrow> reverse_name a = Some n \<Longrightarrow>
      (\<exists>z\<in>set zs. isSuffixLabel n z) \<longleftrightarrow> (\<exists>p\<in>set (detected_prefixes env c). aligned p \<and> PrefixContains p (Unmap a))"
    using Derive_exact [OF detected_all_plain, of env c] by (metis option.inject)
  let ?extra = "filter (\<lambda>z. z \<notin> set ?ex \<and> \<not> (\<exists>e\<in>set ?ex. rev_contains e z)) zs"
  have same: "(\<exists>z\<in>set (sort (?ex @ ?extra)). isSuffixLabel n z) \<longleftrightarrow> (\<exists>z\<in>set ?ex. isSuffixLabel n z) \<or> (\<exists>z\<in>set zs. isSuffixLabel n z)" for n
    using isSuffixLabel_trans by (auto simp: rev_contains_suffix) blast
  consider (off) "?s \<in> {[], ScopeOff}" | (bad) e where "?s \<notin> {[], ScopeOff}" "r = Some (Inl e)"
    | (on) "?s \<notin> {[], ScopeOff}" "r = Some (Inr (sort (?ex @ ?extra), map Masked (filter (\<lambda>p. \<not> aligned p) (detected_prefixes env c))))"
    using r zs(1) by (auto simp: ResolveReverseZones_def detected_prefixes_def Let_def split: sum.splits if_splits)
  then show ?thesis
  proof cases
    case off
    have "r = Some (Inr (sort ?ex, []))" "detected_prefixes env c = []"
      using r off by (auto simp: ResolveReverseZones_def Let_def ValidScope_def detected_prefixes_def)
    then show ?thesis
      using explicit_zones_distinct name r by auto
  next
    case bad
    then show ?thesis
      using r by simp
  next
    case on
    have "distinct (?ex @ ?extra)"
      using explicit_zones_distinct zs(2) by auto
    moreover have "set ?ex \<union> set ?extra = set ?ex \<union> {z. (\<exists>p\<in>set (detected_prefixes env c). ZoneFor p = Some (Inr z)) \<and>
        \<not> (\<exists>e\<in>set ?ex. isSuffixLabel z e)}"
      using Derive_zones [OF zs(1)] by (auto simp: rev_contains_suffix)
    moreover have "\<exists>n. reverse_name a = Some n \<and>
        ((\<exists>z\<in>set (sort (?ex @ ?extra)). isSuffixLabel n z) \<longleftrightarrow> (\<exists>z\<in>set ?ex. isSuffixLabel n z) \<or>
          (\<exists>p\<in>set (detected_prefixes env c). aligned p \<and> PrefixContains p (Unmap a)))" if v: "IsValid a" "\<not> hasZone a" for a
    proof -
      obtain n where n: "reverse_name a = Some n"
        using name [OF v(1)] by blast
      show ?thesis
        unfolding cover [OF v n, symmetric] using n same by blast
    qed
    ultimately show ?thesis
      using on(2) r by simp
  qed
qed

definition demo_env :: cfg_env where
  "demo_env = \<lparr>env_read = (\<lambda>_. FileMissing), env_cert = (\<lambda>_ _. Inl ''no certificate''), env_domain_name = (\<lambda>_. True),
     env_group = (\<lambda>_. None),
     env_ifaces = Some [\<lparr>sif_up = True, sif_loopback = False, sif_addrs = Some [SysIPNet [192, 168, 1, 5] 24]\<rparr>],
     env_now = 0\<rparr>"

definition demo_cfg :: config where
  "demo_cfg = Default\<lparr>cfg_zones := (cfg_zones Default)\<lparr>zc_reverse := [''10.in-addr.arpa''], zc_reverse_detect := ''private''\<rparr>\<rparr>"

theorem validated_config_starts_witness:
  "Validate demo_env Default = None \<and> (\<exists>pol. AccessPolicy Default = Inr pol) \<and>
   (\<exists>r. RateDuration (cfg_ddns Default) = Some r \<and> r < 2 ^ 63)"
  using validated_config_starts [OF default_valid [of demo_env]] default_valid by blast

theorem loaded_config_valid_witness:
  "Load (\<lambda>c _. Inr c) demo_env ''splitdnsd.toml'' = Inr Default \<and> Validate demo_env Default = None"
proof -
  have "Load (\<lambda>c _. Inr c) demo_env ''splitdnsd.toml'' = Inr Default"
    by (simp add: Load_def demo_env_def)
  then show ?thesis
    using loaded_config_valid by blast
qed

theorem reverse_zones_cover_witness:
  "\<exists>zones. ResolveReverseZones demo_env demo_cfg = Some (Inr (zones, [])) \<and> sorted zones \<and>
     (\<exists>n. reverse_name (Addr4 0xC0A80107) = Some n \<and> (\<exists>z\<in>set zones. isSuffixLabel n z))"
proof -
  let ?zones = "[''1.168.192.in-addr.arpa.'', ''10.in-addr.arpa.'']" and ?a = "Addr4 0xC0A80107"
  let ?p = "Prefix (Addr4 0xC0A80100) 24"
  have r: "ResolveReverseZones demo_env demo_cfg = Some (Inr (?zones, []))"
    by code_simp
  note cover = mp [OF spec [OF spec [OF conjunct2 [OF reverse_zones_cover]]] r]
  have d: "?p \<in> set (detected_prefixes demo_env demo_cfg) \<and> aligned ?p \<and> PrefixContains ?p (Unmap ?a) \<and> IsValid ?a \<and> \<not> hasZone ?a"
    by code_simp
  have sorted: "sorted ?zones"
    using cover by (elim conjE) assumption
  have all: "\<forall>a. IsValid a \<and> \<not> hasZone a \<longrightarrow>
      (\<exists>n. reverse_name a = Some n \<and>
        ((\<exists>z\<in>set ?zones. isSuffixLabel n z) \<longleftrightarrow>
          (\<exists>z\<in>set (explicit_zones (zc_reverse (cfg_zones demo_cfg))). isSuffixLabel n z) \<or>
          (\<exists>p\<in>set (detected_prefixes demo_env demo_cfg). aligned p \<and> PrefixContains p (Unmap a))))"
    using cover by (elim conjE) assumption
  obtain n where "reverse_name ?a = Some n" "\<exists>z\<in>set ?zones. isSuffixLabel n z"
    using all [THEN spec, of ?a] d by blast
  then show ?thesis
    using r sorted by blast
qed

lemma Validate_zones: "Validate env (c\<lparr>cfg_zones := z\<rparr>) = Validate env c"
  by (simp add: Validate_def cong: if_cong option.case_cong sum.case_cong)

text \<open>
  A misspelt detection scope passes validation, and the resolution of the reverse zones
  then gives no zones at all, not even the configured ones.
\<close>

theorem misspelt_scope_drops_zones:
  "Validate env (Default\<lparr>cfg_zones := (cfg_zones Default)\<lparr>zc_reverse := [''10.in-addr.arpa''], zc_reverse_detect := ''privat''\<rparr>\<rparr>) = None \<and>
   ResolveReverseZones env (Default\<lparr>cfg_zones := (cfg_zones Default)\<lparr>zc_reverse := [''10.in-addr.arpa''], zc_reverse_detect := ''privat''\<rparr>\<rparr>) =
     Some (Inl (UnknownScope ''privat''))"
proof
  show "Validate env (Default\<lparr>cfg_zones := (cfg_zones Default)\<lparr>zc_reverse := [''10.in-addr.arpa''], zc_reverse_detect := ''privat''\<rparr>\<rparr>) = None"
    by (simp add: Validate_zones default_valid)
qed (simp add: ResolveReverseZones_def ValidScope_def)

end
