(* ===== verification/Ddns_Audit.thy ===== *)
theory Ddns_Audit
  imports Netip
begin

text \<open>
  Package \<^verbatim>\<open>internal/ddns\<close>, file \<^verbatim>\<open>audit.go\<close>: the hash-chained log of the dynamic DNS
  writer.  SHA-256 and the rendering of times are those of the Go library: FIPS 180-4
  over 32-bit words, and RFC 3339 with nanoseconds in UTC (a time counts nanoseconds
  from 1970).  The encoding of an entry as a JSON line is not modelled: the sink holds
  the entries.  The sequence number does not wrap.
\<close>

section \<open>SHA-256\<close>

type_synonym w32 = "32 word"

text \<open>
  The constants, as the standard describes them: the first 32 bits of the fractional
  parts of the cube roots of the first 64 primes, and of the square roots of the first 8.
\<close>

definition small_primes :: "nat list" where
  "small_primes = filter (\<lambda>n. \<forall>d\<in>set [2 ..< n]. \<not> d dvd n) [2 ..< 312]"

fun root_bits :: "nat \<Rightarrow> nat \<Rightarrow> nat list \<Rightarrow> nat \<Rightarrow> nat" where
  "root_bits k m [] r = r"
| "root_bits k m (b # bs) r = root_bits k m bs (if (r + 2 ^ b) ^ k \<le> m then r + 2 ^ b else r)"

definition root_frac :: "nat \<Rightarrow> nat \<Rightarrow> w32" where
  "root_frac k p = of_nat (root_bits k (p * 2 ^ (32 * k)) (rev [0 ..< 40]) 0)"

definition sha_k :: "w32 list" where
  "sha_k = map (root_frac 3) small_primes"

definition sha_h0 :: "w32 list" where
  "sha_h0 = map (root_frac 2) (take 8 small_primes)"

unbundle bit_operations_syntax

definition rotr :: "nat \<Rightarrow> w32 \<Rightarrow> w32" where
  "rotr n x = drop_bit n x OR push_bit (32 - n) x"

definition big_sigma0 :: "w32 \<Rightarrow> w32" where "big_sigma0 x = rotr 2 x XOR rotr 13 x XOR rotr 22 x"
definition big_sigma1 :: "w32 \<Rightarrow> w32" where "big_sigma1 x = rotr 6 x XOR rotr 11 x XOR rotr 25 x"
definition small_sigma0 :: "w32 \<Rightarrow> w32" where "small_sigma0 x = rotr 7 x XOR rotr 18 x XOR drop_bit 3 x"
definition small_sigma1 :: "w32 \<Rightarrow> w32" where "small_sigma1 x = rotr 17 x XOR rotr 19 x XOR drop_bit 10 x"
definition sha_ch :: "w32 \<Rightarrow> w32 \<Rightarrow> w32 \<Rightarrow> w32" where "sha_ch x y z = (x AND y) XOR (NOT x AND z)"
definition sha_maj :: "w32 \<Rightarrow> w32 \<Rightarrow> w32 \<Rightarrow> w32" where
  "sha_maj x y z = (x AND y) XOR (x AND z) XOR (y AND z)"

primrec sha_extend :: "nat \<Rightarrow> w32 list \<Rightarrow> w32 list" where
  "sha_extend 0 w = w"
| "sha_extend (Suc n) w =
     (let l = length w in
      sha_extend n (w @ [small_sigma1 (w ! (l - 2)) + w ! (l - 7) + small_sigma0 (w ! (l - 15)) + w ! (l - 16)]))"

fun sha_round :: "w32 \<times> w32 \<Rightarrow> w32 list \<Rightarrow> w32 list" where
  "sha_round (k, w) [a, b, c, d, e, f, g, h] =
     (let t1 = h + big_sigma1 e + sha_ch e f g + k + w; t2 = big_sigma0 a + sha_maj a b c in
      [t1 + t2, a, b, c, d + t1, e, f, g])"
| "sha_round _ s = s"

definition sha_block :: "w32 list \<Rightarrow> w32 list \<Rightarrow> w32 list" where
  "sha_block w h = map2 (+) h (fold sha_round (zip sha_k (sha_extend 48 w)) h)"

fun be_words :: "nat list \<Rightarrow> w32 list" where
  "be_words (a # b # c # d # bs) = of_nat (((a * 256 + b) * 256 + c) * 256 + d) # be_words bs"
| "be_words _ = []"

definition be_bytes :: "nat \<Rightarrow> nat \<Rightarrow> nat list" where
  "be_bytes n x = map (\<lambda>i. x div 256 ^ i mod 256) (rev [0..<n])"

definition sha_pad :: "nat list \<Rightarrow> nat list" where
  "sha_pad m = m @ [128] @ replicate ((119 - length m mod 64) mod 64) 0 @ be_bytes 8 (8 * length m)"

fun sha_blocks :: "nat \<Rightarrow> w32 list \<Rightarrow> w32 list \<Rightarrow> w32 list" where
  "sha_blocks 0 ws h = h"
| "sha_blocks (Suc n) ws h = sha_blocks n (drop 16 ws) (sha_block (take 16 ws) h)"

definition sha256 :: "string \<Rightarrow> nat list" where
  "sha256 s =
     (let ws = be_words (sha_pad (map of_char s)) in
      concat (map (\<lambda>w. be_bytes 4 (unat w)) (sha_blocks (length ws div 16) ws sha_h0)))"

definition hex_encode :: "nat list \<Rightarrow> string" where
  "hex_encode bs = concat (map (\<lambda>b. [hex_digit (b div 16), hex_digit (b mod 16)]) bs)"

section \<open>Times\<close>

definition pad_num :: "nat \<Rightarrow> nat \<Rightarrow> string" where
  "pad_num w n = replicate (w - length (Itoa n)) CHR ''0'' @ Itoa n"

text \<open>The civil date of a day counted from 1970-01-01.\<close>

definition civil :: "int \<Rightarrow> int \<times> nat \<times> nat" where
  "civil days =
     (let z = days + 719468; era = z div 146097; doe = z mod 146097;
          yoe = (doe - doe div 1460 + doe div 36524 - doe div 146096) div 365;
          doy = doe - (365 * yoe + yoe div 4 - yoe div 100);
          mp = (5 * doy + 2) div 153;
          d = doy - (153 * mp + 2) div 5 + 1;
          mo = (if mp < 10 then mp + 3 else mp - 9) in
      (yoe + era * 400 + (if mo \<le> 2 then 1 else 0), nat mo, nat d))"

definition fraction :: "nat \<Rightarrow> string" where
  "fraction ns =
     (if ns = 0 then [] else CHR ''.'' # rev (dropWhile (\<lambda>c. c = CHR ''0'') (rev (pad_num 9 ns))))"

definition RFC3339Nano :: "time \<Rightarrow> string" where
  "RFC3339Nano t =
     (let (y, mo, d) = civil (t div (24 * hour)); s = nat (t mod (24 * hour) div second) in
      pad_num 4 (nat y) @ ''-'' @ pad_num 2 mo @ ''-'' @ pad_num 2 d @ ''T'' @ pad_num 2 (s div 3600) @ '':'' @
      pad_num 2 (s div 60 mod 60) @ '':'' @ pad_num 2 (s mod 60) @ fraction (nat (t mod second)) @ ''Z'')"

section \<open>The log\<close>

record au_entry =
  ae_seq :: nat
  ae_prev :: string
  ae_hash :: string
  ae_time :: string
  ae_token :: string
  ae_host :: string
  ae_change :: string
  ae_result :: string
  ae_detail :: string

record audit =
  au_token :: string
  au_seq :: nat
  au_prev :: string
  au_sink :: "au_entry list"

definition NewAudit :: "string \<Rightarrow> audit" where
  "NewAudit token = \<lparr>au_token = token, au_seq = 0, au_prev = [], au_sink = []\<rparr>"

definition payload :: "au_entry \<Rightarrow> string" where
  "payload e =
     Join [Itoa (ae_seq e), ae_prev e, ae_time e, ae_token e, ae_host e, ae_change e, ae_result e, ae_detail e] ''|''"

definition chainHash :: "string \<Rightarrow> au_entry \<Rightarrow> string" where
  "chainHash prev e = hex_encode (sha256 (prev @ [CHR 0x00] @ payload e))"

definition Append :: "time \<Rightarrow> string \<Rightarrow> string \<Rightarrow> string \<Rightarrow> string \<Rightarrow> audit \<Rightarrow> au_entry \<times> audit" where
  "Append t host change result detail a =
     (let e0 = \<lparr>ae_seq = au_seq a, ae_prev = au_prev a, ae_hash = [], ae_time = RFC3339Nano t, ae_token = au_token a,
                ae_host = host, ae_change = change, ae_result = result, ae_detail = detail\<rparr>;
          e = e0\<lparr>ae_hash := chainHash (au_prev a) e0\<rparr> in
      (e, a\<lparr>au_seq := au_seq a + 1, au_prev := ae_hash e, au_sink := au_sink a @ [e]\<rparr>))"

text \<open>The loop of the verifier: the index of the first broken entry, if there is one.\<close>

fun verify_from :: "nat \<Rightarrow> string \<Rightarrow> au_entry list \<Rightarrow> nat option" where
  "verify_from i prev [] = None"
| "verify_from i prev (e # es) =
     (if ae_seq e \<noteq> i then Some i
      else if ae_prev e \<noteq> prev then Some i
      else if chainHash prev e \<noteq> ae_hash e then Some i
      else verify_from (Suc i) (ae_hash e) es)"

definition VerifyChain :: "au_entry list \<Rightarrow> int \<times> bool" where
  "VerifyChain es = (case verify_from 0 [] es of None \<Rightarrow> (-1, True) | Some i \<Rightarrow> (int i, False))"

section \<open>An appended log verifies\<close>

lemma verify_snoc:
  "verify_from i prev (es @ [e]) = None \<longleftrightarrow>
     verify_from i prev es = None \<and> ae_seq e = i + length es \<and>
     ae_prev e = (if es = [] then prev else ae_hash (last es)) \<and> chainHash (ae_prev e) e = ae_hash e"
  by (induction es arbitrary: i prev) auto

lemma payload_hash: "payload (e\<lparr>ae_hash := h\<rparr>) = payload e"
  by (simp add: payload_def)

lemma chainHash_hash: "chainHash p (e\<lparr>ae_hash := h\<rparr>) = chainHash p e"
  by (simp add: chainHash_def payload_hash)

type_synonym au_call = "time \<times> string \<times> string \<times> string \<times> string"

definition append_all :: "au_call list \<Rightarrow> audit \<Rightarrow> audit" where
  "append_all cs a = fold (\<lambda>(t, host, change, result, detail) a. snd (Append t host change result detail a)) cs a"

definition au_inv :: "audit \<Rightarrow> bool" where
  "au_inv a \<longleftrightarrow> verify_from 0 [] (au_sink a) = None \<and> au_seq a = length (au_sink a) \<and>
     au_prev a = (if au_sink a = [] then [] else ae_hash (last (au_sink a)))"

lemma Append_inv: "au_inv a \<Longrightarrow> au_inv (snd (Append t host change result detail a))"
  by (simp add: au_inv_def Append_def Let_def verify_snoc chainHash_def payload_def)

lemma append_all_inv: "au_inv a \<Longrightarrow> au_inv (append_all cs a)"
  unfolding append_all_def by (induction cs arbitrary: a) (auto simp: Append_inv)

text \<open>
  The log of any sequence of reports verifies: the entries that the writer emits,
  one per report and numbered from 0, form an unbroken chain for the verifier.
\<close>

theorem appended_log_verifies:
  "VerifyChain (au_sink (append_all cs (NewAudit token))) = (-1, True) \<and>
   map ae_seq (au_sink (append_all cs (NewAudit token))) = [0..<length cs]"
proof -
  have inv: "au_inv (append_all cs (NewAudit token))"
    by (rule append_all_inv) (simp add: au_inv_def NewAudit_def)
  have seq: "verify_from i p es = None \<Longrightarrow> map ae_seq es = [i..<i + length es]" for i p es
    by (induction es arbitrary: i p) (auto simp: upt_conv_Cons simp del: upt_Suc split: if_splits)
  have len: "length (au_sink (append_all cs a)) = length (au_sink a) + length cs" for a
    unfolding append_all_def by (induction cs arbitrary: a) (auto simp: Append_def Let_def)
  show ?thesis
    using inv seq [of 0 "[]" "au_sink (append_all cs (NewAudit token))"] len [of "NewAudit token"]
    by (simp add: VerifyChain_def au_inv_def NewAudit_def)
qed

section \<open>A changed log does not verify\<close>

lemma hex_encode_inj:
  "hex_encode xs = hex_encode ys \<Longrightarrow> \<forall>b\<in>set xs \<union> set ys. b < 256 \<Longrightarrow> xs = ys"
proof (induction xs arbitrary: ys)
  case (Cons x xs)
  then obtain y ys' where ys: "ys = y # ys'"
    by (cases ys) (auto simp: hex_encode_def)
  have d: "x div 16 = y div 16" "x mod 16 = y mod 16"
    using Cons.prems ys by (auto simp: hex_encode_def intro!: hex_digit_inj)
  then have "x = y"
    by (metis div_mult_mod_eq)
  moreover have "xs = ys'"
    using Cons.prems ys by (intro Cons.IH) (auto simp: hex_encode_def)
  ultimately show ?case
    using ys by simp
next
  case Nil
  then show ?case
    by (cases ys) (auto simp: hex_encode_def)
qed

lemma hex_digit_plain: "d < 16 \<Longrightarrow> hex_digit d \<noteq> CHR ''|'' \<and> hex_digit d \<noteq> CHR 0x00"
proof -
  assume "d < 16"
  then have "(of_char (hex_digit d) :: nat) = (if d < 10 then 48 + d else 87 + d)"
    by (simp add: hex_digit_def)
  then have "(of_char (hex_digit d) :: nat) \<noteq> of_char CHR ''|'' \<and> (of_char (hex_digit d) :: nat) \<noteq> of_char CHR 0x00"
    using \<open>d < 16\<close> by (auto split: if_splits)
  then show ?thesis
    by auto
qed

lemma sha256_bytes: "\<forall>b\<in>set (sha256 s). b < 256"
  by (auto simp: sha256_def be_bytes_def Let_def)

lemma chainHash_plain: "CHR ''|'' \<notin> set (chainHash p e) \<and> CHR 0x00 \<notin> set (chainHash p e)"
proof -
  have "c \<noteq> CHR ''|'' \<and> c \<noteq> CHR 0x00" if c: "c \<in> set (hex_encode bs)" and bs: "\<forall>b\<in>set bs. b < 256" for c bs
  proof -
    obtain b where b: "b \<in> set bs" "c = hex_digit (b div 16) \<or> c = hex_digit (b mod 16)"
      using c by (auto simp: hex_encode_def)
    then have "b div 16 < 16"
      using bs by (simp add: less_mult_imp_div_less)
    then show ?thesis
      using b(2) hex_digit_plain [of "b div 16"] hex_digit_plain [of "b mod 16"] by auto
  qed
  then show ?thesis
    using sha256_bytes unfolding chainHash_def by blast
qed

text \<open>The fields a report fills have no separator in them.\<close>

definition plain_entry :: "au_entry \<Rightarrow> bool" where
  "plain_entry e \<longleftrightarrow>
     (\<forall>f\<in>{ae_time e, ae_token e, ae_host e, ae_change e, ae_result e, ae_detail e}. CHR ''|'' \<notin> set f)"

lemma Itoa_plain: "CHR ''|'' \<notin> set (Itoa n)"
  using Itoa_digits [of "CHR ''|''" n] by (auto simp: is_digit_def less_eq_char_def)

lemma payload_inj:
  assumes "plain_entry e" "plain_entry e'" "CHR ''|'' \<notin> set (ae_prev e)" "CHR ''|'' \<notin> set (ae_prev e')"
    "payload e = payload e'" "ae_hash e = ae_hash e'"
  shows "e = e'"
proof -
  let ?f = "\<lambda>e. [Itoa (ae_seq e), ae_prev e, ae_time e, ae_token e, ae_host e, ae_change e, ae_result e, ae_detail e]"
  have "SplitByte CHR ''|'' (payload x) = ?f x" if "plain_entry x" "CHR ''|'' \<notin> set (ae_prev x)" for x
    unfolding payload_def using that by (intro SplitByte_Join) (auto simp: plain_entry_def Itoa_plain)
  then have "?f e = ?f e'"
    using assms(1-5) by metis
  then show ?thesis
    using assms(6) Itoa_inj by (intro au_entry.equality) auto
qed

lemma split_nul: "p @ CHR 0x00 # x = q @ CHR 0x00 # y \<Longrightarrow> CHR 0x00 \<notin> set p \<Longrightarrow> CHR 0x00 \<notin> set q \<Longrightarrow> p = q \<and> x = y"
  by (induction p arbitrary: q) (case_tac q; auto)+

text \<open>
  The bytes that are hashed for an entry of a verified log, and two entries of the two
  logs at hand whose bytes differ but have the same sum.
\<close>

definition hashed :: "au_entry \<Rightarrow> string" where
  "hashed e = ae_prev e @ [CHR 0x00] @ payload e"

definition colliding :: "au_entry list \<Rightarrow> au_entry list \<Rightarrow> bool" where
  "colliding es es' \<longleftrightarrow> (\<exists>e\<in>set es. \<exists>e'\<in>set es'. hashed e \<noteq> hashed e' \<and> sha256 (hashed e) = sha256 (hashed e'))"

lemma chainHash_inj:
  assumes "chainHash (ae_prev e) e = chainHash (ae_prev e') e'" "CHR 0x00 \<notin> set (ae_prev e)" "CHR 0x00 \<notin> set (ae_prev e')"
    "\<not> colliding (es @ [e]) (es' @ [e'])"
  shows "ae_prev e = ae_prev e' \<and> payload e = payload e'"
proof -
  have "sha256 (hashed e) = sha256 (hashed e')"
    using assms(1) sha256_bytes by (auto simp: chainHash_def hashed_def intro!: hex_encode_inj)
  then have "ae_prev e @ CHR 0x00 # payload e = ae_prev e' @ CHR 0x00 # payload e'"
    using assms(4) by (auto simp: colliding_def hashed_def)
  then show ?thesis
    using split_nul assms(2,3) by blast
qed

lemma chain_prev_plain:
  assumes "verify_from 0 [] (es @ [e]) = None"
  shows "CHR 0x00 \<notin> set (ae_prev e) \<and> CHR ''|'' \<notin> set (ae_prev e)"
proof (cases "es = []")
  case False
  then obtain es' e' where es: "es = es' @ [e']"
    by (metis rev_exhaust)
  have "verify_from 0 [] es = None" "ae_prev e = ae_hash (last es)"
    using assms False by (simp_all add: verify_snoc)
  then have "ae_prev e = chainHash (ae_prev e') e'"
    unfolding es by (auto simp: verify_snoc)
  then show ?thesis
    using chainHash_plain by simp
qed (use assms in \<open>auto split: if_splits\<close>)

text \<open>
  C12. The log is tamper evident: two logs that both verify and end in the same hash
  are the same log, entry by entry, unless the two logs themselves hold a collision of
  SHA-256, an entry of the one and an entry of the other with different hashed bytes and
  the same sum (for entries whose fields do not contain the separator).
\<close>

theorem verified_log_unique:
  assumes "VerifyChain es = (-1, True)" "VerifyChain es' = (-1, True)" "es \<noteq> []" "es' \<noteq> []"
    "ae_hash (last es) = ae_hash (last es')" "\<forall>e\<in>set es \<union> set es'. plain_entry e"
  shows "es = es' \<or> colliding es es'"
proof -
  have "verify_from 0 [] es = None" "verify_from 0 [] es' = None"
    using assms(1,2) by (auto simp: VerifyChain_def split: option.splits)
  then have "\<not> colliding es es' \<Longrightarrow> es = es'"
    using assms(3-6)
  proof (induction es arbitrary: es' rule: rev_induct)
    case (snoc e es)
    obtain fs f where fs: "es' = fs @ [f]"
      using snoc.prems(5) by (metis rev_exhaust)
    have ef: "chainHash (ae_prev e) e = chainHash (ae_prev f) f" "ae_hash e = ae_hash f"
      using snoc.prems(2,3,6) fs by (auto simp: verify_snoc)
    have pe: "CHR 0x00 \<notin> set (ae_prev e) \<and> CHR ''|'' \<notin> set (ae_prev e)" "CHR 0x00 \<notin> set (ae_prev f) \<and> CHR ''|'' \<notin> set (ae_prev f)"
      using chain_prev_plain snoc.prems(2,3) fs by blast+
    then have "payload e = payload f"
      using chainHash_inj [OF ef(1)] snoc.prems(1) fs by blast
    then have same: "e = f"
      using payload_inj [of e f] pe snoc.prems(7) fs ef(2) by auto
    then have len: "length es = length fs"
      using snoc.prems(2,3) fs by (simp add: verify_snoc)
    show ?case
    proof (cases "es = []")
      case False
      then have "fs \<noteq> []" "ae_hash (last es) = ae_hash (last fs)"
        using len same snoc.prems(2,3) fs by (auto simp: verify_snoc)
      moreover have "\<not> colliding es fs"
        using snoc.prems(1) fs by (auto simp: colliding_def)
      ultimately have "es = fs"
        using snoc.IH [of fs] False snoc.prems(2,3,7) fs by (auto simp: verify_snoc)
      then show ?thesis
        using fs same by simp
    qed (use len same fs in simp)
  qed simp
  then show ?thesis
    by blast
qed


lemma RFC3339Nano_plain: "CHR ''|'' \<notin> set (RFC3339Nano t)"
proof -
  have p: "CHR ''|'' \<notin> set (pad_num w n)" for w n
    by (simp add: pad_num_def Itoa_plain)
  have "CHR ''|'' \<notin> set (fraction n)" for n
    using p [of 9 n] by (auto simp: fraction_def dest: set_dropWhileD)
  then show ?thesis
    using p by (simp add: RFC3339Nano_def Let_def split: prod.splits)
qed

definition plain_call :: "au_call \<Rightarrow> bool" where
  "plain_call c \<longleftrightarrow> (case c of (t, host, change, result, detail) \<Rightarrow> \<forall>f\<in>{host, change, result, detail}. CHR ''|'' \<notin> set f)"

lemma append_all_plain:
  "\<forall>c\<in>set cs. plain_call c \<Longrightarrow> CHR ''|'' \<notin> set (au_token a) \<Longrightarrow> \<forall>e\<in>set (au_sink a). plain_entry e \<Longrightarrow>
    \<forall>e\<in>set (au_sink (append_all cs a)). plain_entry e"
  unfolding append_all_def
proof (induction cs arbitrary: a)
  case (Cons c cs)
  obtain t host change result detail where c: "c = (t, host, change, result, detail)"
    by (metis prod_cases5)
  let ?a = "snd (Append t host change result detail a)"
  have "\<forall>e\<in>set (au_sink ?a). plain_entry e" "au_token ?a = au_token a"
    using Cons.prems c by (auto simp: Append_def Let_def plain_entry_def plain_call_def RFC3339Nano_plain)
  then show ?case
    using Cons.IH [of ?a] Cons.prems c by simp
qed simp

definition demo_calls :: "au_call list" where
  "demo_calls = [(0, ''edge'', ''create'', ''applied'', []), (second, ''edge'', ''edit'', ''dry-run'', [])]"

definition demo_log :: "au_entry list" where
  "demo_log = au_sink (append_all demo_calls (NewAudit ''tok''))"

theorem verified_log_unique_witness:
  "length demo_log = 2 \<and> (demo_log = demo_log \<or> colliding demo_log demo_log)"
proof -
  have "au_inv (append_all demo_calls (NewAudit ''tok''))"
    by (rule append_all_inv) (simp add: au_inv_def NewAudit_def)
  then have v: "VerifyChain demo_log = (-1, True)"
    by (simp add: demo_log_def au_inv_def VerifyChain_def)
  have "\<forall>e\<in>set demo_log. plain_entry e"
    unfolding demo_log_def by (rule append_all_plain) (auto simp: NewAudit_def plain_call_def demo_calls_def)
  moreover have "length demo_log = 2"
    by (simp add: demo_log_def append_all_def demo_calls_def Append_def Let_def NewAudit_def)
  ultimately have p: "length demo_log = 2 \<and> (\<forall>e\<in>set demo_log. plain_entry e)"
    by blast
  then have "demo_log \<noteq> []"
    by auto
  then show ?thesis
    using verified_log_unique [OF v v] p by blast
qed

text \<open>
  What the verifier does not see.  A log that was cut at the end verifies, and so
  does one in which a separator moved from one field to another: the joined fields,
  and with them the hash, stay the same.
\<close>

theorem truncated_log_verifies:
  assumes "VerifyChain es = (-1, True)"
  shows "VerifyChain (take n es) = (-1, True)"
proof -
  have "verify_from i p es = None \<Longrightarrow> verify_from i p (take n es) = None" for i p n
    by (induction es arbitrary: i p n) (auto simp: take_Cons split: if_splits nat.splits)
  then show ?thesis
    using assms by (auto simp: VerifyChain_def split: option.splits)
qed

theorem moved_separator_verifies:
  "VerifyChain [e\<lparr>ae_seq := 0, ae_prev := [], ae_host := ''a|b'', ae_change := ''c'', ae_hash := h\<rparr>] =
   VerifyChain [e\<lparr>ae_seq := 0, ae_prev := [], ae_host := ''a'', ae_change := ''b|c'', ae_hash := h\<rparr>]"
  by (simp add: VerifyChain_def chainHash_def payload_def)

end
