(* ===== verification/Ddns.thy ===== *)
theory Ddns
  imports Netmatch Model Ddns_Audit Token_Bucket
begin

text \<open>
  Package \<^verbatim>\<open>internal/ddns\<close>, file \<^verbatim>\<open>ddns.go\<close>: the writer that brings the Cloudflare records
  of a host in line with the public addresses it announced.

  The source of records is an argument: for a host it gives its records, or an error.
  So is the editor: it answers a call, after the calls made before it, with an error or
  with success; the calls are kept in order.  The writer handles one change at a time.
  A clock reading is an argument.  A float64 is an exact rational.
\<close>

section \<open>Data\<close>

record dd_change =
  ch_host :: string
  ch_addrs :: "addr list"

record dd_config =
  dc_enabled :: bool
  dc_dry_run :: bool
  dc_rate :: duration
  dc_eligible :: "(string, bool) gomap"
  dc_token_id :: string
  dc_global_burst :: int
  dc_global_refill :: duration

datatype dd_outcome =
    OutcomeDisabled | OutcomeNotEligible | OutcomeNoPublic | OutcomeUnchanged
  | OutcomeRateLimited | OutcomeDryRun | OutcomeApplied | OutcomeError

fun outcome_string :: "dd_outcome \<Rightarrow> string" where
  "outcome_string OutcomeDisabled = ''disabled''"
| "outcome_string OutcomeNotEligible = ''not-eligible''"
| "outcome_string OutcomeNoPublic = ''no-public-addrs''"
| "outcome_string OutcomeUnchanged = ''unchanged''"
| "outcome_string OutcomeRateLimited = ''rate-limited''"
| "outcome_string OutcomeDryRun = ''dry-run''"
| "outcome_string OutcomeApplied = ''applied''"
| "outcome_string OutcomeError = ''error''"

datatype dd_call =
    CallUpdate string string string nat string
  | CallCreate string string nat string
  | CallDelete string string

type_synonym dd_editor = "dd_call list \<Rightarrow> dd_call \<Rightarrow> string option"
type_synonym dd_source = "string \<Rightarrow> string + rr list"

record dd_plan =
  p_edits :: "(rr \<times> addr) list"
  p_creates :: "(string \<times> string \<times> addr) list"
  p_deletes :: "rr list"

section \<open>The token bucket\<close>

record dd_bucket =
  tb_cap :: rat
  tb_tokens :: rat
  tb_refill :: duration
  tb_last :: "time option"

definition mathMin :: "rat \<Rightarrow> rat \<Rightarrow> rat" where
  "mathMin a b = (if a < b then a else b)"

definition tb_allow :: "time \<Rightarrow> dd_bucket \<Rightarrow> bool \<times> dd_bucket" where
  "tb_allow now b =
     (if tb_refill b \<le> 0 then (True, b)
      else
        (let t = (case tb_last b of
                    None \<Rightarrow> tb_tokens b
                  | Some l \<Rightarrow> mathMin (tb_cap b) (tb_tokens b + of_int (now - l) / of_int (tb_refill b)));
             b1 = b\<lparr>tb_tokens := t, tb_last := Some now\<rparr> in
         if t \<ge> 1 then (True, b1\<lparr>tb_tokens := t - 1\<rparr>) else (False, b1)))"

section \<open>The writer\<close>

abbreviation (input) chanCap :: nat where "chanCap \<equiv> 64"

record dd_writer =
  w_cfg :: dd_config
  w_audit :: audit
  w_ch :: "dd_change list"
  w_last :: "(string, time) gomap"
  w_global :: "dd_bucket option"
  w_calls :: "dd_call list"

definition NewWriter :: "dd_config \<Rightarrow> time \<Rightarrow> dd_writer" where
  "NewWriter cfg now =
     (let cfg1 = (if dc_enabled cfg \<and> \<not> dc_dry_run cfg \<and> dc_eligible cfg = [] then cfg\<lparr>dc_dry_run := True\<rparr> else cfg) in
      \<lparr>w_cfg = cfg1, w_audit = NewAudit (dc_token_id cfg), w_ch = [], w_last = [],
       w_global = (if dc_global_burst cfg1 > 0 \<and> dc_global_refill cfg1 > 0
                   then Some \<lparr>tb_cap = of_int (dc_global_burst cfg1), tb_tokens = of_int (dc_global_burst cfg1),
                              tb_refill = dc_global_refill cfg1, tb_last = Some now\<rparr>
                   else None),
       w_calls = []\<rparr>)"

text \<open>A buffered channel of 64: the three selects that run under the submit lock.\<close>

definition Submit :: "dd_change \<Rightarrow> dd_writer \<Rightarrow> dd_writer" where
  "Submit c w =
     (if length (w_ch w) < chanCap then w\<lparr>w_ch := w_ch w @ [c]\<rparr>
      else
        (let w1 = w\<lparr>w_ch := tl (w_ch w)\<rparr> in
         if length (w_ch w1) < chanCap then w1\<lparr>w_ch := w_ch w1 @ [c]\<rparr> else w1))"

section \<open>Plans\<close>

definition normAddr :: "string \<Rightarrow> string" where
  "normAddr s = (case ParseAddr (TrimSpace s) of Some a \<Rightarrow> AddrString (Unmap a) | None \<Rightarrow> s)"

definition typeOf :: "addr \<Rightarrow> nat" where
  "typeOf a = (if Is4 a then TypeA else TypeAAAA)"

definition filterEligibleRecords :: "rr list \<Rightarrow> (string, bool) gomap \<Rightarrow> rr list" where
  "filterEligibleRecords rs allow =
     filter (\<lambda>r. \<not> rr_proxied r \<and> (rr_type r = TypeA \<or> rr_type r = TypeAAAA) \<and>
        (allow = [] \<or> gm_true allow (TrimSuffix (ToLower (rr_name r)) ''.''))) rs"

text \<open>The addresses of the announcement that are new, without repetition, and those wanted.\<close>

fun split_desired :: "string list \<Rightarrow> string list \<Rightarrow> addr list \<Rightarrow> addr list \<times> string list" where
  "split_desired cur seen [] = ([], seen)"
| "split_desired cur seen (a # as) =
     (let s = AddrString a in
      if s \<in> set seen then split_desired cur seen as
      else
        (let (added, seen') = split_desired cur (s # seen) as in
         ((if s \<in> set cur then added else a # added), seen')))"

text \<open>One address family: records to change in place, addresses to create, records to delete.\<close>

definition plan_family ::
    "string \<Rightarrow> string \<Rightarrow> addr list \<Rightarrow> rr list \<Rightarrow> dd_plan \<Rightarrow> dd_plan" where
  "plan_family zone_id name added0 deleted0 p =
     (let added = sort_key AddrString added0; deleted = sort_key rr_content deleted0;
          n = min (length added) (length deleted) in
      p\<lparr>p_edits := p_edits p @ zip (take n deleted) (take n added),
        p_creates := p_creates p @ map (\<lambda>a. (zone_id, name, a)) (drop n added),
        p_deletes := p_deletes p @ drop n deleted\<rparr>)"

definition buildPlan :: "rr list \<Rightarrow> addr list \<Rightarrow> dd_plan" where
  "buildPlan records desired =
     (let cur = map (\<lambda>r. normAddr (rr_content r)) records;
          (added, want) = split_desired cur [] desired;
          deleted = filter (\<lambda>r. normAddr (rr_content r) \<notin> set want) records;
          zone_id = rr_zone_id (hd records); name = rr_name (hd records) in
      plan_family zone_id name (filter Is6 added) (filter (\<lambda>r. rr_type r = TypeAAAA) deleted)
        (plan_family zone_id name (filter (\<lambda>a. \<not> Is6 a) added) (filter (\<lambda>r. rr_type r \<noteq> TypeAAAA) deleted)
          \<lparr>p_edits = [], p_creates = [], p_deletes = []\<rparr>))"

definition plan_empty :: "dd_plan \<Rightarrow> bool" where
  "plan_empty p \<longleftrightarrow> p_edits p = [] \<and> p_creates p = [] \<and> p_deletes p = []"

definition short :: "string \<Rightarrow> string" where
  "short s = (if length s > 8 then take 8 s else s)"

definition describe :: "dd_plan \<Rightarrow> string" where
  "describe p = TrimSpace
     (concat (map (\<lambda>(r, a). ''edit '' @ short (rr_zone_id r) @ '':'' @ short (rr_record_id r) @ '' '' @ rr_content r @
          ''->'' @ AddrString a @ ''; '') (p_edits p)) @
      concat (map (\<lambda>(z, n, a). ''create '' @ short z @ '':'' @ n @ '' +'' @ AddrString a @ ''; '') (p_creates p)) @
      concat (map (\<lambda>d. ''delete '' @ short (rr_zone_id d) @ '':'' @ short (rr_record_id d) @ '' -'' @ rr_content d @ ''; '')
          (p_deletes p)))"

section \<open>Carrying out a plan\<close>

definition plan_calls :: "dd_plan \<Rightarrow> dd_call list" where
  "plan_calls p =
     map (\<lambda>(r, a). CallUpdate (rr_zone_id r) (rr_record_id r) (rr_name r) (typeOf a) (AddrString a)) (p_edits p) @
     map (\<lambda>(z, n, a). CallCreate z n (typeOf a) (AddrString a)) (p_creates p) @
     map (\<lambda>d. CallDelete (rr_zone_id d) (rr_record_id d)) (p_deletes p)"

fun call_context :: "dd_call \<Rightarrow> string" where
  "call_context (CallUpdate z r n t c) = ''update '' @ z @ ''/'' @ r"
| "call_context (CallCreate z n t c) = ''create '' @ n @ '' '' @ c"
| "call_context (CallDelete z r) = ''delete '' @ z @ ''/'' @ r"

text \<open>The three loops of \<open>apply\<close>: the calls in order, up to the first error.\<close>

fun apply_calls :: "dd_editor \<Rightarrow> dd_call list \<Rightarrow> dd_call list \<Rightarrow> string option \<times> dd_call list" where
  "apply_calls ed [] calls = (None, calls)"
| "apply_calls ed (c # cs) calls =
     (case ed calls c of
        Some err \<Rightarrow> (Some (call_context c @ '': '' @ err), calls @ [c])
      | None \<Rightarrow> apply_calls ed cs (calls @ [c]))"

definition dd_apply :: "dd_editor \<Rightarrow> dd_plan \<Rightarrow> dd_writer \<Rightarrow> string option \<times> dd_writer" where
  "dd_apply ed p w =
     (let (err, calls) = apply_calls ed (plan_calls p) (w_calls w) in (err, w\<lparr>w_calls := calls\<rparr>))"

definition auditOutcome :: "time \<Rightarrow> string \<Rightarrow> dd_plan \<Rightarrow> dd_outcome \<Rightarrow> string \<Rightarrow> dd_writer \<Rightarrow> dd_writer" where
  "auditOutcome t host p oc detail w =
     w\<lparr>w_audit := snd (Append t host (describe p) (outcome_string oc) detail (w_audit w))\<rparr>"

definition public_addrs :: "addr list \<Rightarrow> addr list" where
  "public_addrs as = map Unmap (filter IsDDNSEligible as)"

text \<open>The two rate guards: the reason of a refusal, and the writer after them.\<close>

definition rate_guard :: "time \<Rightarrow> string \<Rightarrow> dd_writer \<Rightarrow> string option \<times> dd_writer" where
  "rate_guard now host w =
     (if dc_rate (w_cfg w) > 0 \<and>
         (case gm_get (w_last w) host of None \<Rightarrow> False | Some l \<Rightarrow> now - l < dc_rate (w_cfg w))
      then (Some ''per-host interval'', w)
      else
        (let (ok, g) = (case w_global w of
                          None \<Rightarrow> (True, None)
                        | Some b \<Rightarrow> (let (ok, b') = tb_allow now b in (ok, Some b')));
             w1 = w\<lparr>w_global := g\<rparr> in
         if \<not> ok then (Some ''global bucket'', w1) else (None, w1\<lparr>w_last := gm_set (w_last w1) host now\<rparr>)))"

definition write_plan :: "dd_editor \<Rightarrow> time \<Rightarrow> string \<Rightarrow> dd_plan \<Rightarrow> dd_writer \<Rightarrow> dd_outcome \<times> string option \<times> dd_writer" where
  "write_plan ed t host p w =
     (if dc_dry_run (w_cfg w) then (OutcomeDryRun, None, auditOutcome t host p OutcomeDryRun [] w)
      else
        (case dd_apply ed p w of
           (Some err, w1) \<Rightarrow> (OutcomeError, Some err, auditOutcome t host p OutcomeError err w1)
         | (None, w1) \<Rightarrow> (OutcomeApplied, None, auditOutcome t host p OutcomeApplied [] w1)))"

definition Reconcile ::
    "dd_source \<Rightarrow> dd_editor \<Rightarrow> time \<Rightarrow> dd_change \<Rightarrow> dd_writer \<Rightarrow> dd_outcome \<times> string option \<times> dd_writer" where
  "Reconcile src ed now c w =
     (if \<not> dc_enabled (w_cfg w) then (OutcomeDisabled, None, w)
      else
        (let host = ToLower (TrimSpace (ch_host c)); desired = public_addrs (ch_addrs c) in
         if desired = [] then (OutcomeNoPublic, None, w)
         else case src host of
           Inl err \<Rightarrow> (OutcomeError, Some (''record source: '' @ err), w)
         | Inr rs \<Rightarrow>
             (let records = filterEligibleRecords rs (dc_eligible (w_cfg w)) in
              if records = [] then (OutcomeNotEligible, None, w)
              else
                (let p = buildPlan records desired in
                 if plan_empty p then (OutcomeUnchanged, None, w)
                 else case rate_guard now host w of
                   (Some why, w1) \<Rightarrow> (OutcomeRateLimited, None, auditOutcome now host p OutcomeRateLimited why w1)
                 | (None, w1) \<Rightarrow> write_plan ed now host p w1))))"

text \<open>One turn of \<open>Run\<close> that finds a change in the queue.\<close>

definition run_one :: "dd_source \<Rightarrow> dd_editor \<Rightarrow> time \<Rightarrow> dd_writer \<Rightarrow> dd_writer" where
  "run_one src ed now w =
     (case w_ch w of
        [] \<Rightarrow> w
      | c # cs \<Rightarrow> snd (snd (Reconcile src ed now c (w\<lparr>w_ch := cs\<rparr>))))"

section \<open>Simulation\<close>

record sim_call =
  sc_op :: string
  sc_name :: string
  sc_type :: string
  sc_content :: string
  sc_old :: string

record sim_result =
  si_host :: string
  si_outcome :: string
  si_enabled :: bool
  si_dry_run :: bool
  si_override :: bool
  si_calls :: "sim_call list"

definition sim_calls :: "dd_plan \<Rightarrow> sim_call list" where
  "sim_calls p =
     map (\<lambda>(r, a). \<lparr>sc_op = ''update'', sc_name = rr_name r, sc_type = gm_str TypeToString (typeOf a),
            sc_content = AddrString a, sc_old = rr_content r\<rparr>) (p_edits p) @
     map (\<lambda>(z, n, a). \<lparr>sc_op = ''create'', sc_name = n, sc_type = gm_str TypeToString (typeOf a),
            sc_content = AddrString a, sc_old = []\<rparr>) (p_creates p) @
     map (\<lambda>d. \<lparr>sc_op = ''delete'', sc_name = rr_name d, sc_type = gm_str TypeToString (rr_type d),
            sc_content = [], sc_old = []\<rparr>) (p_deletes p)"

text \<open>The explanatory note of the result is left out.\<close>

definition Simulate :: "dd_config \<Rightarrow> dd_source \<Rightarrow> dd_change \<Rightarrow> bool \<Rightarrow> sim_result" where
  "Simulate cfg src c ignore_eligible =
     (let res = \<lparr>si_host = ToLower (TrimSpace (ch_host c)), si_outcome = [], si_enabled = dc_enabled cfg,
                 si_dry_run = (dc_dry_run cfg \<or> dc_enabled cfg \<and> dc_eligible cfg = []),
                 si_override = ignore_eligible, si_calls = []\<rparr>;
          desired = public_addrs (ch_addrs c) in
      if desired = [] then res\<lparr>si_outcome := outcome_string OutcomeNoPublic\<rparr>
      else case src (si_host res) of
        Inl err \<Rightarrow> res\<lparr>si_outcome := outcome_string OutcomeError\<rparr>
      | Inr rs \<Rightarrow>
          (let filtered = filterEligibleRecords rs (if ignore_eligible then [] else dc_eligible cfg) in
           if filtered = [] then res\<lparr>si_outcome := outcome_string OutcomeNotEligible\<rparr>
           else
             (let p = buildPlan filtered desired in
              if plan_empty p then res\<lparr>si_outcome := outcome_string OutcomeUnchanged\<rparr>
              else res\<lparr>si_outcome := ''would-apply'', si_calls := sim_calls p\<rparr>)))"

section \<open>The queue\<close>

lemma Submit_queue:
  "length (w_ch w) \<le> chanCap \<Longrightarrow> w_ch (Submit c w) = drop (length (w_ch w @ [c]) - chanCap) (w_ch w @ [c])"
  by (cases "w_ch w") (auto simp: Submit_def Let_def drop_Cons')

text \<open>
  Submitting never blocks and never loses the newest news: after any number of
  submissions the queue holds, in order, the last 64 of the changes that were waiting
  and were submitted.
\<close>

theorem queue_keeps_newest:
  assumes "length (w_ch w) \<le> chanCap"
  shows "w_ch (fold Submit cs w) = drop (length (w_ch w @ cs) - chanCap) (w_ch w @ cs)"
  using assms
proof (induction cs arbitrary: w)
  case (Cons c cs)
  have q: "w_ch (Submit c w) = drop (length (w_ch w @ [c]) - chanCap) (w_ch w @ [c])"
    using Submit_queue Cons.prems by blast
  moreover have "length (w_ch (Submit c w)) \<le> chanCap"
    using q by simp
  ultimately show ?case
    using Cons.IH [of "Submit c w"] Cons.prems
    by (cases "length (w_ch w) < chanCap") (auto simp: drop_Cons' not_less le_antisym)
qed simp

section \<open>What is written\<close>

definition writable :: "dd_config \<Rightarrow> rr \<Rightarrow> bool" where
  "writable cfg r \<longleftrightarrow> \<not> rr_proxied r \<and> (rr_type r = TypeA \<or> rr_type r = TypeAAAA) \<and>
     gm_true (dc_eligible cfg) (TrimSuffix (ToLower (rr_name r)) ''.'')"

text \<open>A call that touches only a record of the host that may be written, with a public address of the announcement.\<close>

fun lawful_call :: "dd_config \<Rightarrow> rr list \<Rightarrow> addr list \<Rightarrow> dd_call \<Rightarrow> bool" where
  "lawful_call cfg rs as (CallUpdate z i n t c) \<longleftrightarrow>
     (\<exists>r\<in>set rs. rr_zone_id r = z \<and> rr_record_id r = i \<and> rr_name r = n \<and> writable cfg r) \<and>
     (\<exists>a\<in>set as. IsDDNSEligible a \<and> t = typeOf (Unmap a) \<and> c = AddrString (Unmap a))"
| "lawful_call cfg rs as (CallCreate z n t c) \<longleftrightarrow>
     (\<exists>r\<in>set rs. rr_zone_id r = z \<and> rr_name r = n \<and> writable cfg r) \<and>
     (\<exists>a\<in>set as. IsDDNSEligible a \<and> t = typeOf (Unmap a) \<and> c = AddrString (Unmap a))"
| "lawful_call cfg rs as (CallDelete z i) \<longleftrightarrow>
     (\<exists>r\<in>set rs. rr_zone_id r = z \<and> rr_record_id r = i \<and> writable cfg r)"

lemma split_desired_added: "split_desired cur seen as = (added, want) \<Longrightarrow> set added \<subseteq> set as"
  by (induction as arbitrary: seen added want) (fastforce simp: Let_def split: if_splits prod.splits)+

lemma zip_take_set: "(a, b) \<in> set (zip (take n xs) (take n ys)) \<Longrightarrow> a \<in> set xs \<and> b \<in> set ys"
  by (meson in_set_takeD set_zip_leftD set_zip_rightD)

lemma plan_family_parts:
  "set (p_edits (plan_family z n as ds p)) \<subseteq> set (p_edits p) \<union> set ds \<times> set as"
  "set (p_creates (plan_family z n as ds p)) \<subseteq> set (p_creates p) \<union> {(z, n, a) | a. a \<in> set as}"
  "set (p_deletes (plan_family z n as ds p)) \<subseteq> set (p_deletes p) \<union> set ds"
  by (auto simp: plan_family_def Let_def dest!: zip_take_set in_set_dropD)

lemma buildPlan_parts:
  assumes "rs \<noteq> []"
  shows "set (p_edits (buildPlan rs as)) \<subseteq> set rs \<times> set as"
    "set (p_creates (buildPlan rs as)) \<subseteq> {(rr_zone_id (hd rs), rr_name (hd rs), a) | a. a \<in> set as}"
    "set (p_deletes (buildPlan rs as)) \<subseteq> set rs"
proof -
  obtain added want where s: "split_desired (map (\<lambda>r. normAddr (rr_content r)) rs) [] as = (added, want)"
    by (metis surj_pair)
  let ?z = "rr_zone_id (hd rs)" and ?n = "rr_name (hd rs)"
  let ?ds = "filter (\<lambda>r. normAddr (rr_content r) \<notin> set want) rs"
  let ?p0 = "\<lparr>p_edits = [], p_creates = [], p_deletes = []\<rparr>"
  let ?p4 = "plan_family ?z ?n (filter (\<lambda>a. \<not> Is6 a) added) (filter (\<lambda>r. rr_type r \<noteq> TypeAAAA) ?ds) ?p0"
  have b: "buildPlan rs as = plan_family ?z ?n (filter Is6 added) (filter (\<lambda>r. rr_type r = TypeAAAA) ?ds) ?p4"
    using s by (simp add: buildPlan_def Let_def)
  have sub: "set added \<subseteq> set as"
    using split_desired_added [OF s] .
  note f6 = plan_family_parts [of ?z ?n "filter Is6 added" "filter (\<lambda>r. rr_type r = TypeAAAA) ?ds" ?p4]
  note f4 = plan_family_parts [of ?z ?n "filter (\<lambda>a. \<not> Is6 a) added" "filter (\<lambda>r. rr_type r \<noteq> TypeAAAA) ?ds" ?p0]
  show "set (p_edits (buildPlan rs as)) \<subseteq> set rs \<times> set as"
    unfolding b by (rule order_trans [OF f6(1)]) (use f4(1) sub in auto)
  show "set (p_creates (buildPlan rs as)) \<subseteq> {(?z, ?n, a) | a. a \<in> set as}"
    unfolding b by (rule order_trans [OF f6(2)]) (use f4(2) sub in auto)
  show "set (p_deletes (buildPlan rs as)) \<subseteq> set rs"
    unfolding b by (rule order_trans [OF f6(3)]) (use f4(3) in auto)
qed

lemma apply_calls_prefix:
  "apply_calls ed cs calls = (err, calls') \<Longrightarrow> \<exists>new. calls' = calls @ new \<and> set new \<subseteq> set cs \<and> (err = None \<longrightarrow> new = cs)"
proof (induction ed cs calls arbitrary: err calls' rule: apply_calls.induct)
  case (2 ed c cs calls)
  show ?case
  proof (cases "ed calls c")
    case None
    then obtain new where "calls' = (calls @ [c]) @ new" "set new \<subseteq> set cs" "err = None \<longrightarrow> new = cs"
      using 2 by auto
    then show ?thesis by (intro exI [of _ "c # new"]) auto
  qed (use 2 in auto)
qed auto

lemma rate_guard_keeps:
  "rate_guard now host w = (why, w') \<Longrightarrow> w_cfg w' = w_cfg w \<and> w_calls w' = w_calls w \<and> w_ch w' = w_ch w \<and> w_audit w' = w_audit w"
  by (auto simp: rate_guard_def Let_def split: if_splits option.splits prod.splits)

lemma auditOutcome_keeps [simp]:
  "w_cfg (auditOutcome t h p oc d w) = w_cfg w" "w_calls (auditOutcome t h p oc d w) = w_calls w"
  "w_ch (auditOutcome t h p oc d w) = w_ch w" "w_last (auditOutcome t h p oc d w) = w_last w"
  "w_global (auditOutcome t h p oc d w) = w_global w"
  by (simp_all add: auditOutcome_def)

text \<open>How a reconciliation can end: nothing written, or a plan carried out as far as the editor let it.\<close>

lemma Reconcile_cases:
  assumes "Reconcile src ed now c w = (oc, err, w')"
  obtains (quiet) "w' = w" | (limited) why w1 where "rate_guard now (ToLower (TrimSpace (ch_host c))) w = (Some why, w1)"
      "w_calls w' = w_calls w" "w_last w' = w_last w1" "w_global w' = w_global w1" "w_cfg w' = w_cfg w"
  | (plan) rs w1 new where "dc_enabled (w_cfg w)" "src (ToLower (TrimSpace (ch_host c))) = Inr rs"
      "filterEligibleRecords rs (dc_eligible (w_cfg w)) \<noteq> []"
      "rate_guard now (ToLower (TrimSpace (ch_host c))) w = (None, w1)" "w_last w' = w_last w1" "w_global w' = w_global w1"
      "w_cfg w' = w_cfg w" "w_calls w' = w_calls w @ new" "new \<noteq> [] \<longrightarrow> \<not> dc_dry_run (w_cfg w)"
      "set new \<subseteq> set (plan_calls (buildPlan (filterEligibleRecords rs (dc_eligible (w_cfg w))) (public_addrs (ch_addrs c))))"
proof -
  let ?h = "ToLower (TrimSpace (ch_host c))" and ?d = "public_addrs (ch_addrs c)"
  consider "w' = w" | rs where "dc_enabled (w_cfg w)" "src ?h = Inr rs" "?d \<noteq> []"
      "filterEligibleRecords rs (dc_eligible (w_cfg w)) \<noteq> []"
      "\<not> plan_empty (buildPlan (filterEligibleRecords rs (dc_eligible (w_cfg w))) ?d)"
    using assms by (auto simp: Reconcile_def Let_def split: if_splits sum.splits)
  then show ?thesis
  proof cases
    case 2
    let ?rs = "filterEligibleRecords rs (dc_eligible (w_cfg w))"
    let ?p = "buildPlan ?rs ?d"
    obtain why w1 where g: "rate_guard now ?h w = (why, w1)"
      by (metis surj_pair)
    note keep = rate_guard_keeps [OF g]
    show ?thesis
    proof (cases why)
      case (Some x)
      then have "w' = auditOutcome now ?h ?p OutcomeRateLimited x w1"
        using assms 2 g by (simp add: Reconcile_def Let_def)
      then show ?thesis
        using limited Some g keep by simp
    next
      case None
      then have r: "write_plan ed now ?h ?p w1 = (oc, err, w')"
        using assms 2 g by (simp add: Reconcile_def Let_def)
      obtain e calls where a: "apply_calls ed (plan_calls ?p) (w_calls w1) = (e, calls)"
        by (metis surj_pair)
      obtain new where n: "calls = w_calls w1 @ new" "set new \<subseteq> set (plan_calls ?p)"
        using apply_calls_prefix [OF a] by blast
      show ?thesis
        using plan [OF 2(1,2,4) g [unfolded None], of "if dc_dry_run (w_cfg w) then [] else new"] r a n keep
        by (auto simp: write_plan_def dd_apply_def split: if_splits option.splits)
    qed
  qed (rule quiet)
qed

lemma plan_calls_lawful:
  assumes rs: "rs' = filterEligibleRecords rs (dc_eligible cfg)" "rs' \<noteq> []" and el: "dc_eligible cfg \<noteq> []"
    and k: "k \<in> set (plan_calls (buildPlan rs' (public_addrs as)))"
  shows "lawful_call cfg rs as k"
proof -
  have w: "r \<in> set rs \<and> writable cfg r" if "r \<in> set rs'" for r
    using that rs(1) el by (auto simp: filterEligibleRecords_def writable_def)
  have p: "\<exists>a\<in>set as. IsDDNSEligible a \<and> b = Unmap a" if "b \<in> set (public_addrs as)" for b
    using that by (auto simp: public_addrs_def)
  note parts = buildPlan_parts [OF rs(2), of "public_addrs as"]
  have hd: "hd rs' \<in> set rs'"
    using rs(2) by simp
  consider (u) r a where "(r, a) \<in> set (p_edits (buildPlan rs' (public_addrs as)))"
      "k = CallUpdate (rr_zone_id r) (rr_record_id r) (rr_name r) (typeOf a) (AddrString a)"
    | (c) z n a where "(z, n, a) \<in> set (p_creates (buildPlan rs' (public_addrs as)))" "k = CallCreate z n (typeOf a) (AddrString a)"
    | (d) r where "r \<in> set (p_deletes (buildPlan rs' (public_addrs as)))" "k = CallDelete (rr_zone_id r) (rr_record_id r)"
    using k by (auto simp: plan_calls_def)
  then show ?thesis
  proof cases
    case u
    then have "r \<in> set rs'" "a \<in> set (public_addrs as)"
      using parts(1) by auto
    then show ?thesis
      using u(2) w [of r] p [of a] by fastforce
  next
    case c
    then have "z = rr_zone_id (hd rs')" "n = rr_name (hd rs')" "a \<in> set (public_addrs as)"
      using parts(2) by auto
    then show ?thesis
      using c(2) w [OF hd] p [of a] by fastforce
  next
    case d
    then show ?thesis
      using parts(3) w [of r] by fastforce
  qed
qed

text \<open>
  C4. Nothing reaches Cloudflare that policy does not allow.  Whatever is announced and
  whatever the record source and the editor answer, a reconciliation calls the editor
  only when the writer is enabled, not in dry-run and has a non-empty allowlist; every
  call touches a record of that host that is not proxied, is an A or AAAA record and
  whose name is on the allowlist; and every address written is a public address of the
  announcement, with the record type of its family.
\<close>

theorem writes_follow_policy:
  assumes "w_cfg w = w_cfg (NewWriter cfg t0)" "Reconcile src ed now c w = (oc, err, w')"
  shows "\<exists>new. w_calls w' = w_calls w @ new \<and>
    (new \<noteq> [] \<longrightarrow> dc_enabled cfg \<and> \<not> dc_dry_run cfg \<and> dc_eligible cfg \<noteq> [] \<and>
      (\<exists>rs. src (ToLower (TrimSpace (ch_host c))) = Inr rs \<and> (\<forall>k\<in>set new. lawful_call cfg rs (ch_addrs c) k)))"
  using assms(2)
proof (cases rule: Reconcile_cases)
  case (plan rs w1 new)
  have e: "dc_enabled (w_cfg w) = dc_enabled cfg" "dc_eligible (w_cfg w) = dc_eligible cfg"
    using assms(1) by (simp_all add: NewWriter_def Let_def)
  have d: "\<not> dc_dry_run (w_cfg w) \<Longrightarrow> dc_enabled cfg \<Longrightarrow> \<not> dc_dry_run cfg \<and> dc_eligible cfg \<noteq> []"
    using assms(1) by (auto simp: NewWriter_def Let_def split: if_splits)
  show ?thesis
  proof (intro exI [of _ new] conjI impI)
    show "w_calls w' = w_calls w @ new"
      by (rule plan)
    assume "new \<noteq> []"
    then show ok: "dc_enabled cfg" "\<not> dc_dry_run cfg" "dc_eligible cfg \<noteq> []"
      using plan(1,9) d e by auto
    show "\<exists>rs. src (ToLower (TrimSpace (ch_host c))) = Inr rs \<and> (\<forall>k\<in>set new. lawful_call cfg rs (ch_addrs c) k)"
      using plan(2,3,10) plan_calls_lawful [OF refl _ ok(3), where rs = rs and as = "ch_addrs c"] unfolding e by (meson subsetD)
  qed
qed auto

section \<open>What the plan achieves\<close>

definition set_address :: "rr \<Rightarrow> addr \<Rightarrow> rr" where
  "set_address r a = r\<lparr>rr_type := typeOf a, rr_content := AddrString a\<rparr>"

definition created_record :: "string \<times> string \<times> addr \<Rightarrow> rr" where
  "created_record = (\<lambda>(z, n, a). zero_rr\<lparr>rr_zone_id := z, rr_name := n, rr_type := typeOf a, rr_content := AddrString a\<rparr>)"

text \<open>The records after the calls of a plan have succeeded, by the documented meaning of the calls.\<close>

definition plan_result :: "rr list \<Rightarrow> dd_plan \<Rightarrow> rr list" where
  "plan_result rs p =
     map (\<lambda>r. case map_of (map (\<lambda>(x, a). (rr_record_id x, a)) (p_edits p)) (rr_record_id r) of
                Some a \<Rightarrow> set_address r a | None \<Rightarrow> r)
       (filter (\<lambda>r. rr_record_id r \<notin> rr_record_id ` set (p_deletes p)) rs) @
     map created_record (p_creates p)"

text \<open>A record holds an address, in whatever notation, and the addresses records hold.\<close>

definition holds :: "rr \<Rightarrow> string \<Rightarrow> bool" where
  "holds r s \<longleftrightarrow> rr_content r = s \<or> normAddr (rr_content r) = s"

lemma split_desired_spec:
  "split_desired cur seen as = (added, want) \<Longrightarrow>
     set want = set seen \<union> AddrString ` set as \<and>
     AddrString ` set added = (AddrString ` set as - set seen) - set cur"
proof (induction as arbitrary: seen added want)
  case (Cons a as)
  show ?case
  proof (cases "AddrString a \<in> set seen")
    case True
    then show ?thesis
      using Cons.IH [of seen added want] Cons.prems by (auto simp: Let_def)
  next
    case False
    obtain added' where a: "split_desired cur (AddrString a # seen) as = (added', want)"
      "added = (if AddrString a \<in> set cur then added' else a # added')"
      using Cons.prems False by (auto simp: Let_def split: prod.splits)
    show ?thesis
      using Cons.IH [OF a(1)] False a(2) by auto
  qed
qed simp

lemma family_edits:
  "AddrString ` (snd ` set (p_edits (plan_family z n as ds p)) \<union> (\<lambda>(_, _, a). a) ` set (p_creates (plan_family z n as ds p))) =
     AddrString ` (snd ` set (p_edits p) \<union> (\<lambda>(_, _, a). a) ` set (p_creates p)) \<union> AddrString ` set as"
  "fst ` set (p_edits (plan_family z n as ds p)) \<union> set (p_deletes (plan_family z n as ds p)) =
     fst ` set (p_edits p) \<union> set (p_deletes p) \<union> set ds"
proof -
  let ?a = "sort_key AddrString as" and ?d = "sort_key rr_content ds"
  let ?n = "min (length as) (length ds)"
  have z: "snd ` set (zip (take ?n ?d) (take ?n ?a)) = set (take ?n ?a)" "fst ` set (zip (take ?n ?d) (take ?n ?a)) = set (take ?n ?d)"
    by (simp_all flip: set_map)
  have t: "set (take ?n ?a) \<union> set (drop ?n ?a) = set as" "set (take ?n ?d) \<union> set (drop ?n ?d) = set ds"
    by (metis append_take_drop_id set_append set_sort)+
  show "AddrString ` (snd ` set (p_edits (plan_family z n as ds p)) \<union> (\<lambda>(_, _, a). a) ` set (p_creates (plan_family z n as ds p))) =
     AddrString ` (snd ` set (p_edits p) \<union> (\<lambda>(_, _, a). a) ` set (p_creates p)) \<union> AddrString ` set as"
    using z t(1) by (simp add: plan_family_def Let_def image_Un image_image) blast
  show "fst ` set (p_edits (plan_family z n as ds p)) \<union> set (p_deletes (plan_family z n as ds p)) =
     fst ` set (p_edits p) \<union> set (p_deletes p) \<union> set ds"
    using z t(2) by (simp add: plan_family_def Let_def image_Un) blast
qed

lemma buildPlan_covers:
  fixes as
  assumes "rs \<noteq> []"
  defines "p \<equiv> buildPlan rs as" and "cur \<equiv> (\<lambda>r. normAddr (rr_content r)) ` set rs"
  shows "AddrString ` (snd ` set (p_edits p) \<union> (\<lambda>(_, _, a). a) ` set (p_creates p)) = AddrString ` set as - cur"
    "fst ` set (p_edits p) \<union> set (p_deletes p) = {r \<in> set rs. normAddr (rr_content r) \<notin> AddrString ` set as}"
proof -
  obtain added want where s: "split_desired (map (\<lambda>r. normAddr (rr_content r)) rs) [] as = (added, want)"
    by (metis surj_pair)
  let ?z = "rr_zone_id (hd rs)" and ?n = "rr_name (hd rs)"
  let ?ds = "filter (\<lambda>r. normAddr (rr_content r) \<notin> set want) rs"
  let ?p0 = "\<lparr>p_edits = [], p_creates = [], p_deletes = []\<rparr>"
  let ?p4 = "plan_family ?z ?n (filter (\<lambda>a. \<not> Is6 a) added) (filter (\<lambda>r. rr_type r \<noteq> TypeAAAA) ?ds) ?p0"
  have b: "p = plan_family ?z ?n (filter Is6 added) (filter (\<lambda>r. rr_type r = TypeAAAA) ?ds) ?p4"
    using s by (simp add: p_def buildPlan_def Let_def)
  note spec = split_desired_spec [OF s]
  have "AddrString ` (snd ` set (p_edits p) \<union> (\<lambda>(_, _, a). a) ` set (p_creates p)) = AddrString ` set added"
    unfolding b family_edits(1) by auto
  then show "AddrString ` (snd ` set (p_edits p) \<union> (\<lambda>(_, _, a). a) ` set (p_creates p)) = AddrString ` set as - cur"
    using spec by (simp add: cur_def)
  have "fst ` set (p_edits p) \<union> set (p_deletes p) = set ?ds"
    unfolding b family_edits(2) by auto
  then show "fst ` set (p_edits p) \<union> set (p_deletes p) = {r \<in> set rs. normAddr (rr_content r) \<notin> AddrString ` set as}"
    using spec by auto
qed

text \<open>No record is edited twice or edited and deleted.\<close>

lemma family_distinct:
  assumes "distinct (map fst (p_edits p) @ p_deletes p)" "distinct ds" "set ds \<inter> (fst ` set (p_edits p) \<union> set (p_deletes p)) = {}"
  shows "distinct (map fst (p_edits (plan_family z n as ds p)) @ p_deletes (plan_family z n as ds p))"
proof -
  let ?d = "sort_key rr_content ds" and ?a = "sort_key AddrString as"
  let ?n = "min (length as) (length ds)"
  have f: "map fst (zip (take ?n ?d) (take ?n ?a)) = take ?n ?d"
    by simp
  have "set (take ?n ?d) \<inter> set (drop ?n ?d) = {}"
    using assms(2) by (intro set_take_disj_set_drop_if_distinct) simp_all
  moreover have "set (take ?n ?d) \<subseteq> set ds" "set (drop ?n ?d) \<subseteq> set ds"
    using set_take_subset [of ?n ?d] set_drop_subset [of ?n ?d] by simp_all
  ultimately show ?thesis
    using assms f by (auto simp: plan_family_def Let_def)
qed

lemma buildPlan_distinct:
  assumes "distinct rs"
  shows "distinct (map fst (p_edits (buildPlan rs as)) @ p_deletes (buildPlan rs as))"
proof -
  obtain added want where s: "split_desired (map (\<lambda>r. normAddr (rr_content r)) rs) [] as = (added, want)"
    by (metis surj_pair)
  let ?z = "rr_zone_id (hd rs)" and ?n = "rr_name (hd rs)"
  let ?ds = "filter (\<lambda>r. normAddr (rr_content r) \<notin> set want) rs"
  let ?d4 = "filter (\<lambda>r. rr_type r \<noteq> TypeAAAA) ?ds" and ?d6 = "filter (\<lambda>r. rr_type r = TypeAAAA) ?ds"
  let ?p0 = "\<lparr>p_edits = [], p_creates = [], p_deletes = []\<rparr>"
  let ?p4 = "plan_family ?z ?n (filter (\<lambda>a. \<not> Is6 a) added) ?d4 ?p0"
  have "distinct (map fst (p_edits ?p4) @ p_deletes ?p4)"
    using assms by (intro family_distinct) auto
  moreover have "fst ` set (p_edits ?p4) \<union> set (p_deletes ?p4) = set ?d4"
    unfolding family_edits(2) by simp
  ultimately have "distinct (map fst (p_edits (plan_family ?z ?n (filter Is6 added) ?d6 ?p4)) @
      p_deletes (plan_family ?z ?n (filter Is6 added) ?d6 ?p4))"
    using assms by (intro family_distinct) auto
  then show ?thesis
    using s by (simp add: buildPlan_def Let_def)
qed

lemma edits_by_id:
  assumes ids: "distinct (map rr_record_id rs)" and es: "distinct (map fst es)" "fst ` set es \<subseteq> set rs"
  defines "m \<equiv> map_of (map (\<lambda>(x, a). (rr_record_id x, a)) es)"
  shows "(r, a) \<in> set es \<Longrightarrow> m (rr_record_id r) = Some a"
    "r \<in> set rs \<Longrightarrow> r \<notin> fst ` set es \<Longrightarrow> m (rr_record_id r) = None"
proof -
  have inj: "inj_on rr_record_id (set rs)"
    using ids by (simp add: distinct_map)
  have "distinct (map rr_record_id (map fst es))"
    using es inj by (subst distinct_map) (auto intro: inj_on_subset)
  then have "distinct (map fst (map (\<lambda>(x, a). (rr_record_id x, a)) es))"
    by (simp add: case_prod_unfold comp_def)
  then show "(r, a) \<in> set es \<Longrightarrow> m (rr_record_id r) = Some a"
    unfolding m_def by (intro map_of_is_SomeI) (auto simp: rev_image_eqI)
  show "m (rr_record_id r) = None" if r: "r \<in> set rs" "r \<notin> fst ` set es"
  proof -
    have "rr_record_id r \<notin> rr_record_id ` fst ` set es"
      using r es(2) inj by (auto dest!: inj_onD)
    then show ?thesis
      by (auto simp: m_def map_of_eq_None_iff case_prod_unfold image_image)
  qed
qed

lemma plan_result_set:
  assumes "rs \<noteq> []" "distinct (map rr_record_id rs)"
  shows "set (plan_result rs (buildPlan rs as)) =
    {r \<in> set rs. normAddr (rr_content r) \<in> AddrString ` set as} \<union>
    (\<lambda>(r, a). set_address r a) ` set (p_edits (buildPlan rs as)) \<union> created_record ` set (p_creates (buildPlan rs as))"
proof -
  let ?p = "buildPlan rs as"
  let ?m = "map_of (map (\<lambda>(x, a). (rr_record_id x, a)) (p_edits ?p))"
  let ?upd = "\<lambda>r. case ?m (rr_record_id r) of Some a \<Rightarrow> set_address r a | None \<Rightarrow> r"
  let ?kept = "{r \<in> set rs. rr_record_id r \<notin> rr_record_id ` set (p_deletes ?p)}"
  note c = buildPlan_covers(2) [OF assms(1), of as]
  have inj: "inj_on rr_record_id (set rs)" and "distinct rs"
    using assms(2) by (simp_all add: distinct_map)
  then have dist: "distinct (map fst (p_edits ?p))" "fst ` set (p_edits ?p) \<inter> set (p_deletes ?p) = {}"
    using buildPlan_distinct [of rs as] by auto
  have sub: "fst ` set (p_edits ?p) \<subseteq> set rs" "set (p_deletes ?p) \<subseteq> set rs"
    using c by auto
  note ed = edits_by_id [OF assms(2) dist(1) sub(1)]
  have "?kept = set rs - set (p_deletes ?p)"
    using sub(2) inj by (auto dest: inj_onD)
  then have "?kept = fst ` set (p_edits ?p) \<union> {r \<in> set rs. normAddr (rr_content r) \<in> AddrString ` set as}"
    using c dist(2) sub by auto
  moreover have "?upd ` fst ` set (p_edits ?p) = (\<lambda>(r, a). set_address r a) ` set (p_edits ?p)"
    unfolding image_image by (rule image_cong) (auto simp: ed(1))
  moreover have "?upd r = r" if "r \<in> {r \<in> set rs. normAddr (rr_content r) \<in> AddrString ` set as}" for r
    using that ed(2) [of r] c by auto
  ultimately have "?upd ` ?kept = {r \<in> set rs. normAddr (rr_content r) \<in> AddrString ` set as} \<union>
      (\<lambda>(r, a). set_address r a) ` set (p_edits ?p)"
    by (simp add: image_Un Un_commute)
  then show ?thesis
    by (simp add: plan_result_def)
qed

lemma holds_written: "holds (set_address r a) (AddrString a)" "holds (created_record (z, n, a)) (AddrString a)"
  by (simp_all add: holds_def set_address_def created_record_def)

lemma plan_result_sound:
  assumes "rs \<noteq> []" "distinct (map rr_record_id rs)" and r: "r \<in> set (plan_result rs (buildPlan rs as))"
  shows "\<exists>a\<in>set as. holds r (AddrString a)"
proof -
  let ?p = "buildPlan rs as"
  note res = plan_result_set [OF assms(1,2), of as]
  note c = buildPlan_covers(1) [OF assms(1), of as]
  note ed = holds_written
  have w: "AddrString b \<in> AddrString ` set as"
    if "b \<in> snd ` set (p_edits ?p) \<union> (\<lambda>(_, _, a). a) ` set (p_creates ?p)" for b
    using that c by blast
  consider "normAddr (rr_content r) \<in> AddrString ` set as" | x b where "(x, b) \<in> set (p_edits ?p)" "r = set_address x b"
    | z n b where "(z, n, b) \<in> set (p_creates ?p)" "r = created_record (z, n, b)"
    using r unfolding res by auto
  then have "\<exists>s\<in>AddrString ` set as. holds r s"
  proof cases
    case 1
    then show ?thesis by (auto simp: holds_def)
  next
    case 2
    have "b \<in> snd ` set (p_edits ?p)"
      using 2(1) by force
    then show ?thesis
      using ed(1) [of x b] w [of b] 2(2) by blast
  next
    case 3
    have "b \<in> (\<lambda>(_, _, a). a) ` set (p_creates ?p)"
      using 3(1) by force
    then show ?thesis
      using ed(2) [of z n b] w [of b] 3(2) by blast
  qed
  then show ?thesis by auto
qed

lemma plan_result_complete:
  assumes "rs \<noteq> []" "distinct (map rr_record_id rs)" and a: "a \<in> set as"
  shows "\<exists>r\<in>set (plan_result rs (buildPlan rs as)). holds r (AddrString a)"
proof (cases "AddrString a \<in> (\<lambda>r. normAddr (rr_content r)) ` set rs")
  case True
  then obtain r where r: "r \<in> set rs" "normAddr (rr_content r) = AddrString a"
    by auto
  then have "r \<in> set (plan_result rs (buildPlan rs as))"
    using a unfolding plan_result_set [OF assms(1,2), of as] by auto
  then show ?thesis
    using r(2) by (auto simp: holds_def)
next
  case False
  then have "AddrString a \<in> AddrString ` (snd ` set (p_edits (buildPlan rs as)) \<union> (\<lambda>(_, _, a). a) ` set (p_creates (buildPlan rs as)))"
    using buildPlan_covers(1) [OF assms(1), of as] a by blast
  then consider r b where "(r, b) \<in> set (p_edits (buildPlan rs as))" "AddrString b = AddrString a"
    | z n b where "(z, n, b) \<in> set (p_creates (buildPlan rs as))" "AddrString b = AddrString a"
    by force
  then show ?thesis
  proof cases
    case 1
    then have "set_address r b \<in> set (plan_result rs (buildPlan rs as))"
      unfolding plan_result_set [OF assms(1,2), of as] by force
    then show ?thesis
      using holds_written(1) [of r b] 1(2) by metis
  next
    case 2
    then have "created_record (z, n, b) \<in> set (plan_result rs (buildPlan rs as))"
      unfolding plan_result_set [OF assms(1,2), of as] by blast
    then show ?thesis
      using holds_written(2) [of z n b] 2(2) by metis
  qed
qed

text \<open>
  C31. One reconciliation converges: when the calls of the plan succeed, the records of
  the host hold exactly the announced public addresses: every record holds one of
  them, each of them is held by a record, and a record that already held one is left
  alone.  (The record identifiers are distinct, as Cloudflare's are.)
\<close>

theorem plan_converges:
  assumes "rs \<noteq> []" "distinct (map rr_record_id rs)"
  shows "(\<forall>r\<in>set (plan_result rs (buildPlan rs as)). \<exists>a\<in>set as. holds r (AddrString a)) \<and>
    (\<forall>a\<in>set as. \<exists>r\<in>set (plan_result rs (buildPlan rs as)). holds r (AddrString a)) \<and>
    (\<forall>r\<in>set rs. normAddr (rr_content r) \<in> AddrString ` set as \<longrightarrow> r \<in> set (plan_result rs (buildPlan rs as)))"
proof (intro conjI ballI impI)
  show "r \<in> set (plan_result rs (buildPlan rs as))" if "r \<in> set rs" "normAddr (rr_content r) \<in> AddrString ` set as" for r
    using that unfolding plan_result_set [OF assms, of as] by blast
qed (use plan_result_sound plan_result_complete assms in blast)+

section \<open>How often is written\<close>

definition tb_level :: "dd_bucket \<Rightarrow> time \<Rightarrow> rat" where
  "tb_level b t =
     (case tb_last b of
        None \<Rightarrow> tb_tokens b
      | Some l \<Rightarrow> min (tb_cap b) (tb_tokens b + of_int (t - l) / of_int (tb_refill b)))"

definition tb_used :: "rat \<Rightarrow> duration \<Rightarrow> dd_bucket \<Rightarrow> time \<Rightarrow> bool" where
  "tb_used cap refill b t \<longleftrightarrow> tb_cap b = cap \<and> tb_refill b = refill \<and> 0 \<le> tb_tokens b \<and> tb_tokens b \<le> cap \<and>
     (\<exists>l\<le>t. tb_last b = Some l)"

lemma mathMin_min: "mathMin a b = min a b"
  by (auto simp: mathMin_def min_def)

lemma tb_allow_level:
  assumes "tb_used cap refill b t" "0 < refill"
  shows "tb_allow t b =
    (1 \<le> tb_level b t, b\<lparr>tb_tokens := tb_level b t - (if 1 \<le> tb_level b t then 1 else 0), tb_last := Some t\<rparr>)"
  using assms by (auto simp: tb_allow_def tb_level_def tb_used_def mathMin_min Let_def)

lemma refill_split:
  fixes r :: int
  assumes "0 < r"
  shows "(of_int (t' - l) :: rat) / of_int r = of_int (t - l) / of_int r + 1 / of_int r * of_int (t' - t)"
proof -
  have "(of_int (t' - l) :: rat) = of_int (t - l) + of_int (t' - t)"
    by simp
  then show ?thesis
    by (simp only: add_divide_distrib) simp
qed

lemma tb_laws:
  assumes "0 \<le> cap" "0 < refill"
  shows "token_bucket tb_allow tb_level (tb_used cap refill) (1 / of_int refill) cap"
proof
  show "0 \<le> (1 :: rat) / of_int refill"
    using assms by simp
  show nn: "0 \<le> tb_level b t" if "tb_used cap refill b t" for b t
    using that assms by (auto simp: tb_level_def tb_used_def)
  show lb: "tb_level b t \<le> cap" if "tb_used cap refill b t" for b t
    using that by (auto simp: tb_level_def tb_used_def)
  show "tb_level b t' = min cap (tb_level b t + 1 / of_int refill * of_int (t' - t))"
    if u: "tb_used cap refill b t" and t: "t \<le> t'" for b t t'
  proof -
    obtain l where l: "tb_last b = Some l" "tb_cap b = cap" "tb_refill b = refill"
      using u by (auto simp: tb_used_def)
    have "0 \<le> 1 / (of_int refill :: rat) * of_int (t' - t)"
      using assms t by simp
    moreover have "tb_level b u = min cap (tb_tokens b + of_int (u - l) / of_int refill)" for u
      using l by (simp add: tb_level_def)
    moreover note refill_split [OF assms(2), of t' l t]
    ultimately show ?thesis
      by (auto simp: min_def)
  qed
  show "tb_used cap refill b t'" if "tb_used cap refill b t" "t \<le> t'" for b t t'
    using that by (auto simp: tb_used_def)
  show "tb_used cap refill (snd (tb_allow t b)) t" if "tb_used cap refill b t" for b t
    using nn [OF that] lb [OF that] that by (auto simp: tb_allow_level [OF that assms(2)] tb_used_def)
  show "fst (tb_allow t b) \<longleftrightarrow> 1 \<le> tb_level b t" if "tb_used cap refill b t" for b t
    by (simp add: tb_allow_level [OF that assms(2)])
  show "tb_level (snd (tb_allow t b)) t = tb_level b t - (if fst (tb_allow t b) then 1 else 0)" if "tb_used cap refill b t" for b t
    using lb [OF that] that by (simp add: tb_allow_level [OF that assms(2)]) (auto simp: tb_level_def tb_used_def)
qed

text \<open>A sequence of reconciliations, and the host and time of each that called the editor.\<close>

record dd_job =
  j_src :: dd_source
  j_ed :: dd_editor
  j_now :: time
  j_change :: dd_change

fun run_jobs :: "dd_job list \<Rightarrow> dd_writer \<Rightarrow> (string \<times> time) list \<times> dd_writer" where
  "run_jobs [] w = ([], w)"
| "run_jobs (j # js) w =
     (let w' = snd (snd (Reconcile (j_src j) (j_ed j) (j_now j) (j_change j) w));
          (ws, w'') = run_jobs js w' in
      ((if w_calls w' = w_calls w then [] else [(ToLower (TrimSpace (ch_host (j_change j))), j_now j)]) @ ws, w''))"

definition bucket_ok :: "dd_config \<Rightarrow> time list \<Rightarrow> dd_bucket option \<Rightarrow> time \<Rightarrow> bool" where
  "bucket_ok cfg em g now \<longleftrightarrow>
     (case g of
        None \<Rightarrow> \<not> (dc_global_burst cfg > 0 \<and> dc_global_refill cfg > 0)
      | Some b \<Rightarrow> dc_global_burst cfg > 0 \<and> dc_global_refill cfg > 0 \<and>
          token_bucket.window_ok tb_level (tb_used (of_int (dc_global_burst cfg)) (dc_global_refill cfg))
            (1 / of_int (dc_global_refill cfg)) (of_int (dc_global_burst cfg)) em b now)"

definition writes_ok :: "dd_config \<Rightarrow> (string \<times> time) list \<Rightarrow> dd_writer \<Rightarrow> time \<Rightarrow> bool" where
  "writes_ok cfg ws w now \<longleftrightarrow> w_cfg w = cfg \<and> bucket_ok cfg (map snd ws) (w_global w) now \<and>
     (\<forall>(h, t)\<in>set ws. t \<le> now \<and> (\<exists>t'\<ge>t. gm_get (w_last w) h = Some t')) \<and>
     sorted_wrt (\<lambda>(h, t) (h', t'). h = h' \<longrightarrow> dc_rate cfg \<le> t' - t) ws"

lemma bucket_advance: "bucket_ok cfg em g now \<Longrightarrow> now \<le> now' \<Longrightarrow> bucket_ok cfg em g now'"
  using token_bucket.window_advance [OF tb_laws]
  by (auto simp: bucket_ok_def split: option.splits)

lemma bucket_step:
  assumes "bucket_ok cfg em (Some b) now"
  shows "bucket_ok cfg em (Some (snd (tb_allow now b))) now"
    "fst (tb_allow now b) \<Longrightarrow> bucket_ok cfg (em @ [now]) (Some (snd (tb_allow now b))) now"
proof -
  have p: "0 < dc_global_burst cfg" "0 < dc_global_refill cfg" and
    w: "token_bucket.window_ok tb_level (tb_used (of_int (dc_global_burst cfg)) (dc_global_refill cfg))
            (1 / of_int (dc_global_refill cfg)) (of_int (dc_global_burst cfg)) em b now"
    using assms by (simp_all add: bucket_ok_def)
  have laws: "token_bucket tb_allow tb_level (tb_used (of_int (dc_global_burst cfg)) (dc_global_refill cfg))
      (1 / of_int (dc_global_refill cfg)) (of_int (dc_global_burst cfg))"
    by (rule tb_laws) (use p in simp_all)
  show "bucket_ok cfg em (Some (snd (tb_allow now b))) now"
    using token_bucket.window_denied [OF laws w] p by (simp add: bucket_ok_def)
  show "fst (tb_allow now b) \<Longrightarrow> bucket_ok cfg (em @ [now]) (Some (snd (tb_allow now b))) now"
    using token_bucket.window_allow [OF laws w] p by (simp add: bucket_ok_def)
qed

lemma rate_guard_denied:
  assumes "rate_guard now host w = (Some why, w1)" "bucket_ok cfg em (w_global w) now"
  shows "w_last w1 = w_last w \<and> bucket_ok cfg em (w_global w1) now"
proof (cases "w_global w")
  case None
  then show ?thesis
    using assms by (auto simp: rate_guard_def Let_def split: if_splits)
next
  case (Some b)
  then have "w_global w1 = Some b \<or> w_global w1 = Some (snd (tb_allow now b))" "w_last w1 = w_last w"
    using assms(1) by (auto simp: rate_guard_def Let_def split: if_splits prod.splits)
  then show ?thesis
    using assms(2) bucket_step(1) Some by auto
qed

lemma rate_guard_passed:
  assumes "rate_guard now host w = (None, w1)" "bucket_ok cfg em (w_global w) now"
  shows "w_last w1 = gm_set (w_last w) host now" "bucket_ok cfg (em @ [now]) (w_global w1) now" "bucket_ok cfg em (w_global w1) now"
    "dc_rate (w_cfg w) > 0 \<Longrightarrow> gm_get (w_last w) host = Some l \<Longrightarrow> dc_rate (w_cfg w) \<le> now - l"
proof -
  show "w_last w1 = gm_set (w_last w) host now"
    using assms(1) by (auto simp: rate_guard_def Let_def split: if_splits option.splits prod.splits)
  have "bucket_ok cfg (em @ [now]) (w_global w1) now \<and> bucket_ok cfg em (w_global w1) now"
  proof (cases "w_global w")
    case None
    then show ?thesis
      using assms by (auto simp: rate_guard_def Let_def bucket_ok_def split: if_splits)
  next
    case (Some b)
    then have "w_global w1 = Some (snd (tb_allow now b))" "fst (tb_allow now b)"
      using assms(1) by (auto simp: rate_guard_def Let_def split: if_splits prod.splits)
    then show ?thesis
      using assms(2) bucket_step Some by simp
  qed
  then show "bucket_ok cfg (em @ [now]) (w_global w1) now" "bucket_ok cfg em (w_global w1) now"
    by blast+
  show "dc_rate (w_cfg w) > 0 \<Longrightarrow> gm_get (w_last w) host = Some l \<Longrightarrow> dc_rate (w_cfg w) \<le> now - l"
    using assms(1) by (auto simp: rate_guard_def Let_def split: if_splits)
qed

lemma writes_step:
  assumes inv: "writes_ok cfg ws w t" and t: "t \<le> now" and r: "Reconcile src ed now c w = (oc, err, w')"
  shows "writes_ok cfg (ws @ (if w_calls w' = w_calls w then [] else [(ToLower (TrimSpace (ch_host c)), now)])) w' now"
proof -
  let ?h = "ToLower (TrimSpace (ch_host c))"
  have b: "bucket_ok cfg (map snd ws) (w_global w) now" and cfg: "w_cfg w = cfg"
    and past: "\<forall>(h, u)\<in>set ws. u \<le> now \<and> (\<exists>t'\<ge>u. gm_get (w_last w) h = Some t')"
    and sp: "sorted_wrt (\<lambda>(h, t) (h', t'). h = h' \<longrightarrow> dc_rate cfg \<le> t' - t) ws"
    using inv t bucket_advance unfolding writes_ok_def by fastforce+
  show ?thesis
    using r
  proof (cases rule: Reconcile_cases)
    case quiet
    then show ?thesis
      using b cfg past sp by (simp add: writes_ok_def)
  next
    case (limited why w1)
    then show ?thesis
      using b cfg past sp rate_guard_denied [OF limited(1) b] by (simp add: writes_ok_def)
  next
    case (plan rs w1 new)
    note g = rate_guard_passed [OF plan(4) b]
    have past': "\<forall>(h, u)\<in>set ws. u \<le> now \<and> (\<exists>t'\<ge>u. gm_get (w_last w') h = Some t')"
      using past g(1) plan(5) by (auto simp: update_conv)
    show ?thesis
    proof (cases "new = []")
      case True
      then show ?thesis
        using plan g(3) cfg past' sp by (simp add: writes_ok_def)
    next
      case False
      have "dc_rate cfg \<le> now - u" if u: "(?h, u) \<in> set ws" for u
      proof (cases "dc_rate cfg > 0")
        case True
        obtain l where l: "gm_get (w_last w) ?h = Some l" "u \<le> l"
          using past u by auto
        then show ?thesis
          using g(4) [of l] True cfg by simp
      qed (use past u in auto)
      then have "sorted_wrt (\<lambda>(h, t) (h', t'). h = h' \<longrightarrow> dc_rate cfg \<le> t' - t) (ws @ [(?h, now)])"
        using sp by (auto simp: sorted_wrt_append)
      moreover have "gm_get (w_last w') ?h = Some now"
        using plan(5) g(1) by (simp add: update_conv)
      ultimately show ?thesis
        using False plan g(2) cfg past' by (simp add: writes_ok_def)
    qed
  qed
qed

lemma run_jobs_ok:
  "writes_ok cfg ws w t \<Longrightarrow> sorted (t # map j_now js) \<Longrightarrow> run_jobs js w = (ws', w') \<Longrightarrow>
    writes_ok cfg (ws @ ws') w' (last (t # map j_now js))"
proof (induction js arbitrary: ws w t ws')
  case (Cons j js)
  obtain oc err w1 where r: "Reconcile (j_src j) (j_ed j) (j_now j) (j_change j) w = (oc, err, w1)"
    by (metis prod_cases3)
  obtain ws2 where ws2: "run_jobs js w1 = (ws2, w')"
    "ws' = (if w_calls w1 = w_calls w then [] else [(ToLower (TrimSpace (ch_host (j_change j))), j_now j)]) @ ws2"
    using Cons.prems(3) r by (auto simp: Let_def split: prod.splits)
  have "sorted (j_now j # map j_now js)" "t \<le> j_now j"
    using Cons.prems(2) by auto
  then show ?case
    using Cons.IH [OF writes_step [OF Cons.prems(1) _ r] _ ws2(1)] ws2(2) by simp
qed simp

text \<open>
  C32. Write bursts are rate limited: over any sequence of announcements with
  non-decreasing times, two bursts of calls for one host are at least the configured
  interval apart; and when the global limit is configured, the number of bursts since
  any time is at most the burst plus one per refill interval.
\<close>

theorem writes_rate_limited:
  assumes "sorted (t0 # map j_now js)" "run_jobs js (NewWriter cfg t0) = (ws, w)"
  shows "sorted_wrt (\<lambda>(h, t) (h', t'). h = h' \<longrightarrow> dc_rate cfg \<le> t' - t) ws \<and>
    (dc_global_burst cfg > 0 \<and> dc_global_refill cfg > 0 \<and> t1 \<le> last (t0 # map j_now js) \<longrightarrow>
      of_nat (spent (map snd ws) t1) \<le>
        (of_int (dc_global_burst cfg) + 1 / of_int (dc_global_refill cfg) * of_int (last (t0 # map j_now js) - t1) :: rat))"
proof -
  let ?cfg = "w_cfg (NewWriter cfg t0)" and ?fin = "last (t0 # map j_now js)"
  have c: "dc_rate ?cfg = dc_rate cfg" "dc_global_burst ?cfg = dc_global_burst cfg" "dc_global_refill ?cfg = dc_global_refill cfg"
    by (simp_all add: NewWriter_def Let_def)
  have laws: "token_bucket tb_allow tb_level (tb_used (of_int (dc_global_burst cfg)) (dc_global_refill cfg))
      (1 / of_int (dc_global_refill cfg)) (of_int (dc_global_burst cfg))"
    if "dc_global_burst cfg > 0" "dc_global_refill cfg > 0"
    by (rule tb_laws) (use that in simp_all)
  have "bucket_ok ?cfg [] (w_global (NewWriter cfg t0)) t0"
    unfolding bucket_ok_def c
    using token_bucket.window_new [OF laws] by (auto simp: NewWriter_def Let_def tb_used_def)
  then have "writes_ok ?cfg [] (NewWriter cfg t0) t0"
    by (simp add: writes_ok_def)
  then have ok: "writes_ok ?cfg ws w ?fin"
    using run_jobs_ok assms by (metis append_Nil)
  have "of_nat (spent (map snd ws) t1) \<le>
      (of_int (dc_global_burst cfg) + 1 / of_int (dc_global_refill cfg) * of_int (?fin - t1) :: rat)"
    if l: "dc_global_burst cfg > 0" "dc_global_refill cfg > 0" and t1: "t1 \<le> ?fin"
  proof -
    obtain b where "token_bucket.window_ok tb_level (tb_used (of_int (dc_global_burst cfg)) (dc_global_refill cfg))
            (1 / of_int (dc_global_refill cfg)) (of_int (dc_global_burst cfg)) (map snd ws) b ?fin"
      using ok l unfolding writes_ok_def bucket_ok_def c by (auto split: option.splits)
    then show ?thesis
      using token_bucket.window_bound [OF laws [OF l] _ t1] by blast
  qed
  then show ?thesis
    using ok c unfolding writes_ok_def by auto
qed

section \<open>The simulator and the writer\<close>

text \<open>
  A call of the writer and the line that shows it; the records of the host, as read,
  tell the name, type and content of the record that an update or a deletion names.
\<close>

fun shows_call :: "rr list \<Rightarrow> dd_call \<Rightarrow> sim_call \<Rightarrow> bool" where
  "shows_call rs (CallUpdate z r n t c) s \<longleftrightarrow>
     sc_op s = ''update'' \<and> sc_name s = n \<and> sc_type s = gm_str TypeToString t \<and> sc_content s = c \<and>
     (\<exists>d\<in>set rs. rr_zone_id d = z \<and> rr_record_id d = r \<and> rr_name d = n \<and> sc_old s = rr_content d)"
| "shows_call rs (CallCreate z n t c) s \<longleftrightarrow>
     sc_op s = ''create'' \<and> sc_name s = n \<and> sc_type s = gm_str TypeToString t \<and> sc_content s = c"
| "shows_call rs (CallDelete z r) s \<longleftrightarrow>
     sc_op s = ''delete'' \<and>
     (\<exists>d\<in>set rs. rr_zone_id d = z \<and> rr_record_id d = r \<and> sc_name s = rr_name d \<and> sc_type s = gm_str TypeToString (rr_type d))"

lemma sim_calls_shown:
  assumes "\<And>r a. (r, a) \<in> set (p_edits p) \<Longrightarrow> r \<in> set rs" "set (p_deletes p) \<subseteq> set rs"
  shows "list_all2 (shows_call rs) (plan_calls p) (sim_calls p)"
proof -
  have "list_all2 (shows_call rs)
      (map (\<lambda>(r, a). CallUpdate (rr_zone_id r) (rr_record_id r) (rr_name r) (typeOf a) (AddrString a)) (p_edits p))
      (map (\<lambda>(r, a). \<lparr>sc_op = ''update'', sc_name = rr_name r, sc_type = gm_str TypeToString (typeOf a),
            sc_content = AddrString a, sc_old = rr_content r\<rparr>) (p_edits p))"
    by (auto simp: list_all2_map1 list_all2_map2 intro!: list.rel_refl_strong bexI [OF _ assms(1)])
  moreover have "list_all2 (shows_call rs)
      (map (\<lambda>(z, n, a). CallCreate z n (typeOf a) (AddrString a)) (p_creates p))
      (map (\<lambda>(z, n, a). \<lparr>sc_op = ''create'', sc_name = n, sc_type = gm_str TypeToString (typeOf a),
            sc_content = AddrString a, sc_old = []\<rparr>) (p_creates p))"
    by (auto simp: list_all2_map1 list_all2_map2 intro!: list.rel_refl_strong)
  moreover have "list_all2 (shows_call rs)
      (map (\<lambda>d. CallDelete (rr_zone_id d) (rr_record_id d)) (p_deletes p))
      (map (\<lambda>d. \<lparr>sc_op = ''delete'', sc_name = rr_name d, sc_type = gm_str TypeToString (rr_type d),
            sc_content = [], sc_old = []\<rparr>) (p_deletes p))"
    using assms(2) by (auto simp: list_all2_map1 list_all2_map2 intro!: list.rel_refl_strong)
  ultimately show ?thesis
    unfolding plan_calls_def sim_calls_def by (intro list_all2_appendI)
qed

lemma apply_calls_accepted: "(\<And>cs c. ed cs c = None) \<Longrightarrow> apply_calls ed ks calls = (None, calls @ ks)"
  by (induction ks arbitrary: calls) auto

lemma write_plan_accepted:
  assumes "\<And>cs c. ed cs c = None" "write_plan ed t h p w = (oc, err, w')"
  shows "(if dc_dry_run (w_cfg w) then oc = OutcomeDryRun \<and> w_calls w' = w_calls w
          else oc = OutcomeApplied \<and> w_calls w' = w_calls w @ plan_calls p) \<and> err = None"
  using assms by (auto simp: write_plan_def dd_apply_def apply_calls_accepted auditOutcome_def split: if_splits)

text \<open>
  C33. The simulator is honest about the writer.  For an enabled writer whose rate guards let
  the change through and whose editor accepts every call, the simulation of a change
  shows the outcome of its reconciliation: "would-apply" when it is applied or would be
  but for the dry run it reports, and the outcome itself otherwise; and when the
  reconciliation is real, the calls it makes are the calls shown, in order, with the
  names, types and contents of the records they change.
\<close>

theorem simulate_predicts:
  assumes "w_cfg w = w_cfg (NewWriter cfg t0)" "dc_enabled cfg" "\<And>cs k. ed cs k = None"
    and "fst (rate_guard now (ToLower (TrimSpace (ch_host c))) w) = None"
    and "Reconcile src ed now c w = (oc, err, w')"
  shows "let s = Simulate cfg src c False in
    si_outcome s = (if oc \<in> {OutcomeApplied, OutcomeDryRun} then ''would-apply'' else outcome_string oc) \<and>
    (oc = OutcomeDryRun \<longleftrightarrow> si_outcome s = ''would-apply'' \<and> si_dry_run s) \<and>
    (\<exists>new. w_calls w' = w_calls w @ new \<and>
       (if oc = OutcomeApplied
        then \<exists>rs. src (ToLower (TrimSpace (ch_host c))) = Inr rs \<and> list_all2 (shows_call rs) new (si_calls s)
        else new = []))"
proof -
  let ?h = "ToLower (TrimSpace (ch_host c))" and ?d = "public_addrs (ch_addrs c)"
  have e: "dc_enabled (w_cfg w)" "dc_eligible (w_cfg w) = dc_eligible cfg"
    "dc_dry_run (w_cfg w) \<longleftrightarrow> dc_dry_run cfg \<or> dc_enabled cfg \<and> dc_eligible cfg = []"
    using assms(1,2) by (auto simp: NewWriter_def Let_def)
  obtain w1 where g: "rate_guard now ?h w = (None, w1)"
    using assms(4) by (metis prod.collapse)
  have k: "w_cfg w1 = w_cfg w" "w_calls w1 = w_calls w"
    using rate_guard_keeps [OF g] by simp_all
  consider (early) "w' = w" "oc \<notin> {OutcomeApplied, OutcomeDryRun}"
      "si_outcome (Simulate cfg src c False) = outcome_string oc" "si_outcome (Simulate cfg src c False) \<noteq> ''would-apply''"
    | (plan) rs p where "src ?h = Inr rs" "filterEligibleRecords rs (dc_eligible cfg) \<noteq> []" "p = buildPlan (filterEligibleRecords rs (dc_eligible cfg)) ?d"
      "write_plan ed now ?h p w1 = (oc, err, w')"
      "si_outcome (Simulate cfg src c False) = ''would-apply''" "si_calls (Simulate cfg src c False) = sim_calls p"
    using assms(2,5) e(1,2) g
    by (auto simp: Reconcile_def Simulate_def Let_def split: if_splits sum.splits)
  then show ?thesis
  proof cases
    case early
    then show ?thesis by (auto simp: Let_def)
  next
    case plan
    have d: "si_dry_run (Simulate cfg src c False) \<longleftrightarrow> dc_dry_run (w_cfg w)"
      using e(3) by (auto simp: Simulate_def Let_def split: sum.splits)
    have "set (filterEligibleRecords rs (dc_eligible cfg)) \<subseteq> set rs"
      by (auto simp: filterEligibleRecords_def)
    then have "list_all2 (shows_call rs) (plan_calls p) (sim_calls p)"
      using buildPlan_parts(1,3) [OF plan(2), of ?d] unfolding plan(3) by (intro sim_calls_shown) auto
    then show ?thesis
      using write_plan_accepted [OF assms(3) plan(4)] d plan(1,5,6) k
      by (auto simp: Let_def split: if_splits)
  qed
qed

section \<open>A concrete writer\<close>

definition demo_record :: "string \<Rightarrow> string \<Rightarrow> string \<Rightarrow> rr" where
  "demo_record zone rid content =
     zero_rr\<lparr>rr_name := ''h.example.com.'', rr_type := TypeA, rr_content := content, rr_zone_id := zone, rr_record_id := rid\<rparr>"

definition demo_records :: dd_source where
  "demo_records h = (if h = ''h.example.com'' then Inr [demo_record ''z1'' ''r1'' ''8.8.8.8''] else Inl ''no such host'')"

definition demo_config :: dd_config where
  "demo_config = \<lparr>dc_enabled = True, dc_dry_run = False, dc_rate = minute, dc_eligible = [(''h.example.com'', True)],
     dc_token_id = ''tok'', dc_global_burst = 2, dc_global_refill = hour\<rparr>"

definition demo_change :: dd_change where
  "demo_change = \<lparr>ch_host = ''H.example.com '', ch_addrs = [Addr4 0x09090909, Addr4 0xC0A80101]\<rparr>"

abbreviation (input) demo_writer :: dd_writer where "demo_writer \<equiv> NewWriter demo_config 0"

lemma Reconcile_applies:
  assumes "dc_enabled (w_cfg w)" "\<not> dc_dry_run (w_cfg w)" "h = ToLower (TrimSpace (ch_host c))" "src h = Inr rs"
    and "p = buildPlan (filterEligibleRecords rs (dc_eligible (w_cfg w))) (public_addrs (ch_addrs c))"
    and "public_addrs (ch_addrs c) \<noteq> []" "filterEligibleRecords rs (dc_eligible (w_cfg w)) \<noteq> []" "\<not> plan_empty p"
    and "fst (rate_guard now h w) = None" "\<And>cs k. ed cs k = None"
  shows "fst (Reconcile src ed now c w) = OutcomeApplied"
    "w_calls (snd (snd (Reconcile src ed now c w))) = w_calls w @ plan_calls p"
proof -
  obtain w1 where g: "rate_guard now h w = (None, w1)"
    using assms(9) by (metis prod.collapse)
  obtain oc err w' where wp: "write_plan ed now h p w1 = (oc, err, w')"
    by (metis prod_cases3)
  have r: "Reconcile src ed now c w = (oc, err, w')"
    using assms(1-8) g wp by (simp add: Reconcile_def Let_def)
  show "fst (Reconcile src ed now c w) = OutcomeApplied"
    "w_calls (snd (snd (Reconcile src ed now c w))) = w_calls w @ plan_calls p"
    using write_plan_accepted [OF assms(10) wp] rate_guard_keeps [OF g] assms(2) r by simp_all
qed

lemma demo_parts:
  "ToLower (TrimSpace (ch_host demo_change)) = ''h.example.com''"
  "public_addrs (ch_addrs demo_change) = [Addr4 0x09090909]"
  "filterEligibleRecords [demo_record ''z1'' ''r1'' ''8.8.8.8''] (dc_eligible (w_cfg demo_writer)) = [demo_record ''z1'' ''r1'' ''8.8.8.8'']"
  "plan_empty (buildPlan [demo_record ''z1'' ''r1'' ''8.8.8.8''] [Addr4 0x09090909]) = False"
  "plan_calls (buildPlan [demo_record ''z1'' ''r1'' ''8.8.8.8''] [Addr4 0x09090909]) =
     [CallUpdate ''z1'' ''r1'' ''h.example.com.'' TypeA ''9.9.9.9'']"
  "fst (rate_guard 5 ''h.example.com'' demo_writer) = None"
  by code_simp+

lemma demo_run:
  "fst (Reconcile demo_records (\<lambda>_ _. None) 5 demo_change demo_writer) = OutcomeApplied"
  "w_calls (snd (snd (Reconcile demo_records (\<lambda>_ _. None) 5 demo_change demo_writer))) =
     [CallUpdate ''z1'' ''r1'' ''h.example.com.'' TypeA ''9.9.9.9'']"
proof -
  have c: "dc_enabled (w_cfg demo_writer)" "\<not> dc_dry_run (w_cfg demo_writer)" "w_calls demo_writer = []"
    by (simp_all add: NewWriter_def demo_config_def)
  note r = Reconcile_applies [OF c(1,2) demo_parts(1) [symmetric], of demo_records "[demo_record ''z1'' ''r1'' ''8.8.8.8'']",
      OF _ refl, where now = 5 and ed = "\<lambda>_ _. None"]
  show "fst (Reconcile demo_records (\<lambda>_ _. None) 5 demo_change demo_writer) = OutcomeApplied"
    "w_calls (snd (snd (Reconcile demo_records (\<lambda>_ _. None) 5 demo_change demo_writer))) =
     [CallUpdate ''z1'' ''r1'' ''h.example.com.'' TypeA ''9.9.9.9'']"
    using r c(3) unfolding demo_parts by (simp_all add: demo_records_def)
qed

theorem queue_keeps_newest_witness:
  "length (w_ch demo_writer) \<le> chanCap \<and>
   w_ch (fold Submit (replicate 70 demo_change) demo_writer) = replicate 64 demo_change"
proof -
  have "w_ch demo_writer = []"
    by (simp add: NewWriter_def Let_def)
  then show ?thesis
    using queue_keeps_newest [of demo_writer "replicate 70 demo_change"] by (simp add: drop_replicate)
qed

theorem writes_follow_policy_witness:
  "w_calls (snd (snd (Reconcile demo_records (\<lambda>_ _. None) 5 demo_change demo_writer))) \<noteq> [] \<and>
   lawful_call demo_config [demo_record ''z1'' ''r1'' ''8.8.8.8''] (ch_addrs demo_change)
     (CallUpdate ''z1'' ''r1'' ''h.example.com.'' TypeA ''9.9.9.9'')"
proof -
  obtain oc err w' where r: "Reconcile demo_records (\<lambda>_ _. None) 5 demo_change demo_writer = (oc, err, w')"
    by (metis prod_cases3)
  have "w_calls demo_writer = []" "demo_records ''h.example.com'' = Inr [demo_record ''z1'' ''r1'' ''8.8.8.8'']"
    by (simp_all add: NewWriter_def Let_def demo_records_def)
  then show ?thesis
    using writes_follow_policy [OF refl r] demo_run(2) demo_parts(1) r by auto
qed

theorem plan_converges_witness:
  "distinct (map rr_record_id [demo_record ''z1'' ''r1'' ''8.8.8.8'']) \<and>
   (\<exists>r\<in>set (plan_result [demo_record ''z1'' ''r1'' ''8.8.8.8'']
        (buildPlan [demo_record ''z1'' ''r1'' ''8.8.8.8''] [Addr4 0x09090909])). holds r ''9.9.9.9'')"
proof -
  have "AddrString (Addr4 0x09090909) = ''9.9.9.9''"
    by code_simp
  then show ?thesis
    using plan_converges [of "[demo_record ''z1'' ''r1'' ''8.8.8.8'']" "[Addr4 0x09090909]"] by fastforce
qed

theorem simulate_predicts_witness:
  "si_outcome (Simulate demo_config demo_records demo_change False) = ''would-apply'' \<and>
   list_all2 (shows_call [demo_record ''z1'' ''r1'' ''8.8.8.8'']) [CallUpdate ''z1'' ''r1'' ''h.example.com.'' TypeA ''9.9.9.9'']
     (si_calls (Simulate demo_config demo_records demo_change False))"
proof -
  obtain oc err w' where r: "Reconcile demo_records (\<lambda>_ _. None) 5 demo_change demo_writer = (oc, err, w')"
    by (metis prod_cases3)
  have c: "dc_enabled demo_config" "w_calls demo_writer = []"
    by (simp_all add: NewWriter_def Let_def demo_config_def)
  show ?thesis
    using simulate_predicts [OF refl c(1) _ _ r] demo_parts(1,6) demo_run r c(2) by (auto simp: Let_def demo_records_def)
qed

theorem writes_rate_limited_witness:
  "let j = \<lparr>j_src = demo_records, j_ed = (\<lambda>_ _. None), j_now = 5, j_change = demo_change\<rparr> in
   sorted (0 # map j_now [j, j]) \<and> fst (run_jobs [j] demo_writer) = [(''h.example.com'', 5)] \<and>
   sorted_wrt (\<lambda>(h, t) (h', t'). h = h' \<longrightarrow> minute \<le> t' - t) (fst (run_jobs [j, j] demo_writer))"
proof -
  let ?j = "\<lparr>j_src = demo_records, j_ed = (\<lambda>_ _. None), j_now = 5, j_change = demo_change\<rparr>"
  have c: "dc_rate demo_config = minute" "w_calls demo_writer = []"
    by (simp_all add: NewWriter_def Let_def demo_config_def)
  have "sorted_wrt (\<lambda>(h, t) (h', t'). h = h' \<longrightarrow> minute \<le> t' - t) (fst (run_jobs [?j, ?j] demo_writer))"
    using writes_rate_limited [of 0 "[?j, ?j]" demo_config "fst (run_jobs [?j, ?j] demo_writer)" "snd (run_jobs [?j, ?j] demo_writer)" 0]
    unfolding c(1) by simp
  moreover have "fst (run_jobs [?j] demo_writer) = [(''h.example.com'', 5)]"
    using demo_run(2) demo_parts(1) c(2) by (simp add: Let_def)
  ultimately show ?thesis
    by (simp add: Let_def)
qed

text \<open>
  The plan joins the records of a host in every zone: with the same name in two zones,
  a record of each, and one announced address, the record of one zone is updated and
  the record of the other zone is deleted.
\<close>

theorem second_zone_loses_record:
  "plan_calls (buildPlan [demo_record ''z1'' ''r1'' ''8.8.4.4'', demo_record ''z2'' ''r2'' ''8.8.8.8''] [Addr4 0x09090909]) =
     [CallUpdate ''z1'' ''r1'' ''h.example.com.'' TypeA ''9.9.9.9'', CallDelete ''z2'' ''r2'']"
  by code_simp

end
