(* ===== verification/Cfapi.thy ===== *)
theory Cfapi
  imports Ddns
begin

text \<open>
  Package \<^verbatim>\<open>internal/cfapi\<close>: the Cloudflare client.  The service is an argument: it answers a
  request with an error of the transport, or with a status and a body, which is an
  envelope or cannot be decoded as one.  The decoding of a result (encoding/json) is an
  argument too.  A listing that never ends is the value None.
\<close>

section \<open>Requests and responses\<close>

datatype cf_method = MethodGet | MethodPost | MethodPatch | MethodDelete

record cf_body =
  cb_type :: string
  cb_name :: string
  cb_content :: string
  cb_ttl :: nat
  cb_proxied :: bool

record cf_request =
  cq_method :: cf_method
  cq_path :: string
  cq_query :: "(string \<times> string) list"
  cq_body :: "cf_body option"

record cf_envelope =
  ce_success :: bool
  ce_errors :: "(int \<times> string) list"
  ce_result :: string
  ce_total_pages :: "int option"

record cf_response =
  rs_status :: int
  rs_body :: "string + cf_envelope"

record cf_record =
  cr_id :: string
  cr_type :: string
  cr_name :: string
  cr_content :: string
  cr_proxied :: bool
  cr_ttl :: int
  cr_priority :: go_float

record cf_client =
  cl_zones :: "(string, string) gomap option"

abbreviation (input) writeTTL :: nat where "writeTTL \<equiv> 60"

type_synonym cf_api = "cf_request \<Rightarrow> string + cf_response"

definition int_text :: "int \<Rightarrow> string" where
  "int_text i = (if i < 0 then ''-'' @ Itoa (nat (- i)) else Itoa (nat i))"

definition formatErrors :: "(int \<times> string) list \<Rightarrow> int \<Rightarrow> string" where
  "formatErrors errs status =
     (if errs = [] then ''status '' @ int_text status
      else Join (map (\<lambda>(code, m). int_text code @ '' '' @ m) errs) ''; '')"

fun method_text :: "cf_method \<Rightarrow> string" where
  "method_text MethodGet = ''GET''"
| "method_text MethodPost = ''POST''"
| "method_text MethodPatch = ''PATCH''"
| "method_text MethodDelete = ''DELETE''"

definition cf_do :: "cf_api \<Rightarrow> cf_request \<Rightarrow> string + cf_envelope" where
  "cf_do api rq =
     (let ctx = ''cfapi: '' @ method_text (cq_method rq) @ '' '' @ cq_path rq @ '': '' in
      case api rq of
        Inl err \<Rightarrow> Inl err
      | Inr resp \<Rightarrow>
          (case rs_body resp of
             Inl err \<Rightarrow> Inl (ctx @ ''bad response (status '' @ int_text (rs_status resp) @ ''): '' @ err)
           | Inr env \<Rightarrow>
               if \<not> ce_success env then Inl (ctx @ formatErrors (ce_errors env) (rs_status resp)) else Inr env))"

section \<open>Listings\<close>

text \<open>
  The loop over the pages of a listing: it ends at an error, at the last page the
  response names, when the response names none, or at an empty page.
\<close>

partial_function (option) pager ::
    "(nat \<Rightarrow> string + ('a list \<times> int option)) \<Rightarrow> nat \<Rightarrow> 'a list \<Rightarrow> (string + 'a list) option" where
  "pager fetch page acc =
     (case fetch page of
        Inl err \<Rightarrow> Some (Inl err)
      | Inr (xs, pages) \<Rightarrow>
          if pages = None \<or> the pages \<le> int page \<or> xs = [] then Some (Inr (acc @ xs))
          else pager fetch (page + 1) (acc @ xs))"

definition page_request :: "string \<Rightarrow> string \<Rightarrow> nat \<Rightarrow> cf_request" where
  "page_request path per page =
     \<lparr>cq_method = MethodGet, cq_path = path, cq_query = [(''per_page'', per), (''page'', Itoa page)], cq_body = None\<rparr>"

definition fetch_page :: "cf_api \<Rightarrow> (string \<Rightarrow> 'a list option) \<Rightarrow> string \<Rightarrow> string \<Rightarrow> nat \<Rightarrow> string + ('a list \<times> int option)" where
  "fetch_page api dec path per page =
     (case cf_do api (page_request path per page) of
        Inl err \<Rightarrow> Inl err
      | Inr env \<Rightarrow>
          (case dec (ce_result env) of
             None \<Rightarrow> Inl ''cfapi: decode''
           | Some xs \<Rightarrow> Inr (xs, ce_total_pages env)))"

definition Zones :: "cf_api \<Rightarrow> (string \<Rightarrow> (string \<times> string) list option) \<Rightarrow> cf_client \<Rightarrow>
    ((string + (string, string) gomap) \<times> cf_client) option" where
  "Zones api dec c =
     (case cl_zones c of
        Some z \<Rightarrow> Some (Inr z, c)
      | None \<Rightarrow>
          (case pager (fetch_page api dec ''/zones'' ''50'') 1 [] of
             None \<Rightarrow> None
           | Some (Inl err) \<Rightarrow> Some (Inl err, c)
           | Some (Inr zs) \<Rightarrow>
               (let zones = fold (\<lambda>(zid, name) m. gm_set m zid (ToLower name)) zs [] in
                Some (Inr zones, c\<lparr>cl_zones := Some zones\<rparr>))))"

definition records_path :: "string \<Rightarrow> string" where
  "records_path zone_id = ''/zones/'' @ zone_id @ ''/dns_records''"

definition AllRecords :: "cf_api \<Rightarrow> (string \<Rightarrow> cf_record list option) \<Rightarrow> string \<Rightarrow> (string + cf_record list) option" where
  "AllRecords api dec zone_id = pager (fetch_page api dec (records_path zone_id) ''100'') 1 []"

definition ascii_upper :: "char \<Rightarrow> char" where
  "ascii_upper c = (if CHR ''a'' \<le> c \<and> c \<le> CHR ''z'' then char_of (of_char c - 32 :: nat) else c)"

definition ToUpper :: "string \<Rightarrow> string" where
  "ToUpper s = map ascii_upper s"

definition abType :: "string \<Rightarrow> nat option" where
  "abType s = (if ToUpper s = ''A'' then Some TypeA else if ToUpper s = ''AAAA'' then Some TypeAAAA else None)"

definition host_record :: "string \<Rightarrow> cf_record \<Rightarrow> rr option" where
  "host_record zone_id r =
     (case abType (cr_type r) of
        None \<Rightarrow> None
      | Some typ \<Rightarrow>
          if cr_proxied r then None
          else Some (zero_rr\<lparr>rr_name := ensureDot (ToLower (cr_name r)), rr_type := typ, rr_class := ClassINET,
            rr_content := cr_content r, rr_zone_id := zone_id, rr_record_id := cr_id r, rr_proxied := cr_proxied r\<rparr>))"

fun host_records :: "cf_api \<Rightarrow> (string \<Rightarrow> cf_record list option) \<Rightarrow> string \<Rightarrow> (string \<times> string) list \<Rightarrow> string + rr list" where
  "host_records api dec host [] = Inr []"
| "host_records api dec host ((zid, zname) # zs) =
     (case cf_do api \<lparr>cq_method = MethodGet, cq_path = records_path zid,
             cq_query = [(''name'', host @ ''.'' @ zname), (''per_page'', ''100'')], cq_body = None\<rparr> of
        Inl err \<Rightarrow> Inl err
      | Inr env \<Rightarrow>
          (case dec (ce_result env) of
             None \<Rightarrow> Inl ''cfapi: decode records''
           | Some recs \<Rightarrow>
               (case host_records api dec host zs of
                  Inl err \<Rightarrow> Inl err
                | Inr rest \<Rightarrow> Inr (List.map_filter (host_record zid) recs @ rest))))"

definition RecordsForHost :: "cf_api \<Rightarrow> (string \<Rightarrow> (string \<times> string) list option) \<Rightarrow> (string \<Rightarrow> cf_record list option) \<Rightarrow>
    string \<Rightarrow> cf_client \<Rightarrow> ((string + rr list) \<times> cf_client) option" where
  "RecordsForHost api decZ decR short_host c =
     (case Zones api decZ c of
        None \<Rightarrow> None
      | Some (Inl err, c1) \<Rightarrow> Some (Inl err, c1)
      | Some (Inr zones, c1) \<Rightarrow>
          Some (host_records api decR (ToLower (TrimSuffix (TrimSpace short_host) ''.'')) zones, c1))"

section \<open>Edits\<close>

definition edit_body :: "string \<Rightarrow> nat \<Rightarrow> string \<Rightarrow> cf_body" where
  "edit_body name typ content =
     \<lparr>cb_type = gm_str TypeToString typ, cb_name = TrimSuffix name ''.'', cb_content = content, cb_ttl = writeTTL,
      cb_proxied = False\<rparr>"

text \<open>The request of \<open>Update\<close>, \<open>Create\<close> and \<open>Delete\<close>.\<close>

fun edit_request :: "dd_call \<Rightarrow> cf_request" where
  "edit_request (CallUpdate z r name typ content) =
     \<lparr>cq_method = MethodPatch, cq_path = records_path z @ ''/'' @ r, cq_query = [], cq_body = Some (edit_body name typ content)\<rparr>"
| "edit_request (CallCreate z name typ content) =
     \<lparr>cq_method = MethodPost, cq_path = records_path z, cq_query = [], cq_body = Some (edit_body name typ content)\<rparr>"
| "edit_request (CallDelete z r) =
     \<lparr>cq_method = MethodDelete, cq_path = records_path z @ ''/'' @ r, cq_query = [], cq_body = None\<rparr>"

text \<open>The client as the editor of the writer: the error of a call, if any.\<close>

definition cf_editor :: "cf_api \<Rightarrow> (string \<Rightarrow> cf_record option) \<Rightarrow> dd_editor" where
  "cf_editor api dec calls k =
     (case cf_do api (edit_request k) of
        Inl err \<Rightarrow> Some err
      | Inr env \<Rightarrow>
          (case k of
             CallCreate _ _ _ _ \<Rightarrow> (if dec (ce_result env) = None then Some ''cfapi: decode created record'' else None)
           | _ \<Rightarrow> None))"

section \<open>Listings are drained\<close>

lemma pager_pages:
  assumes "\<And>i. p \<le> i \<Longrightarrow> i \<le> n \<Longrightarrow> fetch i = Inr (items i, Some (int n)) \<and> items i \<noteq> []" "p \<le> n"
  shows "pager fetch p acc = Some (Inr (acc @ concat (map items [p ..< Suc n])))"
  using assms(2,1)
proof (induction arbitrary: acc rule: inc_induct)
  case base
  then show ?case
    by (subst pager.simps) simp
next
  case (step m)
  have "fetch m = Inr (items m, Some (int n))" "items m \<noteq> []"
    using step by simp_all
  moreover have "pager fetch (m + 1) (acc @ items m) = Some (Inr ((acc @ items m) @ concat (map items [Suc m ..< Suc n])))"
    using step.IH [of "acc @ items m"] step.prems by simp
  ultimately show ?case
    using step.hyps by (subst pager.simps) (simp add: upt_conv_Cons [of m n])
qed

lemma pager_error:
  assumes "\<And>i. p \<le> i \<Longrightarrow> i < k \<Longrightarrow> fetch i = Inr (items i, Some (int n)) \<and> items i \<noteq> []" "p \<le> k" "k \<le> n" "fetch k = Inl err"
  shows "pager fetch p acc = Some (Inl err)"
  using assms(2,1)
proof (induction arbitrary: acc rule: inc_induct)
  case base
  then show ?case
    using assms(4) by (subst pager.simps) simp
next
  case (step m)
  have "fetch m = Inr (items m, Some (int n))" "items m \<noteq> []" "\<not> int n \<le> int m"
    using step assms(3) by simp_all
  then show ?case
    using step.IH step.prems by (subst pager.simps) simp
qed

text \<open>
  C39. A listing is drained: when the service names the number of its pages on each of them
  and no page is empty, listing the records of a zone ends and returns the records of
  all pages, in order; when a page fails, the listing fails with that error and no part
  of it is returned.
\<close>

theorem AllRecords_drains:
  assumes "1 \<le> n"
    and "\<And>i. 1 \<le> i \<Longrightarrow> i \<le> n \<Longrightarrow> i \<noteq> k \<Longrightarrow>
      fetch_page api dec (records_path z) ''100'' i = Inr (items i, Some (int n)) \<and> items i \<noteq> []"
    and "1 \<le> k \<and> k \<le> n \<Longrightarrow> fetch_page api dec (records_path z) ''100'' k = Inl err"
  shows "AllRecords api dec z = Some (if 1 \<le> k \<and> k \<le> n then Inl err else Inr (concat (map items [1 ..< Suc n])))"
proof (cases "1 \<le> k \<and> k \<le> n")
  case True
  then show ?thesis
    unfolding AllRecords_def using assms by (simp add: pager_error [where k = k and n = n and items = items])
next
  case False
  then show ?thesis
    unfolding AllRecords_def using assms(1,2) by (subst pager_pages [where n = n and items = items]) auto
qed

definition demo_page :: "cf_record list" where
  "demo_page = [\<lparr>cr_id = ''r1'', cr_type = ''A'', cr_name = ''h.example.com'', cr_content = ''192.0.2.1'', cr_proxied = False,
     cr_ttl = 1, cr_priority = FFin 0\<rparr>]"

definition demo_api :: cf_api where
  "demo_api rq = Inr \<lparr>rs_status = 200,
     rs_body = Inr \<lparr>ce_success = True, ce_errors = [], ce_result = [], ce_total_pages = Some 2\<rparr>\<rparr>"

theorem AllRecords_drains_witness:
  "AllRecords demo_api (\<lambda>_. Some demo_page) ''z1'' = Some (Inr (demo_page @ demo_page))"
proof -
  have "fetch_page demo_api (\<lambda>_. Some demo_page) (records_path ''z1'') ''100'' i = Inr (demo_page, Some (int 2)) \<and> demo_page \<noteq> []" for i
    by (simp add: fetch_page_def cf_do_def demo_api_def demo_page_def)
  then show ?thesis
    using AllRecords_drains [of 2 0 demo_api "\<lambda>_. Some demo_page" "''z1''" "\<lambda>_. demo_page"] by (simp add: upt_rec)
qed

end
