(* ===== verification/Mirror.thy ===== *)
theory Mirror
  imports Config Cfapi
begin

text \<open>
  Package \<^verbatim>\<open>internal/mirror\<close>, file \<^verbatim>\<open>mirror.go\<close> and the two adapters of \<^verbatim>\<open>builder.go\<close>: from the
  records of the Cloudflare account to authoritative zones, and from them and the
  configuration to the snapshot queries are answered from.

  The account is an argument: its zones and the records of a zone, each an error or a
  value.  So are the resolver of tunnel names and the DNS library's reading of a record.
\<close>

section \<open>Records\<close>

abbreviation (input) wildcardProbe :: string where "wildcardProbe \<equiv> ''__splitdns_wildcard_probe__''"

definition StringToType :: "(string, nat) gomap" where
  "StringToType = map (\<lambda>(t, s). (s, t)) TypeToString"

definition ttlOr :: "int \<Rightarrow> nat" where
  "ttlOr ttl = (if ttl \<le> 1 then 300 else to_uint32 ttl)"

definition replace_byte :: "char \<Rightarrow> string \<Rightarrow> string \<Rightarrow> string" where
  "replace_byte c sub s = concat (map (\<lambda>x. if x = c then sub else [x]) s)"

definition quoteTXT :: "string \<Rightarrow> string" where
  "quoteTXT s =
     (if HasPrefix s [CHR 0x22] then s
      else [CHR 0x22] @ replace_byte (CHR 0x22) [CHR 0x5C, CHR 0x22] (replace_byte (CHR 0x5C) [CHR 0x5C, CHR 0x5C] s) @ [CHR 0x22])"

definition fill_rr :: "cf_record \<Rightarrow> rr \<Rightarrow> rr option" where
  "fill_rr r rr0 =
     (let typ = rr_type rr0 in
      if typ \<in> {TypeA, TypeAAAA, TypeCAA, TypeTLSA} then Some (rr0\<lparr>rr_content := cr_content r\<rparr>)
      else if typ \<in> {TypeCNAME, TypeNS, TypePTR} then
        Some (rr0\<lparr>rr_content := Fqdn (cr_content r), rr_target := Fqdn (cr_content r)\<rparr>)
      else if typ = TypeMX then
        (case CoercePriority (cr_priority r) of
           None \<Rightarrow> None
         | Some pr \<Rightarrow> Some (rr0\<lparr>rr_priority := pr, rr_target := Fqdn (cr_content r)\<rparr>))
      else if typ = TypeSRV then
        (case ParseSRVContent (cr_content r) of
           Inl _ \<Rightarrow> None
         | Inr (w, p, t) \<Rightarrow>
             Some (rr0\<lparr>rr_priority := (case CoercePriority (cr_priority r) of None \<Rightarrow> 0 | Some pr \<Rightarrow> pr),
               rr_weight := w, rr_port := p, rr_target := t\<rparr>))
      else if typ = TypeTXT then Some (rr0\<lparr>rr_content := quoteTXT (cr_content r)\<rparr>)
      else None)"

definition toModelRR :: "newrr \<Rightarrow> cf_record \<Rightarrow> string \<Rightarrow> rr option" where
  "toModelRR newRR r zone_id =
     (case gm_get StringToType (ToUpper (cr_type r)) of
        None \<Rightarrow> None
      | Some typ \<Rightarrow>
          (case fill_rr r (zero_rr\<lparr>rr_name := Fqdn (ToLower (cr_name r)), rr_type := typ, rr_class := ClassINET,
                  rr_ttl := ttlOr (cr_ttl r), rr_proxied := cr_proxied r, rr_zone_id := zone_id, rr_record_id := cr_id r\<rparr>) of
             None \<Rightarrow> None
           | Some x \<Rightarrow> if ToMiekg newRR x = None then None else Some x))"

definition tunnel_rr :: "addr \<Rightarrow> rr" where
  "tunnel_rr a = zero_rr\<lparr>rr_type := (if Is6 a then TypeAAAA else TypeA), rr_class := ClassINET, rr_ttl := 300,
     rr_content := AddrString a, rr_synthetic := True\<rparr>"

definition isTunnelTarget :: "string \<Rightarrow> string list \<Rightarrow> bool" where
  "isTunnelTarget content sufs \<longleftrightarrow> (\<exists>s\<in>set sufs. HasSuffix (Fqdn (ToLower content)) s)"

definition relOwner :: "string \<Rightarrow> string \<Rightarrow> string" where
  "relOwner name0 apex =
     (let name = Fqdn (ToLower name0) in
      if name = apex then [] else TrimSuffix (TrimSuffix name apex) ''.'')"

definition ownerFQDN :: "string \<Rightarrow> string \<Rightarrow> string" where
  "ownerFQDN owner apex =
     (if owner = [] then apex
      else if owner = ''*'' then wildcardProbe @ ''.'' @ apex
      else owner @ ''.'' @ apex)"

definition synthSOA :: "string \<Rightarrow> rr" where
  "synthSOA apex = zero_rr\<lparr>rr_name := apex, rr_type := TypeSOA, rr_class := ClassINET, rr_ttl := 3600,
     rr_content := apex @ '' hostmaster.'' @ apex @ '' 1 7200 3600 1209600 300''\<rparr>"

definition withSOASerial :: "rr \<Rightarrow> nat \<Rightarrow> rr" where
  "withSOASerial soa serial =
     (let f = Fields (rr_content soa) in
      if length f \<noteq> 7 then soa else soa\<lparr>rr_content := Join (f[2 := Itoa serial]) '' ''\<rparr>)"

section \<open>Zones\<close>

definition add_rr_to :: "rr \<Rightarrow> rrsets \<Rightarrow> rrsets" where
  "add_rr_to r s = gm_set s (rr_type r) (gm_list s (rr_type r) @ [r])"

text \<open>One turn of the loop over the records: the zone and the set of tunnel owners so far.\<close>

definition add_record :: "newrr \<Rightarrow> string \<Rightarrow> string \<Rightarrow> string list \<Rightarrow> cf_record \<Rightarrow> zone \<times> string list \<Rightarrow> zone \<times> string list" where
  "add_record newRR apex zone_id sufs r zt =
     (let (z, owners) = zt; owner = relOwner (cr_name r) apex in
      case toModelRR newRR r zone_id of
        None \<Rightarrow> (z, owners)
      | Some x \<Rightarrow>
          if rr_type x = TypeCNAME \<and> isTunnelTarget (rr_content x) sufs then (z, List.insert owner owners)
          else
            (let z1 = (if owner = ''*'' then z\<lparr>z_wildcards := add_rr_to x (z_wildcards z)\<rparr>
                       else z\<lparr>z_records := gm_set (z_records z) owner (add_rr_to x (rrsets_at (z_records z) owner))\<rparr>);
                 z2 = (if rr_type x = TypeNS \<and> owner = [] then z1\<lparr>z_ns := z_ns z1 @ [x]\<rparr> else z1) in
             (z2, owners)))"

definition tunnel_sets :: "addr list \<Rightarrow> addr list \<Rightarrow> rrsets" where
  "tunnel_sets v4 v6 =
     fold (\<lambda>a s. gm_set s TypeAAAA (gm_list s TypeAAAA @ [tunnel_rr a])) v6
       (fold (\<lambda>a s. gm_set s TypeA (gm_list s TypeA @ [tunnel_rr a])) v4 [])"

definition flatten_tunnel :: "(string \<Rightarrow> (addr list \<times> addr list) option) \<Rightarrow> string \<Rightarrow> zone \<Rightarrow> zone" where
  "flatten_tunnel tr owner z =
     (case tr (ownerFQDN owner (z_apex z)) of
        None \<Rightarrow> z
      | Some (v4, v6) \<Rightarrow>
          (let ta = tunnel_sets v4 v6 in
           if ta \<noteq> [] then z\<lparr>z_tunnel := gm_set (z_tunnel z) owner ta\<rparr> else z))"

definition ancestors :: "string \<Rightarrow> string list" where
  "ancestors owner = (let labels = SplitByte (CHR ''.'') owner in map (\<lambda>i. Join (drop i labels) ''.'') [1 ..< length labels])"

definition deriveENT :: "zone \<Rightarrow> zone" where
  "deriveENT z =
     z\<lparr>z_ent := fold (\<lambda>anc m. if anc \<noteq> [] \<and> \<not> gm_has (z_records z) anc then gm_set m anc True else m)
        (concat (map (ancestors \<circ> fst) (z_records z))) (z_ent z)\<rparr>"

definition empty_zone :: "string \<Rightarrow> string \<Rightarrow> zone" where
  "empty_zone zone_id apex = \<lparr>z_id = zone_id, z_apex = apex, z_ns = [], z_soa = zero_rr, z_records = [], z_wildcards = [],
     z_ent = [], z_tunnel = [], z_serial = 0, z_synthetic_stale = False, z_stale = False\<rparr>"

definition BuildZone :: "newrr \<Rightarrow> string \<Rightarrow> string \<Rightarrow> cf_record list \<Rightarrow> (string \<Rightarrow> (addr list \<times> addr list) option) \<Rightarrow>
    string list \<Rightarrow> zone" where
  "BuildZone newRR apex0 zone_id recs tr sufs =
     (let apex = Fqdn (ToLower apex0);
          (z, owners) = fold (add_record newRR apex zone_id sufs) recs (empty_zone zone_id apex, []);
          z1 = fold (flatten_tunnel tr) owners z in
      (deriveENT z1)\<lparr>z_soa := synthSOA apex\<rparr>)"

section \<open>Snapshots\<close>

text \<open>\<^verbatim>\<open>netip.ParseAddrPort\<close>: square brackets belong to IPv6 addresses and to them only.\<close>

definition ParseAddrPort :: "string \<Rightarrow> (addr \<times> nat) option" where
  "ParseAddrPort s =
     (case LastIndexByte s (CHR '':'') of
        None \<Rightarrow> None
      | Some i \<Rightarrow>
          (let ip = take i s; port = drop (Suc i) s; v6 = (ip \<noteq> [] \<and> hd ip = CHR ''['') in
           if ip = [] \<or> port = [] then None
           else if v6 \<and> (length ip < 2 \<or> last ip \<noteq> CHR '']'') then None
           else
             (case (ParseUint port 16, ParseAddr (if v6 then butlast (tl ip) else ip)) of
                (Some n, Some a) \<Rightarrow> if v6 \<and> Is4 a \<or> \<not> v6 \<and> Is6 a then None else Some (a, n)
              | _ \<Rightarrow> None)))"

definition health_record :: rr where
  "health_record = zero_rr\<lparr>rr_name := ''health.splitdnsd.local.'', rr_type := TypeA, rr_class := ClassINET, rr_ttl := 60,
     rr_content := ''127.0.0.1''\<rparr>"

definition BaseSnapshot :: "time \<Rightarrow> config \<Rightarrow> string list \<Rightarrow> snapshot" where
  "BaseSnapshot now cfg rev_zones =
     (let v = cfg_vhost cfg; zc = cfg_zones cfg;
          rev_apexes = map Fqdn rev_zones;
          stub_apexes = map (\<lambda>(apex, _). Fqdn apex) (zc_stub zc) in
      \<lparr>s_zones = [],
       s_stubs = fold (\<lambda>(apex, targets) m.
          gm_set m (Fqdn apex) \<lparr>sz_apex = Fqdn apex, sz_target = List.map_filter ParseAddrPort targets\<rparr>) (zc_stub zc) [],
       s_reverse = fold (\<lambda>apex m. gm_set m apex \<lparr>rz_apex = apex, rz_soa = synthSOA apex\<rparr>) rev_apexes [],
       s_vhosts = [],
       s_excluded = fold (\<lambda>z m. gm_set m (Fqdn (ToLower z)) True) (vc_exclude_zones v) [],
       s_static = [(''health.splitdnsd.local.'', [health_record])],
       s_ddns = fold (\<lambda>e m. gm_set m (Fqdn (ToLower (TrimSpace e))) True) (dn_eligible (cfg_ddns cfg)) [],
       s_local_domain = LocalDomainLabel (cfg_mdns cfg),
       s_serve_dnssd = mdc_serve_dnssd (cfg_mdns cfg),
       s_allow_suffix = sort (rev_apexes @ stub_apexes @ map Fqdn (zc_local zc)),
       s_built_at = Some now,
       s_cf_healthy = False,
       s_vhost4 = (case ParseAddr (vc_proxy_v4 v) of Some a \<Rightarrow> a | None \<Rightarrow> AddrNone),
       s_vhost6 = (case ParseAddr (vc_proxy_v6 v) of Some a \<Rightarrow> a | None \<Rightarrow> AddrNone),
       s_ddr = None\<rparr>)"

record zone_lister =
  zl_zones :: "string + (string, string) gomap"
  zl_records :: "string \<Rightarrow> string + cf_record list"

fun build_zones :: "newrr \<Rightarrow> zone_lister \<Rightarrow> (string \<Rightarrow> (addr list \<times> addr list) option) \<Rightarrow> string list \<Rightarrow>
    (string, string) gomap \<Rightarrow> string list \<Rightarrow> (string, zone) gomap \<Rightarrow> string + (string, zone) gomap" where
  "build_zones newRR l tr sufs name_to_id [] zs = Inr zs"
| "build_zones newRR l tr sufs name_to_id (z0 # names) zs =
     (let zname = ToLower (TrimSuffix z0 ''.'') in
      case gm_get name_to_id zname of
        None \<Rightarrow> build_zones newRR l tr sufs name_to_id names zs
      | Some zid \<Rightarrow>
          (case zl_records l zid of
             Inl err \<Rightarrow> Inl (''mirror: records for '' @ zname @ '': '' @ err)
           | Inr recs \<Rightarrow>
               build_zones newRR l tr sufs name_to_id names
                 (gm_set zs (Fqdn zname) (BuildZone newRR zname zid recs tr sufs))))"

definition BuildSnapshot :: "newrr \<Rightarrow> time \<Rightarrow> zone_lister option \<Rightarrow> (string \<Rightarrow> (addr list \<times> addr list) option) \<Rightarrow> config \<Rightarrow>
    string list \<Rightarrow> string + snapshot" where
  "BuildSnapshot newRR now lo tr cfg rev_zones =
     (case lo of
        None \<Rightarrow> Inr (BaseSnapshot now cfg rev_zones)
      | Some l \<Rightarrow>
          (case zl_zones l of
             Inl err \<Rightarrow> Inl (''mirror: list zones: '' @ err)
           | Inr zones \<Rightarrow>
               (let name_to_id = fold (\<lambda>(zid, name) m. gm_set m (ToLower name) zid) zones [] in
                case build_zones newRR l tr (ResolvedTunnelSuffixes (cfg_cloudflare cfg)) name_to_id (zc_local (cfg_zones cfg)) [] of
                  Inl err \<Rightarrow> Inl err
                | Inr zs \<Rightarrow>
                    Inr ((BaseSnapshot now cfg rev_zones)\<lparr>s_zones := zs, s_cf_healthy := True, s_built_at := Some now\<rparr>))))"

section \<open>Adapters\<close>

definition SetQuestion :: "nat \<Rightarrow> string \<Rightarrow> nat \<Rightarrow> dns_msg" where
  "SetQuestion mid name typ =
     new_msg\<lparr>msg_id := mid, msg_rd := True, msg_question := [\<lparr>q_name = name, q_type = typ, q_class = ClassINET\<rparr>]\<rparr>"

definition answer_addr :: "dns_rr \<Rightarrow> addr option" where
  "answer_addr r =
     (case dr_data r of
        RD_A a \<Rightarrow> (if Is4 (Unmap a) then Some (Unmap a) else None)
      | RD_AAAA a \<Rightarrow> (if IsValid a then Some (Unmap a) else None)
      | _ \<Rightarrow> None)"

definition queryAddrs :: "(dns_msg \<Rightarrow> dns_msg option) \<Rightarrow> nat \<Rightarrow> string \<Rightarrow> nat \<Rightarrow> addr list" where
  "queryAddrs fwd mid fqdn qtype =
     (case fwd (SetQuestion mid (Fqdn fqdn) qtype) of
        None \<Rightarrow> []
      | Some resp \<Rightarrow> List.map_filter answer_addr (msg_answer resp))"

definition tunnel_resolve :: "(dns_msg \<Rightarrow> dns_msg option) \<Rightarrow> nat \<Rightarrow> nat \<Rightarrow> string \<Rightarrow> (addr list \<times> addr list) option" where
  "tunnel_resolve fwd mid4 mid6 fqdn =
     (let v4 = queryAddrs fwd mid4 fqdn TypeA; v6 = queryAddrs fwd mid6 fqdn TypeAAAA in
      if v4 = [] \<and> v6 = [] then None else Some (v4, v6))"

definition zone_host_records :: "string \<Rightarrow> zone \<Rightarrow> rr list" where
  "zone_host_records host z =
     filter (\<lambda>r. \<not> rr_proxied r) (rrset_at (z_records z) host TypeA @ rrset_at (z_records z) host TypeAAAA)"

definition SnapshotSource :: "snapshot option \<Rightarrow> dd_source" where
  "SnapshotSource so short_host =
     (case so of
        None \<Rightarrow> Inr []
      | Some snap \<Rightarrow>
          (let host = ToLower (TrimSuffix (TrimSpace short_host) ''.'') in
           Inr (concat (map (zone_host_records host \<circ> snd) (s_zones snap)))))"

section \<open>What a built zone holds\<close>

text \<open>The records of the listing that are kept, with their owners, in order.\<close>

definition kept :: "newrr \<Rightarrow> string \<Rightarrow> string \<Rightarrow> string list \<Rightarrow> cf_record list \<Rightarrow> (string \<times> rr) list" where
  "kept newRR apex zid sufs recs =
     List.map_filter (\<lambda>r. case toModelRR newRR r zid of
         None \<Rightarrow> None
       | Some x \<Rightarrow> if rr_type x = TypeCNAME \<and> isTunnelTarget (rr_content x) sufs then None
                   else Some (relOwner (cr_name r) apex, x)) recs"

definition at_owner :: "(string \<times> rr) list \<Rightarrow> string \<Rightarrow> nat \<Rightarrow> rr list" where
  "at_owner ks o' t = map snd (filter (\<lambda>(p, x). p = o' \<and> rr_type x = t) ks)"

lemma at_owner_append [simp]: "at_owner (ks @ ks') o' t = at_owner ks o' t @ at_owner ks' o' t"
  by (simp add: at_owner_def)

lemma at_owner_one [simp]: "at_owner [(p, x)] o' t = (if p = o' \<and> rr_type x = t then [x] else [])"
  by (simp add: at_owner_def)

lemma at_owner_Nil [simp]: "at_owner [] o' t = []"
  by (simp add: at_owner_def)

definition sets_ok :: "rrsets \<Rightarrow> bool" where
  "sets_ok s \<longleftrightarrow> gm_ok s \<and> (\<forall>(t, rs)\<in>set s. rs \<noteq> [] \<and> (\<forall>r\<in>set rs. rr_type r = t))"

lemma gm_list_add: "gm_list (add_rr_to r s) t = gm_list s t @ (if t = rr_type r then [r] else [])"
  by (simp add: add_rr_to_def gm_list_set)

lemma gm_list_in: "gm_ok s \<Longrightarrow> (t, rs) \<in> set s \<Longrightarrow> gm_list s t = rs"
  by (simp add: gm_list_def gm_ok_def)

lemma gm_list_mem: "x \<in> set (gm_list s t) \<Longrightarrow> \<exists>rs. (t, rs) \<in> set s \<and> x \<in> set rs"
  by (cases "map_of s t") (auto simp: gm_list_def dest: map_of_SomeD)

lemma sets_ok_add: "sets_ok s \<Longrightarrow> sets_ok (add_rr_to r s)"
proof -
  assume s: "sets_ok s"
  have g: "\<forall>x\<in>set (gm_list s (rr_type r)). rr_type x = rr_type r"
    using s gm_list_mem unfolding sets_ok_def by fastforce
  have "set (add_rr_to r s) \<subseteq> insert (rr_type r, gm_list s (rr_type r) @ [r]) (set s)"
    unfolding add_rr_to_def by (rule gm_set_subset)
  moreover have "gm_ok (add_rr_to r s)"
    using s by (simp add: add_rr_to_def sets_ok_def)
  ultimately show ?thesis
    using s g unfolding sets_ok_def by fastforce
qed

text \<open>The invariant of the loop over the records.\<close>

definition holds_records :: "(string \<times> rr) list \<Rightarrow> zone \<Rightarrow> bool" where
  "holds_records ks z \<longleftrightarrow> gm_ok (z_records z) \<and> sets_ok (z_wildcards z) \<and>
     (\<forall>(o', s)\<in>set (z_records z). o' \<noteq> ''*'' \<and> s \<noteq> [] \<and> sets_ok s) \<and>
     (\<forall>o' t. o' \<noteq> ''*'' \<longrightarrow> rrset_at (z_records z) o' t = at_owner ks o' t) \<and>
     (\<forall>t. gm_list (z_wildcards z) t = at_owner ks ''*'' t) \<and>
     z_ns z = at_owner ks [] TypeNS \<and> (\<forall>o'. gm_has (z_records z) o' \<longleftrightarrow> o' \<noteq> ''*'' \<and> (\<exists>x. (o', x) \<in> set ks))"

lemma rrsets_at_set: "rrsets_at (gm_set m o' s) p = (if p = o' then s else rrsets_at m p)"
  by (simp add: rrsets_at_def update_conv)

lemma sets_at_ok: "\<forall>(o', s)\<in>set m. Q o' \<and> s \<noteq> [] \<and> sets_ok s \<Longrightarrow> sets_ok (rrsets_at m p)"
proof (cases "map_of m p")
  case None
  then show ?thesis
    by (simp add: rrsets_at_def sets_ok_def gm_ok_def)
next
  case (Some s)
  assume "\<forall>(o', s)\<in>set m. Q o' \<and> s \<noteq> [] \<and> sets_ok s"
  then have "sets_ok s"
    using map_of_SomeD [OF Some] by blast
  then show ?thesis
    using Some by (simp add: rrsets_at_def)
qed

lemma add_rr_not_Nil [simp]: "add_rr_to r s \<noteq> []"
  by (cases s) (auto simp: add_rr_to_def)

lemma ball_subset: "A \<subseteq> B \<Longrightarrow> \<forall>x\<in>B. P x \<Longrightarrow> \<forall>x\<in>A. P x"
  by blast

lemma add_plain:
  assumes "holds_records ks z" "p \<noteq> ''*''"
  shows "holds_records (ks @ [(p, x)])
    (let z1 = z\<lparr>z_records := gm_set (z_records z) p (add_rr_to x (rrsets_at (z_records z) p))\<rparr> in
     if rr_type x = TypeNS \<and> p = [] then z1\<lparr>z_ns := z_ns z1 @ [x]\<rparr> else z1)"
proof -
  let ?s = "add_rr_to x (rrsets_at (z_records z) p)"
  have ok: "gm_ok (z_records z)" "\<forall>(o', s)\<in>set (z_records z). o' \<noteq> ''*'' \<and> s \<noteq> [] \<and> sets_ok s"
    using assms(1) by (simp_all add: holds_records_def)
  have new: "sets_ok ?s"
    using sets_ok_add sets_at_ok [OF ok(2)] by blast
  have "\<forall>(o', s)\<in>insert (p, ?s) (set (z_records z)). o' \<noteq> ''*'' \<and> s \<noteq> [] \<and> sets_ok s"
    using ok(2) new assms(2) by simp
  then have "\<forall>(o', s)\<in>set (gm_set (z_records z) p ?s). o' \<noteq> ''*'' \<and> s \<noteq> [] \<and> sets_ok s"
    by (rule ball_subset [OF gm_set_subset])
  moreover have "rrset_at (gm_set (z_records z) p ?s) o' t = at_owner (ks @ [(p, x)]) o' t" if "o' \<noteq> ''*''" for o' t
    using assms(1) that by (auto simp: holds_records_def rrset_at_def rrsets_at_set gm_list_add)
  moreover have "gm_has (gm_set (z_records z) p ?s) o' \<longleftrightarrow> o' \<noteq> ''*'' \<and> (\<exists>y. (o', y) \<in> set (ks @ [(p, x)]))" for o'
    using assms by (auto simp: holds_records_def gm_has_def update_conv)
  ultimately show ?thesis
    using assms ok(1) by (auto simp: holds_records_def Let_def)
qed

lemma add_wild:
  assumes "holds_records ks z"
  shows "holds_records (ks @ [(''*'', x)]) (z\<lparr>z_wildcards := add_rr_to x (z_wildcards z)\<rparr>)"
proof -
  have "sets_ok (add_rr_to x (z_wildcards z))"
    using assms sets_ok_add by (simp add: holds_records_def)
  moreover have "gm_list (add_rr_to x (z_wildcards z)) t = at_owner (ks @ [(''*'', x)]) ''*'' t" for t
    using assms by (simp add: holds_records_def gm_list_add)
  ultimately show ?thesis
    using assms by (auto simp: holds_records_def)
qed

lemma add_record_holds:
  assumes "holds_records ks z"
  shows "holds_records (ks @ kept newRR apex zid sufs [r]) (fst (add_record newRR apex zid sufs r (z, owners)))"
proof (cases "toModelRR newRR r zid")
  case None
  then show ?thesis
    using assms by (simp add: add_record_def kept_def List.map_filter_simps)
next
  case (Some x)
  let ?o = "relOwner (cr_name r) apex"
  show ?thesis
  proof (cases "rr_type x = TypeCNAME \<and> isTunnelTarget (rr_content x) sufs")
    case True
    then show ?thesis
      using assms Some by (simp add: add_record_def kept_def List.map_filter_simps)
  next
    case False
    then have k: "kept newRR apex zid sufs [r] = [(?o, x)]"
      using Some by (simp add: kept_def List.map_filter_simps)
    show ?thesis
    proof (cases "?o = ''*''")
      case True
      then show ?thesis
        using add_wild [OF assms, of x] False Some k by (auto simp: add_record_def Let_def)
    next
      case ne: False
      then show ?thesis
        using add_plain [OF assms ne, of x] False Some k by (auto simp: add_record_def Let_def)
    qed
  qed
qed

lemma kept_Cons: "kept newRR apex zid sufs (r # rs) = kept newRR apex zid sufs [r] @ kept newRR apex zid sufs rs"
  by (simp add: kept_def List.map_filter_simps split: option.split)

lemma fold_holds:
  "holds_records ks z \<Longrightarrow>
    holds_records (ks @ kept newRR apex zid sufs recs) (fst (fold (add_record newRR apex zid sufs) recs (z, owners)))"
proof (induction recs arbitrary: ks z owners)
  case (Cons r recs)
  obtain z' owners' where s: "add_record newRR apex zid sufs r (z, owners) = (z', owners')"
    by (metis surj_pair)
  have "holds_records (ks @ kept newRR apex zid sufs [r]) z'"
    using add_record_holds [OF Cons.prems, of newRR apex zid sufs r owners] s by simp
  then show ?case
    using Cons.IH [of "ks @ kept newRR apex zid sufs [r]" z' owners'] s kept_Cons [of newRR apex zid sufs r recs] by simp
qed (simp add: kept_def List.map_filter_simps)

lemma empty_holds: "holds_records [] (empty_zone zid apex)"
  by (simp add: holds_records_def empty_zone_def sets_ok_def gm_ok_def rrset_at_def rrsets_at_def gm_list_def gm_has_def)

lemma flatten_keeps:
  "z_records (fold (flatten_tunnel tr) owners z) = z_records z \<and>
   z_wildcards (fold (flatten_tunnel tr) owners z) = z_wildcards z \<and>
   z_ns (fold (flatten_tunnel tr) owners z) = z_ns z \<and> z_apex (fold (flatten_tunnel tr) owners z) = z_apex z \<and>
   z_ent (fold (flatten_tunnel tr) owners z) = z_ent z"
  by (induction owners arbitrary: z) (auto simp: flatten_tunnel_def Let_def split: option.splits)

lemma add_record_keeps:
  "z_ent (fst (add_record newRR apex zid sufs r zt)) = z_ent (fst zt) \<and> z_apex (fst (add_record newRR apex zid sufs r zt)) = z_apex (fst zt) \<and>
   z_tunnel (fst (add_record newRR apex zid sufs r zt)) = z_tunnel (fst zt)"
  by (auto simp: add_record_def Let_def split: prod.splits option.splits)

lemma fold_keeps:
  "z_ent (fst (fold (add_record newRR apex zid sufs) recs zt)) = z_ent (fst zt) \<and>
   z_apex (fst (fold (add_record newRR apex zid sufs) recs zt)) = z_apex (fst zt) \<and>
   z_tunnel (fst (fold (add_record newRR apex zid sufs) recs zt)) = z_tunnel (fst zt)"
  by (induction recs arbitrary: zt) (use add_record_keeps in simp_all)

section \<open>Empty non-terminals\<close>

lemma ancestors_iff: "anc \<in> set (ancestors owner) \<longleftrightarrow> HasSuffix owner (CHR ''.'' # anc)"
proof
  assume "anc \<in> set (ancestors owner)"
  then obtain i where i: "1 \<le> i" "i < length (SplitByte (CHR ''.'') owner)" "anc = Join (drop i (SplitByte (CHR ''.'') owner)) ''.''"
    by (auto simp: ancestors_def Let_def)
  let ?l = "SplitByte (CHR ''.'') owner"
  have "owner = Join (take i ?l @ drop i ?l) ''.''"
    by simp
  also have "\<dots> = Join (take i ?l) ''.'' @ CHR ''.'' # anc"
    using i by (subst Join_append) auto
  finally show "HasSuffix owner (CHR ''.'' # anc)"
    by (metis HasSuffix_append)
next
  assume "HasSuffix owner (CHR ''.'' # anc)"
  then obtain p where p: "owner = p @ CHR ''.'' # anc"
    by (metis TrimSuffix_decomp)
  let ?l = "SplitByte (CHR ''.'') p"
  have "SplitByte (CHR ''.'') owner = ?l @ SplitByte (CHR ''.'') anc"
    using p SplitByte_snoc by simp
  then have "Join (drop (length ?l) (SplitByte (CHR ''.'') owner)) ''.'' = anc" "length ?l < length (SplitByte (CHR ''.'') owner)"
    by simp_all
  moreover have "1 \<le> length ?l"
    by (simp add: Suc_le_eq)
  ultimately show "anc \<in> set (ancestors owner)"
    unfolding ancestors_def Let_def by (auto intro!: rev_image_eqI)
qed

lemma fold_ent:
  "gm_true (fold (\<lambda>anc m. if P anc then gm_set m anc True else m) ancs m) a \<longleftrightarrow> gm_true m a \<or> a \<in> set ancs \<and> P a"
  by (induction ancs arbitrary: m) (auto simp: gm_true_def update_conv)

lemma deriveENT_iff:
  assumes "z_ent z = []"
  shows "gm_true (z_ent (deriveENT z)) a \<longleftrightarrow>
    a \<noteq> [] \<and> \<not> gm_has (z_records z) a \<and> (\<exists>o'. gm_has (z_records z) o' \<and> HasSuffix o' (CHR ''.'' # a))"
proof -
  have "gm_true (z_ent (deriveENT z)) a \<longleftrightarrow>
      a \<in> set (concat (map (ancestors \<circ> fst) (z_records z))) \<and> a \<noteq> [] \<and> \<not> gm_has (z_records z) a"
    using fold_ent [of "\<lambda>anc. anc \<noteq> [] \<and> \<not> gm_has (z_records z) anc" "concat (map (ancestors \<circ> fst) (z_records z))" "[]" a] assms
    by (simp add: deriveENT_def gm_true_def)
  also have "a \<in> set (concat (map (ancestors \<circ> fst) (z_records z))) \<longleftrightarrow>
      (\<exists>o'. gm_has (z_records z) o' \<and> HasSuffix o' (CHR ''.'' # a))"
    by (auto simp: ancestors_iff gm_has_keys)
  finally show ?thesis
    by blast
qed

definition tunnel_owner :: "newrr \<Rightarrow> string \<Rightarrow> string \<Rightarrow> string list \<Rightarrow> cf_record list \<Rightarrow> string \<Rightarrow> bool" where
  "tunnel_owner newRR apex zid sufs recs o' \<longleftrightarrow>
     (\<exists>r\<in>set recs. \<exists>x. toModelRR newRR r zid = Some x \<and> rr_type x = TypeCNAME \<and> isTunnelTarget (rr_content x) sufs \<and>
        o' = relOwner (cr_name r) apex)"

definition flattened :: "(string \<Rightarrow> (addr list \<times> addr list) option) \<Rightarrow> string \<Rightarrow> rrsets option" where
  "flattened tr fqdn =
     (case tr fqdn of None \<Rightarrow> None | Some (v4, v6) \<Rightarrow> if tunnel_sets v4 v6 = [] then None else Some (tunnel_sets v4 v6))"

lemma fold_owners:
  "o' \<in> set (snd (fold (add_record newRR apex zid sufs) recs (z, owners))) \<longleftrightarrow>
     o' \<in> set owners \<or> tunnel_owner newRR apex zid sufs recs o'"
proof (induction recs arbitrary: z owners)
  case (Cons r recs)
  obtain z' owners' where s: "add_record newRR apex zid sufs r (z, owners) = (z', owners')"
    by (metis surj_pair)
  have "set owners' = set owners \<union> {o'. tunnel_owner newRR apex zid sufs [r] o'}"
    using s by (auto simp: add_record_def tunnel_owner_def Let_def split: option.splits if_splits)
  moreover have "tunnel_owner newRR apex zid sufs (r # recs) o' \<longleftrightarrow>
      tunnel_owner newRR apex zid sufs [r] o' \<or> tunnel_owner newRR apex zid sufs recs o'"
    by (auto simp: tunnel_owner_def)
  ultimately show ?case
    using Cons.IH [of z' owners'] s by simp
qed (simp add: tunnel_owner_def)

lemma flatten_one:
  "gm_get (z_tunnel (flatten_tunnel tr p z)) o' =
    (if o' = p \<and> flattened tr (ownerFQDN p (z_apex z)) \<noteq> None then flattened tr (ownerFQDN p (z_apex z)) else gm_get (z_tunnel z) o')"
  by (auto simp: flatten_tunnel_def flattened_def Let_def update_conv split: option.splits if_splits)

lemma fold_flatten:
  "gm_get (z_tunnel (fold (flatten_tunnel tr) owners z)) o' =
    (if o' \<in> set owners \<and> flattened tr (ownerFQDN o' (z_apex z)) \<noteq> None then flattened tr (ownerFQDN o' (z_apex z))
     else gm_get (z_tunnel z) o')"
proof (induction owners arbitrary: z)
  case (Cons p owners)
  have "z_apex (flatten_tunnel tr p z) = z_apex z"
    by (auto simp: flatten_tunnel_def Let_def split: option.splits)
  then show ?case
    using Cons.IH [of "flatten_tunnel tr p z"] by (auto simp: flatten_one)
qed simp

lemma kept_sound:
  "(o', x) \<in> set (kept newRR apex zid sufs recs) \<Longrightarrow>
    ToMiekg newRR x \<noteq> None \<and> rr_zone_id x = zid \<and> \<not> (rr_type x = TypeCNAME \<and> isTunnelTarget (rr_content x) sufs)"
proof -
  assume "(o', x) \<in> set (kept newRR apex zid sufs recs)"
  then obtain r where r: "toModelRR newRR r zid = Some x" "\<not> (rr_type x = TypeCNAME \<and> isTunnelTarget (rr_content x) sufs)"
    by (auto simp: kept_def map_filter_set split: option.splits if_splits)
  have "rr_zone_id x = rr_zone_id y" if "fill_rr r y = Some x" for y
    using that by (auto simp: fill_rr_def Let_def split: if_splits option.splits sum.splits)
  then show ?thesis
    using r by (fastforce simp: toModelRR_def split: option.splits if_splits)
qed

lemma built_zone:
  fixes newRR apex0 zid recs tr sufs
  defines "apex \<equiv> Fqdn (ToLower apex0)"
  defines "z \<equiv> BuildZone newRR apex0 zid recs tr sufs" and "ks \<equiv> kept newRR apex zid sufs recs"
  shows "(\<forall>o' t. rrset_at (z_records z) o' t = (if o' = ''*'' then [] else at_owner ks o' t)) \<and>
    (\<forall>t. gm_list (z_wildcards z) t = at_owner ks ''*'' t) \<and> z_ns z = at_owner ks [] TypeNS \<and>
    (\<forall>o'. gm_get (z_tunnel z) o' =
       (if tunnel_owner newRR apex zid sufs recs o' then flattened tr (ownerFQDN o' apex) else None)) \<and>
    (\<forall>a. gm_true (z_ent z) a \<longleftrightarrow> a \<noteq> [] \<and> (a = ''*'' \<or> (\<forall>x. (a, x) \<notin> set ks)) \<and>
       (\<exists>o' x. o' \<noteq> ''*'' \<and> (o', x) \<in> set ks \<and> HasSuffix o' (CHR ''.'' # a))) \<and>
    list_all (\<lambda>(o', x). ToMiekg newRR x \<noteq> None \<and> rr_zone_id x = zid \<and>
       \<not> (rr_type x = TypeCNAME \<and> isTunnelTarget (rr_content x) sufs)) ks"
proof -
  obtain z0 owners where f: "fold (add_record newRR apex zid sufs) recs (empty_zone zid apex, []) = (z0, owners)"
    by (metis surj_pair)
  let ?z1 = "fold (flatten_tunnel tr) owners z0"
  have z: "z = (deriveENT ?z1)\<lparr>z_soa := synthSOA apex\<rparr>"
    using f by (simp add: z_def BuildZone_def apex_def)
  have h: "holds_records ks z0" and e: "z_ent z0 = []" "z_apex z0 = apex" "z_tunnel z0 = []"
    using fold_holds [OF empty_holds [of zid apex], of newRR apex zid sufs recs "[]"] fold_keeps [of newRR apex zid sufs recs "(empty_zone zid apex, [])"] f
    by (simp_all add: ks_def empty_zone_def)
  note k = flatten_keeps [of tr owners z0]
  have same: "z_records z = z_records z0" "z_wildcards z = z_wildcards z0" "z_ns z = z_ns z0" "z_tunnel z = z_tunnel ?z1"
    using k by (simp_all add: z deriveENT_def)
  have has: "gm_has (z_records z0) o' \<longleftrightarrow> o' \<noteq> ''*'' \<and> (\<exists>x. (o', x) \<in> set ks)" for o'
    using h by (simp add: holds_records_def)
  have star: "rrset_at (z_records z0) ''*'' t = []" for t
    using has [of "''*''"] by (cases "map_of (z_records z0) ''*''") (simp_all add: rrset_at_def rrsets_at_def gm_has_def gm_list_def)
  have own: "o' \<in> set owners \<longleftrightarrow> tunnel_owner newRR apex zid sufs recs o'" for o'
    using fold_owners [of o' newRR apex zid sufs recs "empty_zone zid apex" "[]"] f by simp
  have ent: "gm_true (z_ent z) a \<longleftrightarrow> a \<noteq> [] \<and> \<not> gm_has (z_records z0) a \<and> (\<exists>o'. gm_has (z_records z0) o' \<and> HasSuffix o' (CHR ''.'' # a))" for a
    using deriveENT_iff [of ?z1 a] k e(1) by (simp add: z)
  have sound: "list_all (\<lambda>(o', x). ToMiekg newRR x \<noteq> None \<and> rr_zone_id x = zid \<and>
       \<not> (rr_type x = TypeCNAME \<and> isTunnelTarget (rr_content x) sufs)) ks"
    using kept_sound unfolding ks_def list_all_iff by blast
  show ?thesis
  proof (intro conjI allI)
    fix o' t
    show "rrset_at (z_records z) o' t = (if o' = ''*'' then [] else at_owner ks o' t)"
      using h star by (simp add: same holds_records_def)
    show "gm_list (z_wildcards z) t = at_owner ks ''*'' t" "z_ns z = at_owner ks [] TypeNS"
      using h by (simp_all add: same holds_records_def)
    show "gm_get (z_tunnel z) o' =
        (if tunnel_owner newRR apex zid sufs recs o' then flattened tr (ownerFQDN o' apex) else None)"
      unfolding same fold_flatten own e by simp
  next
    fix a
    show "gm_true (z_ent z) a \<longleftrightarrow> a \<noteq> [] \<and> (a = ''*'' \<or> (\<forall>x. (a, x) \<notin> set ks)) \<and>
       (\<exists>o' x. o' \<noteq> ''*'' \<and> (o', x) \<in> set ks \<and> HasSuffix o' (CHR ''.'' # a))"
      unfolding ent has by blast
  qed (rule sound)
qed


section \<open>Text records and the SOA\<close>

text \<open>Reading a quoted string back: a backslash makes the next byte literal, a bare quote ends it.\<close>

fun unquote :: "string \<Rightarrow> (string \<times> string) option" where
  "unquote [] = None"
| "unquote (c # s) =
     (if c = CHR 0x22 then Some ([], s)
      else if c = CHR 0x5C then
        (case s of [] \<Rightarrow> None | d # s' \<Rightarrow> map_option (\<lambda>(v, rest). (d # v, rest)) (unquote s'))
      else map_option (\<lambda>(v, rest). (c # v, rest)) (unquote s))"

lemma replace_byte_simps [simp]:
  "replace_byte c r [] = []" "replace_byte c r (x # s) = (if x = c then r else [x]) @ replace_byte c r s"
  "replace_byte c r (s @ t) = replace_byte c r s @ replace_byte c r t"
  by (simp_all add: replace_byte_def)

text \<open>
  A text record survives quoting: what the DNS library reads back from the quoted
  form of a text that was not quoted yet is the text, up to the closing quote.
\<close>

theorem quoteTXT_roundtrip:
  assumes "\<not> HasPrefix s [CHR 0x22]"
  shows "quoteTXT s \<noteq> [] \<and> hd (quoteTXT s) = CHR 0x22 \<and> unquote (tl (quoteTXT s)) = Some (s, [])"
proof -
  have "unquote (replace_byte (CHR 0x22) [CHR 0x5C, CHR 0x22] (replace_byte (CHR 0x5C) [CHR 0x5C, CHR 0x5C] s) @ [CHR 0x22]) = Some (s, [])"
    by (induction s) auto
  then show ?thesis
    using assms by (simp add: quoteTXT_def)
qed

theorem quoteTXT_roundtrip_witness:
  "quoteTXT [CHR ''a'', CHR 0x22, CHR 0x5C] = [CHR 0x22, CHR ''a'', CHR 0x5C, CHR 0x22, CHR 0x5C, CHR 0x5C, CHR 0x22] \<and>
   unquote (tl (quoteTXT [CHR ''a'', CHR 0x22, CHR 0x5C])) = Some ([CHR ''a'', CHR 0x22, CHR 0x5C], [])"
proof -
  have "\<not> HasPrefix [CHR ''a'', CHR 0x22, CHR 0x5C] [CHR 0x22]"
    "quoteTXT [CHR ''a'', CHR 0x22, CHR 0x5C] = [CHR 0x22, CHR ''a'', CHR 0x5C, CHR 0x22, CHR 0x5C, CHR 0x5C, CHR 0x22]"
    by code_simp+
  then show ?thesis
    using quoteTXT_roundtrip [of "[CHR ''a'', CHR 0x22, CHR 0x5C]"] by blast
qed

definition wordy :: "string \<Rightarrow> bool" where
  "wordy w \<longleftrightarrow> w \<noteq> [] \<and> list_all (\<lambda>c. \<not> is_space c) w"

lemma fields_aux_word:
  "list_all (\<lambda>c. \<not> is_space c) w \<Longrightarrow> fields_aux acc (w @ s) = fields_aux (rev w @ acc) s"
  by (induction w arbitrary: acc) auto

lemma fields_aux_wordy: "list_all (\<lambda>c. \<not> is_space c) acc \<Longrightarrow> list_all wordy (fields_aux acc s)"
  by (induction acc s rule: fields_aux.induct) (auto simp: wordy_def)

lemma Fields_wordy: "list_all wordy (Fields s)"
  by (simp add: Fields_def fields_aux_wordy)

lemma is_space_blank [simp]: "is_space (CHR '' '')"
  by code_simp

lemma Fields_Join: "list_all wordy ws \<Longrightarrow> Fields (Join ws '' '') = ws"
proof (induction ws rule: induct_list012)
  case 1
  then show ?case by (simp add: Fields_def)
next
  case (2 w)
  then show ?case
    using fields_aux_word [of w "[]" "[]"] by (simp add: Fields_def wordy_def)
next
  case (3 w v ws)
  then have "Fields (Join (w # v # ws) '' '') = w # Fields (Join (v # ws) '' '')"
    using fields_aux_word [of w "[]" "'' '' @ Join (v # ws) '' ''"] by (simp add: Fields_def wordy_def)
  with 3 show ?case by simp
qed

lemma is_digit_not_space: "is_digit c \<Longrightarrow> \<not> is_space c"
  by (auto simp: is_space_def is_digit_def)

lemma Itoa_wordy: "wordy (Itoa n)"
  by (auto simp: wordy_def list_all_iff dest: Itoa_digits is_digit_not_space)

lemma withSOASerial_fields:
  assumes "length (Fields (rr_content soa)) = 7"
  shows "Fields (rr_content (withSOASerial soa s)) = (Fields (rr_content soa))[2 := Itoa s]"
proof -
  have "list_all wordy ((Fields (rr_content soa))[2 := Itoa s])"
    using Fields_wordy [of "rr_content soa"] Itoa_wordy [of s]
    by (auto simp: list_all_iff dest: set_update_subset_insert [THEN subsetD])
  then show ?thesis
    using assms by (simp add: withSOASerial_def Let_def Fields_Join)
qed

section \<open>Snapshots\<close>

abbreviation zone_key :: "string \<Rightarrow> string" where
  "zone_key z0 \<equiv> ToLower (TrimSuffix z0 ''.'')"

abbreviation account_ids :: "(string, string) gomap \<Rightarrow> (string, string) gomap" where
  "account_ids zones \<equiv> fold (\<lambda>(zid, name) m. gm_set m (ToLower name) zid) zones []"

text \<open>The configured zone \<open>z0\<close> is in the account, and its listing is \<open>recs\<close>.\<close>

definition listed :: "zone_lister \<Rightarrow> (string, string) gomap \<Rightarrow> string \<Rightarrow> string \<Rightarrow> cf_record list \<Rightarrow> bool" where
  "listed l ids z0 zid recs \<longleftrightarrow> gm_get ids (zone_key z0) = Some zid \<and> zl_records l zid = Inr recs"

definition built_from :: "newrr \<Rightarrow> zone_lister \<Rightarrow> (string \<Rightarrow> (addr list \<times> addr list) option) \<Rightarrow> string list \<Rightarrow>
    (string, string) gomap \<Rightarrow> string list \<Rightarrow> string \<Rightarrow> zone \<Rightarrow> bool" where
  "built_from newRR l tr sufs ids names apex z \<longleftrightarrow>
     (\<exists>z0\<in>set names. \<exists>zid recs. listed l ids z0 zid recs \<and> apex = Fqdn (zone_key z0) \<and>
        z = BuildZone newRR (zone_key z0) zid recs tr sufs)"

lemma build_zones_Cons:
  "build_zones newRR l tr sufs ids (z0 # names) zs = Inr zs' \<longleftrightarrow>
    gm_get ids (zone_key z0) = None \<and> build_zones newRR l tr sufs ids names zs = Inr zs' \<or>
    (\<exists>zid recs. listed l ids z0 zid recs \<and>
       build_zones newRR l tr sufs ids names
         (gm_set zs (Fqdn (zone_key z0)) (BuildZone newRR (zone_key z0) zid recs tr sufs)) = Inr zs')"
  by (cases "gm_get ids (zone_key z0)"; cases "zl_records l (the (gm_get ids (zone_key z0)))")
    (auto simp: Let_def listed_def)

lemma built_from_Cons:
  "built_from newRR l tr sufs ids (z0 # names) apex z \<longleftrightarrow>
    (\<exists>zid recs. listed l ids z0 zid recs \<and> apex = Fqdn (zone_key z0) \<and>
       z = BuildZone newRR (zone_key z0) zid recs tr sufs) \<or>
    built_from newRR l tr sufs ids names apex z"
  by (auto simp: built_from_def)

lemma build_zones_sound:
  assumes "build_zones newRR l tr sufs ids names zs = Inr zs'" "gm_get zs' apex = Some z"
  shows "gm_get zs apex = Some z \<or> built_from newRR l tr sufs ids names apex z"
  using assms
proof (induction names arbitrary: zs)
  case Nil
  then show ?case by simp
next
  case (Cons z0 names)
  from Cons.prems(1) consider
      "build_zones newRR l tr sufs ids names zs = Inr zs'"
    | zid recs where "listed l ids z0 zid recs"
      "build_zones newRR l tr sufs ids names
         (gm_set zs (Fqdn (zone_key z0)) (BuildZone newRR (zone_key z0) zid recs tr sufs)) = Inr zs'"
    unfolding build_zones_Cons by blast
  then show ?case
  proof cases
    case 1
    from Cons.IH [OF this Cons.prems(2)] show ?thesis by (auto simp: built_from_Cons)
  next
    case 2
    from Cons.IH [OF 2(2) Cons.prems(2)] 2(1) show ?thesis
      by (auto simp: built_from_Cons update_conv split: if_splits)
  qed
qed

lemma build_zones_grows:
  assumes "build_zones newRR l tr sufs ids names zs = Inr zs'" "gm_get zs apex \<noteq> None"
  shows "gm_get zs' apex \<noteq> None"
  using assms by (induction names arbitrary: zs) (auto simp: build_zones_Cons update_conv simp del: build_zones.simps(2))

lemma build_zones_complete:
  assumes "build_zones newRR l tr sufs ids names zs = Inr zs'" "z0 \<in> set names" "gm_get ids (zone_key z0) \<noteq> None"
  shows "gm_get zs' (Fqdn (zone_key z0)) \<noteq> None"
  using assms
proof (induction names arbitrary: zs)
  case (Cons y names)
  show ?case
  proof (cases "z0 \<in> set names")
    case True
    then show ?thesis using Cons by (auto simp: build_zones_Cons simp del: build_zones.simps(2))
  next
    case False
    then obtain zid recs where "build_zones newRR l tr sufs ids names
        (gm_set zs (Fqdn (zone_key z0)) (BuildZone newRR (zone_key z0) zid recs tr sufs)) = Inr zs'"
      using Cons.prems by (auto simp: build_zones_Cons simp del: build_zones.simps(2))
    then show ?thesis by (rule build_zones_grows) (simp add: update_conv)
  qed
qed simp

lemma build_zones_error:
  assumes "build_zones newRR l tr sufs ids names zs = Inl e"
  shows "\<exists>z0\<in>set names. \<exists>zid err. gm_get ids (zone_key z0) = Some zid \<and> zl_records l zid = Inl err"
  using assms
proof (induction names arbitrary: zs)
  case (Cons z0 names)
  then show ?case
    by (cases "gm_get ids (zone_key z0)"; cases "zl_records l (the (gm_get ids (zone_key z0)))")
      (auto simp: Let_def)
qed simp

text \<open>
  C38. A snapshot is built whole or not at all.  When the build succeeds, every configured
  zone of the account is in the snapshot under its fully qualified name, every zone of the
  snapshot is the one built from the listing of such a zone, and the configured parts are
  those of the base snapshot; the build fails only when the account cannot be listed or a
  configured zone of the account cannot be.
\<close>

theorem snapshot_all_or_nothing:
  "case BuildSnapshot newRR now (Some l) tr cfg revs of
     Inr snap \<Rightarrow> \<exists>zones. zl_zones l = Inr zones \<and>
       snap\<lparr>s_zones := [], s_cf_healthy := False\<rparr> = BaseSnapshot now cfg revs \<and> s_cf_healthy snap \<and>
       list_all (\<lambda>z0. gm_get (account_ids zones) (zone_key z0) = None \<or>
         gm_get (s_zones snap) (Fqdn (zone_key z0)) \<noteq> None) (zc_local (cfg_zones cfg)) \<and>
       (\<forall>apex. case gm_get (s_zones snap) apex of None \<Rightarrow> True
          | Some z \<Rightarrow> built_from newRR l tr (ResolvedTunnelSuffixes (cfg_cloudflare cfg)) (account_ids zones)
              (zc_local (cfg_zones cfg)) apex z)
   | Inl e \<Rightarrow> (\<exists>err. zl_zones l = Inl err) \<or> (\<exists>zones. zl_zones l = Inr zones \<and>
       list_ex (\<lambda>z0. \<exists>zid err. gm_get (account_ids zones) (zone_key z0) = Some zid \<and> zl_records l zid = Inl err)
         (zc_local (cfg_zones cfg)))"
proof (cases "zl_zones l")
  case (Inl err)
  then show ?thesis by (simp add: BuildSnapshot_def)
next
  case (Inr zones)
  show ?thesis
  proof (cases "build_zones newRR l tr (ResolvedTunnelSuffixes (cfg_cloudflare cfg)) (account_ids zones)
      (zc_local (cfg_zones cfg)) []")
    case (Inl e)
    with Inr build_zones_error [OF Inl] show ?thesis
      by (simp add: BuildSnapshot_def list_ex_iff)
  next
    case zs: (Inr zs)
    have "case gm_get zs apex of None \<Rightarrow> True
        | Some z \<Rightarrow> built_from newRR l tr (ResolvedTunnelSuffixes (cfg_cloudflare cfg)) (account_ids zones)
            (zc_local (cfg_zones cfg)) apex z" for apex
      using build_zones_sound [OF zs, of apex] by (auto split: option.splits)
    moreover have "list_all (\<lambda>z0. gm_get (account_ids zones) (zone_key z0) = None \<or>
         gm_get zs (Fqdn (zone_key z0)) \<noteq> None) (zc_local (cfg_zones cfg))"
      using build_zones_complete [OF zs] unfolding list_all_iff by blast
    ultimately show ?thesis
      using Inr zs by (simp add: BuildSnapshot_def BaseSnapshot_def Let_def)
  qed
qed

section \<open>An example account\<close>

abbreviation listing_record :: "string \<Rightarrow> string \<Rightarrow> string \<Rightarrow> cf_record" where
  "listing_record typ name content \<equiv> \<lparr>cr_id = ''r1'', cr_type = typ, cr_name = name, cr_content = content,
     cr_proxied = False, cr_ttl = 1, cr_priority = FFin 0\<rparr>"

definition demo_listing :: "cf_record list" where
  "demo_listing = [listing_record ''A'' ''www.lab.example.com'' ''192.0.2.1'',
     listing_record ''CNAME'' ''app.example.com'' ''t.cfargotunnel.com'',
     listing_record ''A'' ''*.example.com'' ''192.0.2.9'']"

abbreviation accept_rr :: newrr where
  "accept_rr \<equiv> \<lambda>_. NewRR_rr \<lparr>dr_name = ''x.'', dr_type = TypeA, dr_class = ClassINET, dr_ttl = 1, dr_data = RD_A (Addr4 1)\<rparr>"

abbreviation tunnel_addrs :: "string \<Rightarrow> (addr list \<times> addr list) option" where
  "tunnel_addrs \<equiv> \<lambda>_. Some ([Addr4 7], [])"

lemma tunnel_owner_code [code]:
  "tunnel_owner newRR apex zid sufs recs o' = list_ex (\<lambda>r.
     case toModelRR newRR r zid of None \<Rightarrow> False
     | Some x \<Rightarrow> rr_type x = TypeCNAME \<and> isTunnelTarget (rr_content x) sufs \<and> o' = relOwner (cr_name r) apex) recs"
  by (auto simp: tunnel_owner_def list_ex_iff split: option.splits)

lemma key_in_image: "k \<in> fst ` set ks \<longleftrightarrow> (\<exists>x. (k, x) \<in> set ks)"
  by force


definition demo_account :: zone_lister where
  "demo_account = \<lparr>zl_zones = Inr [(''Z1'', ''Example.com'')],
     zl_records = (\<lambda>zid. if zid = ''Z1'' then Inr demo_listing else Inl ''no such zone'')\<rparr>"

definition demo_mirror_config :: config where
  "demo_mirror_config = Default\<lparr>cfg_zones := (cfg_zones Default)\<lparr>zc_local := [''example.com'', ''other.org'']\<rparr>\<rparr>"

theorem snapshot_all_or_nothing_witness:
  "case BuildSnapshot accept_rr 0 (Some demo_account) tunnel_addrs demo_mirror_config [] of
     Inr snap \<Rightarrow> s_cf_healthy snap \<and> gm_get (s_zones snap) ''example.com.'' \<noteq> None | Inl _ \<Rightarrow> False"
proof -
  have "case BuildSnapshot accept_rr 0 (Some demo_account) tunnel_addrs demo_mirror_config [] of
     Inr snap \<Rightarrow> True | Inl _ \<Rightarrow> False"
    "zl_zones demo_account = Inr [(''Z1'', ''Example.com'')]"
    "gm_get (account_ids [(''Z1'', ''Example.com'')]) (zone_key ''example.com'') = Some ''Z1''"
    "Fqdn (zone_key ''example.com'') = ''example.com.''"
    "zc_local (cfg_zones demo_mirror_config) = [''example.com'', ''other.org'']"
    by code_simp+
  then show ?thesis
    using snapshot_all_or_nothing [where newRR = accept_rr and now = 0 and l = demo_account and tr = tunnel_addrs
      and cfg = demo_mirror_config and revs = "[]"]
    by (auto split: sum.splits)
qed

end
