(* ===== verification/Mirror_Cache.thy ===== *)
theory Mirror_Cache
  imports Mirror
begin

text \<open>
  The warm cache of the mirror (\<^verbatim>\<open>mirror/serial.go\<close>, \<^verbatim>\<open>mirror/cache.go\<close>): serial arithmetic, the
  files of the cache as a map from paths to contents, saving as the sequence of file
  operations it performs, and loading.  The JSON encoding is an argument.  A zone name has no
  slash, so a path is determined by the name it is made from.
\<close>

section \<open>Serials\<close>

definition serialLt :: "32 word \<Rightarrow> 32 word \<Rightarrow> bool" where
  "serialLt a b \<longleftrightarrow> a \<noteq> b \<and> b - a < 0x80000000"

record serial_state =
  ss_last :: "32 word"
  ss_fetched :: bool

definition ShouldFetch :: "serial_state \<Rightarrow> 32 word \<Rightarrow> bool" where
  "ShouldFetch s observed = (if \<not> ss_fetched s then True else serialLt (ss_last s) observed)"

section \<open>Files\<close>

abbreviation (input) cacheSchema :: int where "cacheSchema \<equiv> 1"

record zone_file =
  zf_schema :: int
  zf_fetched_at :: time
  zf_serial :: "32 word"
  zf_zone :: "zone option"

record index_entry =
  ie_serial :: "32 word"
  ie_has_records :: bool

record index_file =
  if_schema :: int
  if_zones :: "(string, index_entry) gomap"

datatype cache_path = IndexPath | ZonePath string | TempPath nat

type_synonym cache_fs = "(cache_path, string) gomap"

record json_codec =
  js_zone :: "zone_file \<Rightarrow> string"
  js_unzone :: "string \<Rightarrow> zone_file option"
  js_index :: "index_file \<Rightarrow> string"
  js_unindex :: "string \<Rightarrow> index_file option"

datatype file_op = OpCreate cache_path | OpWrite cache_path string | OpRename cache_path cache_path | OpRemove cache_path

fun file_step :: "file_op \<Rightarrow> cache_fs \<Rightarrow> cache_fs" where
  "file_step (OpCreate p) fs = gm_set fs p []"
| "file_step (OpWrite p b) fs = gm_set fs p b"
| "file_step (OpRename p q) fs =
     (case gm_get fs p of None \<Rightarrow> fs | Some b \<Rightarrow> gm_set (gm_del fs p) q b)"
| "file_step (OpRemove p) fs = gm_del fs p"

text \<open>The step of a write that fails, if one does; a failing write may have written a part.\<close>

datatype io_fault = FaultMarshal | FaultCreate | FaultChmod | FaultWrite string | FaultSync | FaultClose | FaultRename

definition writeAtomicJSON :: "io_fault option \<Rightarrow> nat \<Rightarrow> cache_path \<Rightarrow> string \<Rightarrow> bool \<times> file_op list" where
  "writeAtomicJSON fault n path b =
     (let tmp = TempPath n in
      case fault of
        Some FaultMarshal \<Rightarrow> (False, [])
      | Some FaultCreate \<Rightarrow> (False, [])
      | Some FaultChmod \<Rightarrow> (False, [OpCreate tmp, OpRemove tmp])
      | Some (FaultWrite part) \<Rightarrow> (False, [OpCreate tmp, OpWrite tmp part, OpRemove tmp])
      | Some _ \<Rightarrow> (False, [OpCreate tmp, OpWrite tmp b, OpRemove tmp])
      | None \<Rightarrow> (True, [OpCreate tmp, OpWrite tmp b, OpRename tmp path, OpRemove tmp]))"

definition zoneHasRecords :: "zone \<Rightarrow> bool" where
  "zoneHasRecords z \<longleftrightarrow> z_records z \<noteq> [] \<or> z_wildcards z \<noteq> [] \<or> z_tunnel z \<noteq> []"

section \<open>Saving\<close>

abbreviation zone_name :: "string \<Rightarrow> string" where
  "zone_name apex \<equiv> TrimSuffix apex ''.''"

definition zone_file_of :: "time \<Rightarrow> zone \<Rightarrow> zone_file" where
  "zone_file_of now z = \<lparr>zf_schema = cacheSchema, zf_fetched_at = now, zf_serial = of_nat (z_serial z), zf_zone = Some z\<rparr>"

definition index_entry_of :: "zone \<Rightarrow> index_entry" where
  "index_entry_of z = \<lparr>ie_serial = of_nat (z_serial z), ie_has_records = zoneHasRecords z\<rparr>"

datatype save_error = SaveMkdir | SaveZone string | SaveIndex

fun save_zones :: "json_codec \<Rightarrow> (nat \<Rightarrow> io_fault option) \<Rightarrow> time \<Rightarrow> nat \<Rightarrow> (string \<times> zone) list \<Rightarrow>
    (string, index_entry) gomap \<Rightarrow> (save_error + (string, index_entry) gomap) \<times> file_op list" where
  "save_zones js fault now n [] idx = (Inr idx, [])"
| "save_zones js fault now n ((apex, z) # zs) idx =
     (let (ok, ops) = writeAtomicJSON (fault n) n (ZonePath (zone_name apex)) (js_zone js (zone_file_of now z)) in
      if \<not> ok then (Inl (SaveZone (zone_name apex)), ops)
      else let (r, ops') = save_zones js fault now (Suc n) zs (gm_set idx (zone_name apex) (index_entry_of z)) in
        (r, ops @ ops'))"

definition cache_save :: "json_codec \<Rightarrow> bool \<Rightarrow> (nat \<Rightarrow> io_fault option) \<Rightarrow> (string, zone) gomap \<Rightarrow> time \<Rightarrow>
    save_error option \<times> file_op list" where
  "cache_save js mkdir_ok fault zones now =
     (if \<not> mkdir_ok then (Some SaveMkdir, [])
      else case save_zones js fault now 0 zones [] of
        (Inl e, ops) \<Rightarrow> (Some e, ops)
      | (Inr idx, ops) \<Rightarrow>
          (let n = length zones;
               (ok, ops') = writeAtomicJSON (fault n) n IndexPath (js_index js \<lparr>if_schema = cacheSchema, if_zones = idx\<rparr>) in
           (if ok then None else Some SaveIndex, ops @ ops')))"

section \<open>Loading\<close>

definition loadZone :: "json_codec \<Rightarrow> duration \<Rightarrow> (cache_path \<Rightarrow> file_read) \<Rightarrow> string \<Rightarrow> time \<Rightarrow> zone option" where
  "loadZone js ceil read name now =
     (case read (ZonePath name) of
        FileData b \<Rightarrow>
          (case js_unzone js b of
             None \<Rightarrow> None
           | Some zf \<Rightarrow>
               if zf_schema zf \<noteq> cacheSchema then None
               else map_option (\<lambda>z0.
                 let z = z0\<lparr>z_stale := True\<rparr> in
                 if z_tunnel z \<noteq> [] \<and> now - zf_fetched_at zf > ceil then z\<lparr>z_synthetic_stale := True\<rparr> else z) (zf_zone zf))
      | _ \<Rightarrow> None)"

definition load_entry :: "json_codec \<Rightarrow> duration \<Rightarrow> (cache_path \<Rightarrow> file_read) \<Rightarrow> time \<Rightarrow> string \<times> index_entry \<Rightarrow>
    (string, zone) gomap \<times> (string, serial_state) gomap \<Rightarrow> (string, zone) gomap \<times> (string, serial_state) gomap" where
  "load_entry js ceil read now ne zs =
     (let (name, e) = ne; (zones, states) = zs in
      case loadZone js ceil read name now of
        None \<Rightarrow> (zones, gm_set states name \<lparr>ss_last = ie_serial e, ss_fetched = False\<rparr>)
      | Some z \<Rightarrow> (gm_set zones (Fqdn name) z, gm_set states name \<lparr>ss_last = ie_serial e, ss_fetched = ie_has_records e\<rparr>))"

definition cache_load :: "json_codec \<Rightarrow> duration \<Rightarrow> (cache_path \<Rightarrow> file_read) \<Rightarrow> time \<Rightarrow>
    string + (string, zone) gomap \<times> (string, serial_state) gomap" where
  "cache_load js ceil read now =
     (case read IndexPath of
        FileMissing \<Rightarrow> Inr ([], [])
      | FileError err \<Rightarrow> Inl (''cache: read index: '' @ err)
      | FileData b \<Rightarrow>
          (case js_unindex js b of
             None \<Rightarrow> Inr ([], [])
           | Some idx \<Rightarrow>
               if if_schema idx \<noteq> cacheSchema then Inr ([], [])
               else Inr (fold (load_entry js ceil read now) (if_zones idx) ([], []))))"

definition synth_ceiling :: "duration \<Rightarrow> duration" where
  "synth_ceiling d = (if d \<le> 0 then 3600000000000 else d)"

definition fs_read :: "cache_fs \<Rightarrow> cache_path \<Rightarrow> file_read" where
  "fs_read fs p = (case gm_get fs p of None \<Rightarrow> FileMissing | Some b \<Rightarrow> FileData b)"

section \<open>Serial arithmetic\<close>

lemma serialLt_uint:
  "serialLt a b \<longleftrightarrow> (if uint a \<le> uint b then 0 < uint b - uint a \<and> uint b - uint a < 2 ^ 31 else uint a - uint b > 2 ^ 31)"
proof -
  have "serialLt a b \<longleftrightarrow> uint a \<noteq> uint b \<and> uint (b - a) < 2 ^ 31"
    by (simp add: serialLt_def word_less_def word_uint_eq_iff)
  also have "uint (b - a) = (if uint a \<le> uint b then uint b - uint a else uint b - uint a + 2 ^ 32)"
    by (simp add: uint_sub_if')
  finally show ?thesis by auto
qed

text \<open>
  The order on serials is the sequence-space order of RFC 1982 on 32-bit numbers: a serial
  is older than the \<open>2 ^ 31 - 1\<close> numbers that follow it, across the wrap to zero as well;
  no two serials are each older than the other; and of two different serials one is older
  than the other unless they are exactly \<open>2 ^ 31\<close> apart.
\<close>

theorem serial_rfc1982:
  "(serialLt a (a + of_nat k) \<longleftrightarrow> k mod 2 ^ 32 \<in> {1 ..< 2 ^ 31}) \<and> \<not> (serialLt a b \<and> serialLt b a) \<and>
   (a = b \<or> serialLt a b \<or> serialLt b a \<or> b - a = 2 ^ 31)"
proof -
  have "serialLt a (a + of_nat k) \<longleftrightarrow> 0 < unat (of_nat k :: 32 word) \<and> unat (of_nat k :: 32 word) < 2 ^ 31"
    by (auto simp: serialLt_def word_less_nat_alt unat_gt_0)
  then have "serialLt a (a + of_nat k) \<longleftrightarrow> k mod 2 ^ 32 \<in> {1 ..< 2 ^ 31}"
    by (auto simp: unat_of_nat)
  moreover have "b - a = 2 ^ 31" if "uint b - uint a = 2 ^ 31 \<or> uint a - uint b = 2 ^ 31"
  proof -
    have "uint (b - a) = 2 ^ 31"
      using that by (auto simp: uint_sub_if')
    then show ?thesis by (simp add: word_uint_eq_iff)
  qed
  moreover have "uint a = uint b \<or> serialLt a b \<or> serialLt b a \<or> uint b - uint a = 2 ^ 31 \<or> uint a - uint b = 2 ^ 31"
    "\<not> (serialLt a b \<and> serialLt b a)"
    unfolding serialLt_uint by (auto split: if_splits)
  ultimately show ?thesis
    unfolding word_uint_eq_iff [of a b] by blast
qed

section \<open>What a crash leaves behind\<close>

text \<open>
  A process that dies has performed a prefix of its operations; a write it was in the
  middle of may have left anything in the file.
\<close>

definition crash :: "nat \<Rightarrow> string \<Rightarrow> file_op list \<Rightarrow> cache_fs \<Rightarrow> cache_fs" where
  "crash n part ops fs =
     (let fs1 = fold file_step (take n ops) fs in
      case drop n ops of OpWrite p _ # _ \<Rightarrow> gm_set fs1 p part | _ \<Rightarrow> fs1)"

abbreviation put_files :: "(cache_path \<times> string) list \<Rightarrow> cache_fs \<Rightarrow> cache_fs" where
  "put_files \<equiv> fold (\<lambda>(q, b) m. gm_set m q b)"

lemma gm_get_put_files: "gm_get (put_files l m) p = (case map_of (rev l) p of Some b \<Rightarrow> Some b | None \<Rightarrow> gm_get m p)"
  by (induction l arbitrary: m) (auto simp: update_conv map_add_def split: option.splits)

definition same_files :: "cache_fs \<Rightarrow> cache_fs \<Rightarrow> bool" where
  "same_files fs fs' \<longleftrightarrow> (\<forall>p. (\<forall>n. p \<noteq> TempPath n) \<longrightarrow> gm_get fs p = gm_get fs' p)"

lemma same_files_refl [simp]: "same_files fs fs"
  by (simp add: same_files_def)

lemma same_files_trans: "same_files a b \<Longrightarrow> same_files b c \<Longrightarrow> same_files a c"
  by (simp add: same_files_def)

lemma same_files_put: "same_files a b \<Longrightarrow> same_files (put_files l a) (put_files l b)"
  by (simp add: same_files_def gm_get_put_files split: option.splits)

lemma same_files_temp [simp]:
  "same_files (gm_set fs (TempPath n) b) fs" "same_files (gm_del fs (TempPath n)) fs"
  by (auto simp: same_files_def update_conv delete_conv)

inductive writes :: "file_op list \<Rightarrow> (cache_path \<times> string) list \<Rightarrow> bool" where
  writes_Nil: "writes [] []"
| writes_step: "writeAtomicJSON fault n p b = (ok, ops) \<Longrightarrow> (\<forall>k. p \<noteq> TempPath k) \<Longrightarrow> writes ops' eff \<Longrightarrow>
    writes (ops @ ops') ((if ok then [(p, b)] else []) @ eff)"


text \<open>Within one write, the path changes only at the rename and is then complete.\<close>

lemma crash_within:
  assumes "writeAtomicJSON fault n p b = (ok, ops)" "\<forall>k. p \<noteq> TempPath k" "m < length ops"
  shows "same_files (crash m part (ops @ rest) fs) fs \<or> ok \<and> same_files (crash m part (ops @ rest) fs) (gm_set fs p b)"
proof -
  have four: "m = 0 \<or> m = 1 \<or> m = 2 \<or> m = 3"
    using assms(1,3) by (auto simp: writeAtomicJSON_def Let_def split: option.splits io_fault.splits)
  show ?thesis
    using four assms
    by (auto simp: writeAtomicJSON_def Let_def crash_def same_files_def update_conv delete_conv numeral_2_eq_2 numeral_3_eq_3
        split: option.splits io_fault.splits)
qed

lemma write_whole:
  assumes "writeAtomicJSON fault n p b = (ok, ops)" "\<forall>k. p \<noteq> TempPath k"
  shows "same_files (fold file_step ops fs) (if ok then gm_set fs p b else fs)"
  using assms
  by (auto simp: writeAtomicJSON_def Let_def same_files_def update_conv delete_conv split: option.splits io_fault.splits)

lemma crash_past:
  assumes "length ops \<le> m"
  shows "crash m part (ops @ rest) fs = crash (m - length ops) part rest (fold file_step ops fs)"
  using assms by (simp add: crash_def)

lemma crash_effect:
  assumes "writes ops eff"
  shows "\<exists>k\<le>length eff. same_files (crash m part ops fs) (put_files (take k eff) fs)"
  using assms
proof (induction arbitrary: m fs)
  case writes_Nil
  then show ?case by (simp add: crash_def)
next
  case (writes_step fault n p b ok ops ops' eff)
  let ?e = "if ok then [(p, b)] else []"
  show ?case
  proof (cases "m < length ops")
    case True
    from crash_within [OF writes_step.hyps(1,2) True, of part ops' fs] show ?thesis
    proof
      assume "same_files (crash m part (ops @ ops') fs) fs"
      then show ?thesis by (intro exI [of _ 0]) simp
    next
      assume "ok \<and> same_files (crash m part (ops @ ops') fs) (gm_set fs p b)"
      then show ?thesis by (intro exI [of _ 1]) simp
    qed
  next
    case False
    obtain k where k: "k \<le> length eff"
      "same_files (crash (m - length ops) part ops' (fold file_step ops fs)) (put_files (take k eff) (fold file_step ops fs))"
      using writes_step.IH by blast
    have "same_files (fold file_step ops fs) (put_files ?e fs)"
      using write_whole [OF writes_step.hyps(1,2)] by auto
    then have "same_files (crash m part (ops @ ops') fs) (put_files (take (length ?e + k) (?e @ eff)) fs)"
      using k(2) False same_files_put by (fastforce simp: crash_past intro: same_files_trans)
    with k(1) show ?thesis
      by (intro exI [of _ "length ?e + k"]) simp
  qed
qed

section \<open>What saving writes\<close>

definition zone_effect :: "json_codec \<Rightarrow> time \<Rightarrow> string \<times> zone \<Rightarrow> cache_path \<times> string" where
  "zone_effect js now = (\<lambda>(apex, z). (ZonePath (zone_name apex), js_zone js (zone_file_of now z)))"

definition index_of :: "(string, zone) gomap \<Rightarrow> index_file" where
  "index_of zones = \<lparr>if_schema = cacheSchema,
     if_zones = fold (\<lambda>(apex, z) m. gm_set m (zone_name apex) (index_entry_of z)) zones []\<rparr>"

lemma writes_append: "writes a e \<Longrightarrow> writes b f \<Longrightarrow> writes (a @ b) (e @ f)"
  by (induction rule: writes.induct) (use writes_step in fastforce)+

lemma writes_one:
  "writeAtomicJSON fault n p b = (ok, ops) \<Longrightarrow> \<forall>k. p \<noteq> TempPath k \<Longrightarrow> writes ops (if ok then [(p, b)] else [])"
  using writes_step [OF _ _ writes_Nil] by fastforce

lemma save_zones_writes:
  assumes "save_zones js fault now n zs idx = (r, ops)"
  shows "\<exists>j\<le>length zs. writes ops (map (zone_effect js now) (take j zs)) \<and>
    (\<forall>idx'. r = Inr idx' \<longrightarrow> j = length zs \<and> idx' = fold (\<lambda>(apex, z) m. gm_set m (zone_name apex) (index_entry_of z)) zs idx)"
  using assms
proof (induction js fault now n zs idx arbitrary: r ops rule: save_zones.induct)
  case (1 js fault now n idx)
  then show ?case by (auto intro: writes_Nil)
next
  case (2 js fault now n apex z zs idx)
  obtain ok o1 where w: "writeAtomicJSON (fault n) n (ZonePath (zone_name apex)) (js_zone js (zone_file_of now z)) = (ok, o1)"
    by (meson surj_pair)
  have one: "writes o1 (if ok then [zone_effect js now (apex, z)] else [])"
    using writes_one [OF w] by (cases ok) (simp_all add: zone_effect_def)
  show ?case
  proof (cases ok)
    case False
    with 2 w one show ?thesis by (intro exI [of _ 0]) auto
  next
    case True
    obtain r' o2 where s: "save_zones js fault now (Suc n) zs (gm_set idx (zone_name apex) (index_entry_of z)) = (r', o2)"
      by (meson surj_pair)
    have e: "r = r'" "ops = o1 @ o2"
      using "2.prems" w True s by simp_all
    obtain j where j: "j \<le> length zs" "writes o2 (map (zone_effect js now) (take j zs))"
      "\<forall>idx'. r' = Inr idx' \<longrightarrow> j = length zs \<and>
        idx' = fold (\<lambda>(apex, z) m. gm_set m (zone_name apex) (index_entry_of z)) zs (gm_set idx (zone_name apex) (index_entry_of z))"
      using "2.IH" [OF w [symmetric] refl _ s] True by blast
    show ?thesis
      using writes_append [OF one j(2)] True j(1,3) e by (intro exI [of _ "Suc j"]) auto
  qed
qed

lemma cache_save_writes:
  assumes "cache_save js mkdir_ok fault zones now = (r, ops)"
  shows "\<exists>j\<le>length zones. \<exists>fin. writes ops (map (zone_effect js now) (take j zones) @ fin) \<and>
    (fin = [] \<or> j = length zones \<and> fin = [(IndexPath, js_index js (index_of zones))]) \<and> (r = None \<longrightarrow> fin \<noteq> [])"
proof (cases mkdir_ok)
  case False
  with assms show ?thesis by (intro exI [of _ 0]) (auto simp: cache_save_def intro: writes_Nil)
next
  case True
  obtain r0 o1 where s: "save_zones js fault now 0 zones [] = (r0, o1)"
    by (meson surj_pair)
  from save_zones_writes [OF s] obtain j where j: "j \<le> length zones" "writes o1 (map (zone_effect js now) (take j zones))"
    "\<forall>idx'. r0 = Inr idx' \<longrightarrow> j = length zones \<and> \<lparr>if_schema = cacheSchema, if_zones = idx'\<rparr> = index_of zones"
    by (auto simp: index_of_def)
  show ?thesis
  proof (cases r0)
    case (Inl e)
    with True assms s have "r = Some e" "ops = o1"
      by (simp_all add: cache_save_def)
    with j show ?thesis by (intro exI [of _ j] conjI exI [of _ "[]"]) auto
  next
    case (Inr idx)
    obtain ok o2 where w: "writeAtomicJSON (fault (length zones)) (length zones) IndexPath (js_index js (index_of zones)) = (ok, o2)"
      by (meson surj_pair)
    have "r = (if ok then None else Some SaveIndex)" "ops = o1 @ o2"
      using assms True s Inr w j(3) by (simp_all add: cache_save_def Let_def)
    moreover have "writes o2 (if ok then [(IndexPath, js_index js (index_of zones))] else [])"
      using writes_one [OF w] by simp
    ultimately show ?thesis
      using writes_append [OF j(2)] j(1,3) Inr by (cases ok) fastforce+
  qed
qed

section \<open>Every cache a run can leave behind\<close>

definition keys_ok :: "(string, zone) gomap \<Rightarrow> bool" where
  "keys_ok zones \<longleftrightarrow> gm_ok zones \<and> list_all (\<lambda>(apex, _). Fqdn (zone_name apex) = apex) zones"

type_synonym save_history = "(time \<times> (string, zone) gomap) list"

text \<open>
  The files after a history of saves, each with any faults and each possibly cut short by a
  crash (a crash after the last operation is a save that was not cut short).
\<close>

inductive cache_reach :: "json_codec \<Rightarrow> save_history \<Rightarrow> cache_fs \<Rightarrow> bool" for js :: json_codec where
  reach_empty: "cache_reach js [] []"
| reach_save: "cache_reach js h fs \<Longrightarrow> keys_ok zones \<Longrightarrow> cache_save js mkdir_ok fault zones now = (r, ops) \<Longrightarrow>
    cache_reach js (h @ [(now, zones)]) (crash n part ops fs)"

definition file_from :: "json_codec \<Rightarrow> time \<times> (string, zone) gomap \<Rightarrow> string \<Rightarrow> string \<Rightarrow> bool" where
  "file_from js save name b \<longleftrightarrow>
     (\<exists>apex z. (apex, z) \<in> set (snd save) \<and> name = zone_name apex \<and> b = js_zone js (zone_file_of (fst save) z))"

definition indexed :: "json_codec \<Rightarrow> save_history \<Rightarrow> cache_fs \<Rightarrow> string \<Rightarrow> nat \<Rightarrow> bool" where
  "indexed js h fs b i \<longleftrightarrow> i < length h \<and> b = js_index js (index_of (snd (h ! i))) \<and>
     (\<forall>apex\<in>fst ` set (snd (h ! i)). \<exists>j b'. i \<le> j \<and> j < length h \<and>
        gm_get fs (ZonePath (zone_name apex)) = Some b' \<and> file_from js (h ! j) (zone_name apex) b')"

definition warm_inv :: "json_codec \<Rightarrow> save_history \<Rightarrow> cache_fs \<Rightarrow> bool" where
  "warm_inv js h fs \<longleftrightarrow> (\<forall>save\<in>set h. keys_ok (snd save)) \<and>
     (\<forall>b. gm_get fs IndexPath = Some b \<longrightarrow> (\<exists>i. indexed js h fs b i))"

lemma zone_name_inj: "keys_ok zones \<Longrightarrow> inj_on zone_name (fst ` set zones)"
  by (rule inj_on_inverseI [where g = Fqdn]) (auto simp: keys_ok_def list_all_iff)

lemma names_distinct: "keys_ok zones \<Longrightarrow> distinct (map zone_name (map fst zones))"
  unfolding distinct_map [of zone_name] using zone_name_inj by (simp add: keys_ok_def gm_ok_def)

lemma effects_sound:
  assumes "map_of (rev (take k (map (zone_effect js now) (take j zones) @ fin))) (ZonePath nm) = Some b"
    "fin = [] \<or> j = length zones \<and> fin = [(IndexPath, ix)]"
  shows "file_from js (now, zones) nm b"
proof -
  have "(ZonePath nm, b) \<in> set (map (zone_effect js now) (take j zones) @ fin)"
    using map_of_SomeD [OF assms(1)] by (auto dest: in_set_takeD)
  then have "(ZonePath nm, b) \<in> zone_effect js now ` set zones"
    using assms(2) by (auto dest: in_set_takeD)
  then show ?thesis
    by (auto simp: zone_effect_def file_from_def)
qed

lemma effects_index:
  assumes "map_of (rev (take k (map (zone_effect js now) (take j zones) @ fin))) IndexPath = Some b"
    "fin = [] \<or> j = length zones \<and> fin = [(IndexPath, ix)]" "k \<le> length (map (zone_effect js now) (take j zones) @ fin)"
  shows "b = ix \<and> take k (map (zone_effect js now) (take j zones) @ fin) = map (zone_effect js now) zones @ [(IndexPath, ix)]"
proof -
  have no: "(IndexPath, c) \<notin> set (map (zone_effect js now) zs)" for c zs
    by (auto simp: zone_effect_def)
  have mem: "(IndexPath, b) \<in> set (take k (map (zone_effect js now) (take j zones) @ fin))"
    using map_of_SomeD [OF assms(1)] by (simp only: set_rev)
  then have "(IndexPath, b) \<in> set fin" "\<not> k \<le> length (take j zones)"
    using no [of b "take j zones"] no [of b "take k (take j zones)"] by (auto simp: take_map dest: in_set_takeD)
  then show ?thesis
    using assms(2,3) by (auto simp: le_Suc_eq)
qed

lemma put_all_zones':
  assumes "keys_ok zones" "(apex, z) \<in> set zones"
  shows "gm_get (put_files (map (zone_effect js now) zones @ [(IndexPath, ix)]) fs) (ZonePath (zone_name apex)) =
    Some (js_zone js (zone_file_of now z))"
proof -
  have eff: "map fst (map (zone_effect js now) zones) = map ZonePath (map zone_name (map fst zones))"
    by (simp add: zone_effect_def split_beta)
  have d: "distinct (map fst (map (zone_effect js now) zones))"
    using names_distinct [OF assms(1)] unfolding eff distinct_map [of ZonePath] by (simp add: inj_on_def)
  have "zone_effect js now (apex, z) \<in> set (rev (map (zone_effect js now) zones))"
    using assms(2) by force
  then have "map_of (rev (map (zone_effect js now) zones)) (ZonePath (zone_name apex)) = Some (js_zone js (zone_file_of now z))"
    using d by (simp add: zone_effect_def rev_map [symmetric] distinct_map)
  then show ?thesis
    unfolding gm_get_put_files by simp
qed

lemma put_all_zones:
  assumes "keys_ok zones" "apex \<in> fst ` set zones"
  shows "\<exists>b. gm_get (put_files (map (zone_effect js now) zones @ [(IndexPath, ix)]) fs) (ZonePath (zone_name apex)) = Some b \<and>
    file_from js (now, zones) (zone_name apex) b"
  using assms put_all_zones' [OF assms(1)] by (fastforce simp: file_from_def)

lemma indexed_kept:
  assumes "indexed js h fs b i"
    "\<And>nm. gm_get fs' (ZonePath nm) = gm_get fs (ZonePath nm) \<or> (\<exists>b'. gm_get fs' (ZonePath nm) = Some b' \<and> file_from js save nm b')"
  shows "indexed js (h @ [save]) fs' b i"
proof -
  have i: "i < length h" "b = js_index js (index_of (snd (h ! i)))"
    using assms(1) by (simp_all add: indexed_def)
  have "\<exists>j b'. i \<le> j \<and> j < length (h @ [save]) \<and> gm_get fs' (ZonePath (zone_name apex)) = Some b' \<and>
      file_from js ((h @ [save]) ! j) (zone_name apex) b'" if a: "apex \<in> fst ` set (snd (h ! i))" for apex
    using assms(2) [of "zone_name apex"]
  proof
    assume same: "gm_get fs' (ZonePath (zone_name apex)) = gm_get fs (ZonePath (zone_name apex))"
    obtain j b' where "i \<le> j" "j < length h" "gm_get fs (ZonePath (zone_name apex)) = Some b'"
      "file_from js (h ! j) (zone_name apex) b'"
      using assms(1) a unfolding indexed_def by blast
    with same show ?thesis
      by (intro exI [of _ j] exI [of _ b']) (simp add: nth_append)
  next
    assume "\<exists>b'. gm_get fs' (ZonePath (zone_name apex)) = Some b' \<and> file_from js save (zone_name apex) b'"
    then obtain b' where "gm_get fs' (ZonePath (zone_name apex)) = Some b'" "file_from js save (zone_name apex) b'"
      by blast
    with i show ?thesis
      by (intro exI [of _ "length h"] exI [of _ b']) simp
  qed
  with i show ?thesis
    by (simp add: indexed_def nth_append)
qed

lemma indexed_new:
  assumes "\<And>apex. apex \<in> fst ` set zones \<Longrightarrow> \<exists>b. gm_get fs (ZonePath (zone_name apex)) = Some b \<and> file_from js (now, zones) (zone_name apex) b"
  shows "indexed js (h @ [(now, zones)]) fs (js_index js (index_of zones)) (length h)"
proof -
  have "\<exists>j b'. length h \<le> j \<and> j < length (h @ [(now, zones)]) \<and> gm_get fs (ZonePath (zone_name apex)) = Some b' \<and>
      file_from js ((h @ [(now, zones)]) ! j) (zone_name apex) b'" if "apex \<in> fst ` set zones" for apex
    using assms [OF that] by (intro exI [of _ "length h"]) simp
  then show ?thesis
    by (simp add: indexed_def)
qed

lemma reach_inv: "cache_reach js h fs \<Longrightarrow> warm_inv js h fs"
proof (induction rule: cache_reach.induct)
  case reach_empty
  then show ?case by (simp add: warm_inv_def)
next
  case (reach_save h fs zones mkdir_ok fault now r ops n part)
  let ?fs = "crash n part ops fs" and ?ix = "js_index js (index_of zones)"
  from cache_save_writes [OF reach_save.hyps(3)] obtain j fin where
    w: "writes ops (map (zone_effect js now) (take j zones) @ fin)" and
    fin: "fin = [] \<or> j = length zones \<and> fin = [(IndexPath, ?ix)]"
    by blast
  let ?eff = "map (zone_effect js now) (take j zones) @ fin"
  from crash_effect [OF w, of n part fs] obtain k where k: "k \<le> length ?eff" "same_files ?fs (put_files (take k ?eff) fs)"
    by blast
  define upd where "upd = map_of (rev (take k ?eff))"
  have get: "gm_get ?fs p = (case upd p of Some b \<Rightarrow> Some b | None \<Rightarrow> gm_get fs p)" if "\<forall>m. p \<noteq> TempPath m" for p
    using k(2) that unfolding same_files_def gm_get_put_files upd_def by blast
  have "\<exists>i. indexed js (h @ [(now, zones)]) ?fs b i" if b: "gm_get ?fs IndexPath = Some b" for b
  proof (cases "upd IndexPath")
    case None
    with b get [of IndexPath] reach_save.IH obtain i where i: "indexed js h fs b i"
      by (auto simp: warm_inv_def)
    have "gm_get ?fs (ZonePath nm) = gm_get fs (ZonePath nm) \<or>
        (\<exists>b'. gm_get ?fs (ZonePath nm) = Some b' \<and> file_from js (now, zones) nm b')" for nm
      using get [of "ZonePath nm"] effects_sound [OF _ fin, of k js now nm] unfolding upd_def [symmetric]
      by (cases "upd (ZonePath nm)") auto
    from indexed_kept [OF i this] show ?thesis by blast
  next
    case (Some c)
    from effects_index [OF Some [unfolded upd_def] fin k(1)] have e: "c = ?ix" "take k ?eff = map (zone_effect js now) zones @ [(IndexPath, ?ix)]"
      by simp_all
    have same: "gm_get ?fs (ZonePath nm) = gm_get (put_files (map (zone_effect js now) zones @ [(IndexPath, ?ix)]) fs) (ZonePath nm)" for nm
      using k(2) unfolding same_files_def e(2) by blast
    have "indexed js (h @ [(now, zones)]) ?fs ?ix (length h)"
      by (rule indexed_new, unfold same) (rule put_all_zones [OF reach_save.hyps(2)])
    with b get [of IndexPath] Some e(1) show ?thesis by auto
  qed
  with reach_save.IH reach_save.hyps(2) show ?case
    by (auto simp: warm_inv_def)
qed

section \<open>Loading what was saved\<close>

text \<open>What the encoder promises: what was encoded for a save is decoded again.\<close>

definition codec_ok :: "json_codec \<Rightarrow> save_history \<Rightarrow> bool" where
  "codec_ok js h \<longleftrightarrow> list_all (\<lambda>(t, zones). js_unindex js (js_index js (index_of zones)) = Some (index_of zones) \<and>
     list_all (\<lambda>(_, z). js_unzone js (js_zone js (zone_file_of t z)) = Some (zone_file_of t z)) zones) h"

definition warm_zone :: "duration \<Rightarrow> time \<Rightarrow> time \<Rightarrow> zone \<Rightarrow> zone" where
  "warm_zone ceil now t z =
     (let z' = z\<lparr>z_stale := True\<rparr> in if z_tunnel z \<noteq> [] \<and> now - t > ceil then z'\<lparr>z_synthetic_stale := True\<rparr> else z')"

definition seed_of :: "zone \<Rightarrow> serial_state" where
  "seed_of z = \<lparr>ss_last = of_nat (z_serial z), ss_fetched = zoneHasRecords z\<rparr>"

lemma index_of_map:
  assumes "keys_ok zones"
  shows "if_zones (index_of zones) = map (\<lambda>(apex, z). (zone_name apex, index_entry_of z)) zones"
proof -
  have "fold (\<lambda>(apex, z) m. gm_set m (zone_name apex) (index_entry_of z)) zs acc =
      acc @ map (\<lambda>(apex, z). (zone_name apex, index_entry_of z)) zs"
    if "distinct (map fst acc @ map zone_name (map fst zs))" for zs :: "(string \<times> zone) list" and acc
    using that
  proof (induction zs arbitrary: acc)
    case (Cons x zs)
    obtain apex z where x: "x = (apex, z)" by force
    have "map_of acc (zone_name apex) = None"
      using Cons.prems x by (auto simp: map_of_eq_None_iff)
    with Cons x show ?case by (simp add: gm_set_new)
  qed simp
  from this [of "[]" zones] names_distinct [OF assms] show ?thesis
    by (simp add: index_of_def)
qed

lemma fold_load:
  assumes "distinct (map fst zones @ map (Fqdn \<circ> fst) l)" "distinct (map fst states @ map fst l)"
    "list_all (\<lambda>(nm, _). loadZone js ceil rd nm now = Some (ld nm)) l"
  shows "fold (load_entry js ceil rd now) l (zones, states) =
    (zones @ map (\<lambda>(nm, _). (Fqdn nm, ld nm)) l,
     states @ map (\<lambda>(nm, e). (nm, \<lparr>ss_last = ie_serial e, ss_fetched = ie_has_records e\<rparr>)) l)"
  using assms
proof (induction l arbitrary: zones states)
  case (Cons x l)
  obtain nm e where x: "x = (nm, e)" by force
  have "map_of zones (Fqdn nm) = None" "map_of states nm = None"
    using Cons.prems x by (auto simp: map_of_eq_None_iff)
  with Cons x show ?case
    by (simp add: load_entry_def gm_set_new)
qed simp

lemma cache_load_indexed:
  assumes "keys_ok zones" "rd IndexPath = FileData (js_index js (index_of zones))"
    "js_unindex js (js_index js (index_of zones)) = Some (index_of zones)"
    "list_all (\<lambda>(apex, z). loadZone js ceil rd (zone_name apex) now = Some (ld apex)) zones"
  shows "cache_load js ceil rd now = Inr (map (\<lambda>(apex, _). (apex, ld apex)) zones, map (\<lambda>(apex, z). (zone_name apex, seed_of z)) zones)"
proof -
  let ?l = "map (\<lambda>(apex, z). (zone_name apex, index_entry_of z)) zones"
  have apex: "Fqdn (zone_name (fst x)) = fst x" if "x \<in> set zones" for x
    using assms(1) that by (auto simp: keys_ok_def list_all_iff)
  have fq: "map (Fqdn \<circ> fst) ?l = map fst zones"
    using apex by (auto simp: split_beta)
  have "fold (load_entry js ceil rd now) ?l ([], []) =
    ([] @ map (\<lambda>(nm, _). (Fqdn nm, ld (Fqdn nm))) ?l,
     [] @ map (\<lambda>(nm, e). (nm, \<lparr>ss_last = ie_serial e, ss_fetched = ie_has_records e\<rparr>)) ?l)"
  proof (rule fold_load)
    show "distinct (map fst [] @ map (Fqdn \<circ> fst) ?l)"
      using assms(1) unfolding fq by (simp add: keys_ok_def gm_ok_def)
    show "distinct (map fst [] @ map fst ?l)"
      using names_distinct [OF assms(1)] by (simp add: split_beta comp_def)
    show "list_all (\<lambda>(nm, _). loadZone js ceil rd nm now = Some (ld (Fqdn nm))) ?l"
      using assms(4) apex by (auto simp: list_all_iff)
  qed
  moreover have "map (\<lambda>(nm, _). (Fqdn nm, ld (Fqdn nm))) ?l = map (\<lambda>(apex, _). (apex, ld apex)) zones"
    using apex by (auto simp: split_beta)
  moreover have "map (\<lambda>(nm, e). (nm, \<lparr>ss_last = ie_serial e, ss_fetched = ie_has_records e\<rparr>)) ?l =
      map (\<lambda>(apex, z). (zone_name apex, seed_of z)) zones"
    by (simp add: split_beta index_entry_of_def seed_of_def)
  ultimately show ?thesis
    using assms(2,3) index_of_map [OF assms(1)] by (simp add: cache_load_def index_of_def)
qed

lemma loadZone_saved:
  assumes "gm_get fs (ZonePath nm) = Some (js_zone js (zone_file_of t z))"
    "js_unzone js (js_zone js (zone_file_of t z)) = Some (zone_file_of t z)"
  shows "loadZone js ceil (fs_read fs) nm now = Some (warm_zone ceil now t z)"
  using assms by (simp add: loadZone_def fs_read_def zone_file_of_def warm_zone_def Let_def)

lemma indexed_loads:
  assumes "warm_inv js h fs" "codec_ok js h" "indexed js h fs b i" "apex \<in> fst ` set (snd (h ! i))"
  shows "\<exists>j z. i \<le> j \<and> j < length h \<and> gm_get (snd (h ! j)) apex = Some z \<and>
    loadZone js ceil (fs_read fs) (zone_name apex) now = Some (warm_zone ceil now (fst (h ! j)) z)"
proof -
  obtain j b' where j: "i \<le> j" "j < length h" "gm_get fs (ZonePath (zone_name apex)) = Some b'" "file_from js (h ! j) (zone_name apex) b'"
    using assms(3,4) unfolding indexed_def by blast
  then obtain apex' z where z: "(apex', z) \<in> set (snd (h ! j))" "zone_name apex = zone_name apex'"
    "b' = js_zone js (zone_file_of (fst (h ! j)) z)"
    by (auto simp: file_from_def)
  have keys: "keys_ok (snd (h ! j))" "keys_ok (snd (h ! i))"
    using assms(1) j by (auto simp: warm_inv_def)
  have "apex = Fqdn (zone_name apex)" "apex' = Fqdn (zone_name apex')"
    using keys z(1) assms(4) by (auto simp: keys_ok_def list_all_iff)
  then have "gm_get (snd (h ! j)) apex = Some z"
    using z(1,2) keys(1) by (simp add: keys_ok_def gm_ok_def)
  moreover have "js_unzone js (js_zone js (zone_file_of (fst (h ! j)) z)) = Some (zone_file_of (fst (h ! j)) z)"
    using assms(2) z(1) nth_mem [OF j(2)] by (fastforce simp: codec_ok_def list_all_iff)
  ultimately show ?thesis
    using j(1,2) loadZone_saved [of fs "zone_name apex" js "fst (h ! j)" z] j(3) z(3) by blast
qed

text \<open>
  A warm start is sound after any history.  Let the cache be saved any number of times,
  each save meeting any faults and each possibly cut short by a crash in the middle of a
  write.  Loading then succeeds and never degrades a zone: either there is no cache, or the
  zones and serials loaded are those listed by one of the saves, and the records of each
  zone come from that save or from a later one, so the records are never older than the
  serial the poller starts from.
\<close>

theorem warm_start_sound:
  assumes "cache_reach js h fs" "codec_ok js h"
  shows "cache_load js ceil (fs_read fs) now = Inr ([], []) \<or>
    (\<exists>i<length h. \<exists>zones. cache_load js ceil (fs_read fs) now = Inr (zones, map (\<lambda>(apex, z). (zone_name apex, seed_of z)) (snd (h ! i))) \<and>
      map fst zones = map fst (snd (h ! i)) \<and>
      list_all (\<lambda>(apex, z). \<exists>j z0. i \<le> j \<and> j < length h \<and> gm_get (snd (h ! j)) apex = Some z0 \<and>
        z = warm_zone ceil now (fst (h ! j)) z0) zones)"
proof (cases "gm_get fs IndexPath")
  case None
  then show ?thesis by (simp add: cache_load_def fs_read_def)
next
  case (Some b)
  have inv: "warm_inv js h fs"
    using assms(1) by (rule reach_inv)
  then obtain i where i: "indexed js h fs b i"
    using Some by (auto simp: warm_inv_def)
  then have len: "i < length h" and b: "b = js_index js (index_of (snd (h ! i)))"
    by (simp_all add: indexed_def)
  let ?zs = "snd (h ! i)" and ?ld = "\<lambda>apex. the (loadZone js ceil (fs_read fs) (zone_name apex) now)"
  note loads = indexed_loads [OF inv assms(2) i, of _ ceil now]
  have "cache_load js ceil (fs_read fs) now =
      Inr (map (\<lambda>(apex, _). (apex, ?ld apex)) ?zs, map (\<lambda>(apex, z). (zone_name apex, seed_of z)) ?zs)"
  proof (rule cache_load_indexed)
    show "keys_ok ?zs"
      using inv len by (simp add: warm_inv_def)
    show "fs_read fs IndexPath = FileData (js_index js (index_of ?zs))"
      using Some b by (simp add: fs_read_def)
    show "js_unindex js (js_index js (index_of ?zs)) = Some (index_of ?zs)"
      using assms(2) nth_mem [OF len] by (fastforce simp: codec_ok_def list_all_iff)
    show "list_all (\<lambda>(apex, z). loadZone js ceil (fs_read fs) (zone_name apex) now = Some (?ld apex)) ?zs"
      using loads by (fastforce simp: list_all_iff)
  qed
  moreover have "list_all (\<lambda>(apex, z). \<exists>j z0. i \<le> j \<and> j < length h \<and> gm_get (snd (h ! j)) apex = Some z0 \<and>
      z = warm_zone ceil now (fst (h ! j)) z0) (map (\<lambda>(apex, _). (apex, ?ld apex)) ?zs)"
    using loads by (fastforce simp: list_all_iff)
  ultimately show ?thesis
    using len by (intro disjI2 exI [of _ i] conjI exI) (auto simp: split_beta comp_def)
qed

lemma save_zones_no_fault: "\<exists>idx' ops. save_zones js (\<lambda>_. None) now n zs idx = (Inr idx', ops)"
  by (induction zs arbitrary: n idx) (auto simp: writeAtomicJSON_def Let_def split: prod.splits, metis prod.inject)

lemma writes_whole:
  "writes ops eff \<Longrightarrow> same_files (fold file_step ops fs) (put_files eff fs)"
proof (induction arbitrary: fs rule: writes.induct)
  case (writes_step fault n p b ok ops ops' eff)
  have "same_files (fold file_step ops fs) (put_files (if ok then [(p, b)] else []) fs)"
    using write_whole [OF writes_step.hyps(1,2)] by auto
  then show ?case
    using writes_step.IH [of "fold file_step ops fs"] same_files_put by (fastforce intro: same_files_trans)
qed simp

lemma save_clean:
  assumes "cache_save js True (\<lambda>_. None) zones now = (r, ops)"
  shows "r = None \<and> same_files (fold file_step ops fs)
    (put_files (map (zone_effect js now) zones @ [(IndexPath, js_index js (index_of zones))]) fs)"
proof -
  obtain idx o1 where "save_zones js (\<lambda>_. None) now 0 zones [] = (Inr idx, o1)"
    using save_zones_no_fault by blast
  with assms have r: "r = None"
    by (simp add: cache_save_def writeAtomicJSON_def Let_def)
  obtain j fin where "writes ops (map (zone_effect js now) (take j zones) @ fin)"
    "fin = [] \<or> j = length zones \<and> fin = [(IndexPath, js_index js (index_of zones))]" "fin \<noteq> []"
    using cache_save_writes [OF assms] r by blast
  then have "writes ops (map (zone_effect js now) zones @ [(IndexPath, js_index js (index_of zones))])"
    by auto
  with r show ?thesis by (simp only: writes_whole simp_thms)
qed

text \<open>
  C40. A save without faults succeeds whatever was in the cache before, and loading after it
  returns the saved zones, marked stale, with the tunnel addresses marked stale too
  once they are older than the ceiling, and seeds the poller with their serials.
\<close>

theorem cache_roundtrip:
  assumes "keys_ok zones" "codec_ok js [(now, zones)]" "cache_save js True (\<lambda>_. None) zones now = (r, ops)"
  shows "r = None \<and> cache_load js ceil (fs_read (fold file_step ops fs)) later =
    Inr (map (\<lambda>(apex, z). (apex, warm_zone ceil later now z)) zones, map (\<lambda>(apex, z). (zone_name apex, seed_of z)) zones)"
proof -
  let ?fs = "fold file_step ops fs" and ?ix = "js_index js (index_of zones)"
  let ?put = "put_files (map (zone_effect js now) zones @ [(IndexPath, ?ix)]) fs"
  have r: "r = None" and same: "same_files ?fs ?put"
    using save_clean [OF assms(3)] by blast+
  have get: "gm_get ?fs IndexPath = gm_get ?put IndexPath" "gm_get ?fs (ZonePath nm) = gm_get ?put (ZonePath nm)" for nm
    using same unfolding same_files_def by blast+
  have "cache_load js ceil (fs_read ?fs) later = Inr (map (\<lambda>(apex, _). (apex, warm_zone ceil later now (the (gm_get zones apex)))) zones,
      map (\<lambda>(apex, z). (zone_name apex, seed_of z)) zones)"
  proof (rule cache_load_indexed [OF assms(1)])
    show "fs_read ?fs IndexPath = FileData ?ix"
      unfolding fs_read_def get(1) gm_get_put_files by simp
    show "js_unindex js ?ix = Some (index_of zones)"
      using assms(2) by (simp add: codec_ok_def)
    have "loadZone js ceil (fs_read ?fs) (zone_name apex) later = Some (warm_zone ceil later now z)" if "(apex, z) \<in> set zones" for apex z
      using put_all_zones' [OF assms(1) that, of js now ?ix fs] assms(2) that
      by (intro loadZone_saved) (auto simp: get codec_ok_def list_all_iff)
    then show "list_all (\<lambda>(apex, z). loadZone js ceil (fs_read ?fs) (zone_name apex) later =
        Some (warm_zone ceil later now (the (gm_get zones apex)))) zones"
      using assms(1) by (auto simp: list_all_iff keys_ok_def gm_ok_def)
  qed
  also have "map (\<lambda>(apex, _). (apex, warm_zone ceil later now (the (gm_get zones apex)))) zones = map (\<lambda>(apex, z). (apex, warm_zone ceil later now z)) zones"
    using assms(1) by (auto simp: keys_ok_def gm_ok_def)
  finally show ?thesis using r by blast
qed

section \<open>An example cache\<close>

definition demo_zone :: zone where
  "demo_zone = BuildZone accept_rr ''example.com'' ''Z1'' demo_listing tunnel_addrs [''.cfargotunnel.com.'']"

abbreviation demo_zones :: "(string, zone) gomap" where
  "demo_zones \<equiv> [(''example.com.'', demo_zone)]"

definition demo_json :: json_codec where
  "demo_json = \<lparr>js_zone = (\<lambda>_. ''zone''), js_unzone = (\<lambda>b. if b = ''zone'' then Some (zone_file_of 0 demo_zone) else None),
     js_index = (\<lambda>_. ''index''), js_unindex = (\<lambda>b. if b = ''index'' then Some (index_of demo_zones) else None)\<rparr>"

definition demo_ops :: "file_op list" where
  "demo_ops = snd (cache_save demo_json True (\<lambda>_. None) demo_zones 0)"

lemma demo_keys: "keys_ok demo_zones"
  by code_simp

lemma demo_codec: "codec_ok demo_json [(0, demo_zones), (0, demo_zones)]" "codec_ok demo_json [(0, demo_zones)]"
  by (simp_all add: codec_ok_def demo_json_def)

text \<open>A complete save, and a second one that dies while it writes the index.\<close>

lemma demo_reach: "cache_reach demo_json [(0, demo_zones), (0, demo_zones)] (crash 5 ''ind'' demo_ops (crash 8 [] demo_ops []))"
proof -
  have s: "cache_save demo_json True (\<lambda>_. None) demo_zones 0 = (fst (cache_save demo_json True (\<lambda>_. None) demo_zones 0), demo_ops)"
    by (simp add: demo_ops_def)
  have "cache_reach demo_json ([] @ [(0, demo_zones)]) (crash 8 [] demo_ops [])"
    by (rule reach_save [OF reach_empty demo_keys s])
  from reach_save [OF this demo_keys s] show ?thesis
    by simp
qed

theorem warm_start_sound_witness:
  "\<exists>zones states. cache_load demo_json 60 (fs_read (crash 5 ''ind'' demo_ops (crash 8 [] demo_ops []))) 5 = Inr (zones, states) \<and>
     map fst zones = [''example.com.'']"
proof -
  let ?fs = "crash 5 ''ind'' demo_ops (crash 8 [] demo_ops [])"
  have files: "gm_get ?fs IndexPath = Some ''index''"
    by (simp add: demo_ops_def crash_def cache_save_def writeAtomicJSON_def Let_def demo_json_def)
  have "cache_load demo_json 60 (fs_read ?fs) 5 \<noteq> Inr ([], [])"
    using index_of_map [OF demo_keys]
    by (simp add: cache_load_def fs_read_def files demo_json_def load_entry_def index_of_def split: option.split)
  then show ?thesis
    using warm_start_sound [OF demo_reach demo_codec(1), of 60 5] by (auto simp: less_Suc_eq)
qed

theorem cache_roundtrip_witness:
  "cache_load demo_json 60 (fs_read (fold file_step demo_ops [])) 100 =
     Inr ([(''example.com.'', warm_zone 60 100 0 demo_zone)], [(''example.com'', seed_of demo_zone)])"
proof -
  have "zone_name ''example.com.'' = ''example.com''" by code_simp
  then show ?thesis
    using cache_roundtrip [OF demo_keys demo_codec(2), of "fst (cache_save demo_json True (\<lambda>_. None) demo_zones 0)" demo_ops 60 "[]" 100]
    by (simp add: demo_ops_def)
qed

end
