(* ===== verification/Mirror_Sync.thy ===== *)
theory Mirror_Sync
  imports Mirror_Cache Forwarder
begin

text \<open>
  The refresh of the mirror (\<^verbatim>\<open>mirror/poller.go\<close>, \<^verbatim>\<open>mirror/builder.go\<close>): the query for the serial of a
  zone, the poller that decides when to refresh, and the builder that publishes snapshots
  and keeps the warm cache.  What the outside answers during one step (serials, the account,
  the clock, the faults of the file system) is a record of the step.
\<close>

section \<open>Serial queries\<close>

text \<open>\<^verbatim>\<open>strings.EqualFold\<close> on the bytes of a DNS name.\<close>

definition EqualFold :: "string \<Rightarrow> string \<Rightarrow> bool" where
  "EqualFold a b \<longleftrightarrow> ToLower a = ToLower b"

fun matchSOA :: "dns_rr list \<Rightarrow> string \<Rightarrow> 32 word" where
  "matchSOA [] want = 0"
| "matchSOA (r # rs) want =
     (case dr_data r of
        RD_SOA _ _ serial _ _ _ _ \<Rightarrow> if EqualFold (dr_name r) want then of_nat serial else matchSOA rs want
      | _ \<Rightarrow> matchSOA rs want)"

definition withPort :: "string \<Rightarrow> string \<Rightarrow> string" where
  "withPort hostport defPort = (if SplitHostPort hostport \<noteq> None then hostport else JoinHostPort hostport defPort)"

definition NewBootstrapSerialFetcher :: "string list \<Rightarrow> string list" where
  "NewBootstrapSerialFetcher servers =
     (let norm = map (\<lambda>s. withPort s ''53'') servers in if norm = [] then [''1.1.1.1:53''] else norm)"

datatype serial_error = SerialNone | SerialExchange string | SerialRcode string nat | SerialNoSOA string

fun serial_loop :: "(string \<Rightarrow> dns_msg \<Rightarrow> string + dns_msg) \<Rightarrow> dns_msg \<Rightarrow> string \<Rightarrow> string list \<Rightarrow> serial_error \<Rightarrow>
    serial_error + 32 word" where
  "serial_loop exch req want [] err = Inl err"
| "serial_loop exch req want (srv # srvs) err =
     (case exch srv req of
        Inl e \<Rightarrow> serial_loop exch req want srvs (SerialExchange e)
      | Inr resp \<Rightarrow>
          if msg_rcode resp \<noteq> RcodeSuccess then serial_loop exch req want srvs (SerialRcode srv (msg_rcode resp))
          else if matchSOA (msg_answer resp) want \<noteq> 0 then Inr (matchSOA (msg_answer resp) want)
          else if matchSOA (msg_ns resp) want \<noteq> 0 then Inr (matchSOA (msg_ns resp) want)
          else serial_loop exch req want srvs (SerialNoSOA srv))"

definition Serial :: "nat \<Rightarrow> (string \<Rightarrow> dns_msg \<Rightarrow> string + dns_msg) \<Rightarrow> string list \<Rightarrow> string \<Rightarrow> serial_error + 32 word" where
  "Serial mid exch servers zone = serial_loop exch (SetQuestion mid (Fqdn zone) TypeSOA) (Fqdn zone) servers SerialNone"

section \<open>The builder\<close>

text \<open>The snapshots given to the publish function are kept as a list, the newest first.\<close>

record builder =
  b_cfg :: config
  b_revs :: "string list"
  b_lister :: bool
  b_cache :: "duration option"
  b_fetcher :: bool
  b_last :: "snapshot option"
  b_confirmed :: time
  b_published :: "snapshot list"
  b_files :: cache_fs

text \<open>
  What one step sees: the account (used when the builder has a lister), the tunnel resolver,
  the serials, the providers, the clock when the step starts and when the refresh is over, and
  the file system.
\<close>

record sync_env =
  se_newrr :: newrr
  se_account :: zone_lister
  se_tunnel :: "string \<Rightarrow> (addr list \<times> addr list) option"
  se_serial :: "string \<Rightarrow> serial_error + 32 word"
  se_vhosts :: "(string, bool) gomap"
  se_ddr :: "ddr_advert option"
  se_now :: time
  se_done :: time
  se_json :: json_codec
  se_mkdir :: bool
  se_fault :: "nat \<Rightarrow> io_fault option"

definition noteConfirmed :: "time \<Rightarrow> builder \<Rightarrow> builder" where
  "noteConfirmed now b = b\<lparr>b_confirmed := now\<rparr>"

definition ConfirmedAt :: "builder \<Rightarrow> time option" where
  "ConfirmedAt b = (if b_confirmed b = 0 then None else Some (b_confirmed b))"

definition NewBuilder :: "config \<Rightarrow> string list \<Rightarrow> bool \<Rightarrow> duration option \<Rightarrow> bool \<Rightarrow> cache_fs \<Rightarrow> builder" where
  "NewBuilder cfg revs lister cache fetcher files =
     \<lparr>b_cfg = cfg, b_revs = revs, b_lister = lister, b_cache = cache, b_fetcher = fetcher, b_last = None,
      b_confirmed = 0, b_published = [], b_files = files\<rparr>"

definition show_snapshot :: "snapshot \<Rightarrow> builder \<Rightarrow> builder" where
  "show_snapshot snap b = b\<lparr>b_last := Some snap, b_published := snap # b_published b\<rparr>"

definition stamp_serials :: "(string, 32 word) gomap \<Rightarrow> (string, zone) gomap \<Rightarrow> (string, zone) gomap" where
  "stamp_serials observed = map (\<lambda>(apex, z). (apex,
     case gm_get observed (zone_name apex) of
       None \<Rightarrow> z
     | Some s \<Rightarrow> z\<lparr>z_serial := unat s, z_soa := withSOASerial (z_soa z) (unat s)\<rparr>))"

text \<open>The part of a refresh before the lock is taken: the build, the serials and the vhost set.\<close>

definition refresh_build :: "sync_env \<Rightarrow> (string, 32 word) gomap \<Rightarrow> builder \<Rightarrow> string + snapshot" where
  "refresh_build env observed b =
     (case BuildSnapshot (se_newrr env) (se_now env) (if b_lister b then Some (se_account env) else None) (se_tunnel env) (b_cfg b) (b_revs b) of
        Inl err \<Rightarrow> Inl err
      | Inr snap \<Rightarrow> Inr (snap\<lparr>s_zones := stamp_serials observed (s_zones snap), s_vhosts := se_vhosts env\<rparr>))"

definition refresh_publish :: "sync_env \<Rightarrow> snapshot \<Rightarrow> builder \<Rightarrow> builder" where
  "refresh_publish env snap0 b =
     (let snap = snap0\<lparr>s_ddr := se_ddr env\<rparr>;
          b1 = show_snapshot snap b in
      if b_cache b = None then b1
      else b1\<lparr>b_files := fold file_step (snd (cache_save (se_json env) (se_mkdir env) (se_fault env) (s_zones snap) (se_done env))) (b_files b1)\<rparr>)"

definition refresh :: "sync_env \<Rightarrow> (string, 32 word) gomap \<Rightarrow> builder \<Rightarrow> string option \<times> builder" where
  "refresh env observed b =
     (case refresh_build env observed b of
        Inl err \<Rightarrow> (Some err, b)
      | Inr snap \<Rightarrow> (None, refresh_publish env snap b))"

definition republish :: "sync_env \<Rightarrow> builder \<Rightarrow> builder" where
  "republish env b =
     (case b_last b of
        None \<Rightarrow> b
      | Some snap \<Rightarrow> show_snapshot (snap\<lparr>s_vhosts := se_vhosts env, s_ddr := se_ddr env\<rparr>) b)"

definition BuildOnce :: "sync_env \<Rightarrow> builder \<Rightarrow> string option \<times> builder" where
  "BuildOnce env b = refresh env [] b"

definition warm_start :: "sync_env \<Rightarrow> builder \<Rightarrow> (string, serial_state) gomap \<times> builder" where
  "warm_start env b =
     (case b_cache b of
        None \<Rightarrow> ([], b)
      | Some ceil \<Rightarrow>
          (case cache_load (se_json env) ceil (fs_read (b_files b)) (se_now env) of
             Inl _ \<Rightarrow> ([], b)
           | Inr (zones, states) \<Rightarrow>
               (states,
                if zones = [] then b
                else show_snapshot ((BaseSnapshot (se_now env) (b_cfg b) (b_revs b))
                  \<lparr>s_zones := zones, s_vhosts := se_vhosts env, s_ddr := se_ddr env\<rparr>) b)))"

section \<open>The poller\<close>

record poller =
  po_zones :: "string list"
  po_states :: "(string, serial_state) gomap"
  po_interval :: duration
  po_forced :: duration
  po_last_full :: "time option"

definition NewPoller :: "string list \<Rightarrow> (string, serial_state) gomap \<Rightarrow> duration \<Rightarrow> duration \<Rightarrow> poller" where
  "NewPoller zones states interval forced =
     \<lparr>po_zones = zones, po_states = states, po_interval = (if interval \<le> 0 then 60 * second else interval),
      po_forced = (if forced \<le> 0 then 6 * 3600 * second else forced), po_last_full = None\<rparr>"

definition state_of :: "(string, serial_state) gomap \<Rightarrow> string \<Rightarrow> serial_state" where
  "state_of states z = (case gm_get states z of None \<Rightarrow> \<lparr>ss_last = 0, ss_fetched = False\<rparr> | Some s \<Rightarrow> s)"

definition observe_zone :: "sync_env \<Rightarrow> (string, serial_state) gomap \<Rightarrow> string \<Rightarrow> (string, 32 word) gomap \<times> bool \<Rightarrow>
    (string, 32 word) gomap \<times> bool" where
  "observe_zone env states z on =
     (let (observed, need) = on in
      case se_serial env z of
        Inl _ \<Rightarrow> (observed, need)
      | Inr s \<Rightarrow> (gm_set observed z s, need \<or> ShouldFetch (state_of states z) s))"

definition cycle :: "sync_env \<Rightarrow> poller \<times> builder \<Rightarrow> poller \<times> builder" where
  "cycle env pb =
     (let (p, b) = pb;
          (observed, need) = fold (observe_zone env (po_states p)) (po_zones p) ([], False);
          firstCycle = (po_last_full p = None);
          forced = (case po_last_full p of None \<Rightarrow> False | Some t \<Rightarrow> se_now env - t \<ge> po_forced p);
          reconcile = (firstCycle \<and> observed \<noteq> []) in
      if \<not> need \<and> \<not> forced \<and> \<not> reconcile then
        (p, if observed \<noteq> [] then noteConfirmed (se_now env) b else b)
      else
        case refresh env observed b of
          (Some _, b1) \<Rightarrow> (p, b1)
        | (None, b1) \<Rightarrow>
            (p\<lparr>po_states := fold (\<lambda>(z, s) m. gm_set m z \<lparr>ss_last = s, ss_fetched = True\<rparr>) observed (po_states p),
               po_last_full := Some (se_done env)\<rparr>,
             noteConfirmed (se_done env) b1))"

section \<open>A run of the worker\<close>

text \<open>The start of a run, up to its loop; with no serial fetcher the loop only confirms.\<close>

definition mirror_start :: "sync_env \<Rightarrow> builder \<Rightarrow> poller \<times> builder" where
  "mirror_start env b =
     (let (seeds, b1) = warm_start env b;
          b2 = noteConfirmed (se_now env) b1;
          p = NewPoller (map (\<lambda>z. ToLower (TrimSuffix z ''.'')) (zc_local (cfg_zones (b_cfg b)))) seeds 0 0 in
      if \<not> b_fetcher b then (p, noteConfirmed (se_done env) (snd (BuildOnce env b2))) else (p, b2))"

definition mirror_tick :: "sync_env \<Rightarrow> poller \<times> builder \<Rightarrow> poller \<times> builder" where
  "mirror_tick env pb = (let (p, b) = pb in if \<not> b_fetcher b then (p, noteConfirmed (se_now env) b) else cycle env (p, b))"

section \<open>What a query for a serial returns\<close>

lemma matchSOA_found:
  "matchSOA rs want \<noteq> 0 \<Longrightarrow> \<exists>r\<in>set rs. \<exists>m n s a b c d. dr_data r = RD_SOA m n s a b c d \<and> EqualFold (dr_name r) want \<and>
     matchSOA rs want = of_nat s"
proof (induction rs want rule: matchSOA.induct)
  case (2 r rs want)
  then show ?case
    by (cases "dr_data r") (auto split: if_splits)
qed simp

definition soa_serial_in :: "dns_msg \<Rightarrow> string \<Rightarrow> 32 word \<Rightarrow> bool" where
  "soa_serial_in resp name s \<longleftrightarrow> (\<exists>r\<in>set (msg_answer resp @ msg_ns resp). \<exists>m n k a b c d.
     dr_data r = RD_SOA m n k a b c d \<and> EqualFold (dr_name r) name \<and> s = of_nat k)"

lemma serial_loop_sound:
  assumes "serial_loop exch req want srvs err = Inr s"
  shows "s \<noteq> 0 \<and> (\<exists>srv\<in>set srvs. \<exists>resp. exch srv req = Inr resp \<and> msg_rcode resp = RcodeSuccess \<and> soa_serial_in resp want s)"
  using assms
proof (induction srvs arbitrary: err)
  case (Cons srv srvs)
  show ?case
  proof (cases "exch srv req")
    case (Inl e)
    with Cons show ?thesis by fastforce
  next
    case (Inr resp)
    let ?a = "matchSOA (msg_answer resp) want" and ?n = "matchSOA (msg_ns resp) want"
    consider "msg_rcode resp \<noteq> 0 \<or> ?a = 0 \<and> ?n = 0" | "msg_rcode resp = 0" "?a \<noteq> 0" "s = ?a" | "msg_rcode resp = 0" "?n \<noteq> 0" "s = ?n"
      using Cons.prems Inr by (auto split: if_splits)
    then show ?thesis
    proof cases
      case 1
      with Cons Inr obtain err' where "serial_loop exch req want srvs err' = Inr s"
        by (auto split: if_splits)
      from Cons.IH [OF this] show ?thesis by auto
    qed (use matchSOA_found [of "msg_answer resp" want] matchSOA_found [of "msg_ns resp" want] Inr in
      \<open>fastforce simp: soa_serial_in_def\<close>)+
  qed
qed simp

text \<open>
  A serial is only ever taken from the zone itself: a query that returns one was
  answered without error by one of the servers, with a start-of-authority record whose owner
  is the zone, and the serial is the one of that record and not zero.  The record of a
  parent zone or of an error reply is never used.
\<close>

theorem serial_from_the_zone:
  assumes "Serial mid exch servers zone = Inr s"
  shows "s \<noteq> 0 \<and> (\<exists>srv\<in>set servers. \<exists>resp. exch srv (SetQuestion mid (Fqdn zone) TypeSOA) = Inr resp \<and>
    msg_rcode resp = RcodeSuccess \<and> soa_serial_in resp (Fqdn zone) s)"
  using serial_loop_sound assms unfolding Serial_def by blast

section \<open>One cycle\<close>

lemma gm_get_fold_set:
  assumes "gm_ok l"
  shows "gm_get (fold (\<lambda>(k, v) m. gm_set m k (f v)) l m) k =
    (case gm_get l k of None \<Rightarrow> gm_get m k | Some v \<Rightarrow> Some (f v))"
  using assms
proof (induction l arbitrary: m)
  case (Cons x l)
  obtain k' v where x: "x = (k', v)" by force
  have "k' \<notin> fst ` set l" "gm_ok l"
    using Cons.prems x by (auto simp: gm_ok_def)
  then have "gm_get l k' = None"
    by (simp add: map_of_eq_None_iff)
  with Cons.IH [OF \<open>gm_ok l\<close>] x show ?case
    by (simp add: update_conv split: option.splits)
qed simp

definition seen :: "sync_env \<Rightarrow> poller \<Rightarrow> string \<Rightarrow> 32 word option" where
  "seen env p z = (if z \<in> set (po_zones p) then (case se_serial env z of Inl _ \<Rightarrow> None | Inr s \<Rightarrow> Some s) else None)"

definition observed_by :: "sync_env \<Rightarrow> poller \<Rightarrow> (string, 32 word) gomap" where
  "observed_by env p = fst (fold (observe_zone env (po_states p)) (po_zones p) ([], False))"

text \<open>A refresh is due: a serial moved on, the forced interval is over, or no refresh succeeded yet.\<close>

definition due :: "sync_env \<Rightarrow> poller \<Rightarrow> bool" where
  "due env p \<longleftrightarrow> (\<exists>z s. seen env p z = Some s \<and> ShouldFetch (state_of (po_states p) z) s) \<or>
     (case po_last_full p of None \<Rightarrow> \<exists>z. seen env p z \<noteq> None | Some t \<Rightarrow> se_now env - t \<ge> po_forced p)"

lemma fold_observe:
  assumes "gm_ok obs"
  shows "gm_ok (fst (fold (observe_zone env states) zs (obs, need))) \<and>
    (\<forall>z. gm_get (fst (fold (observe_zone env states) zs (obs, need))) z =
       (if z \<in> set zs then (case se_serial env z of Inl _ \<Rightarrow> gm_get obs z | Inr s \<Rightarrow> Some s) else gm_get obs z)) \<and>
    (snd (fold (observe_zone env states) zs (obs, need)) \<longleftrightarrow>
       need \<or> (\<exists>z\<in>set zs. \<exists>s. se_serial env z = Inr s \<and> ShouldFetch (state_of states z) s))"
  using assms
proof (induction zs arbitrary: obs need)
  case (Cons z zs)
  show ?case
  proof (cases "se_serial env z")
    case (Inl e)
    then have "observe_zone env states z (obs, need) = (obs, need)"
      by (simp add: observe_zone_def)
    with Cons Inl show ?thesis by simp
  next
    case (Inr s)
    then have "observe_zone env states z (obs, need) = (gm_set obs z s, need \<or> ShouldFetch (state_of states z) s)"
      by (simp add: observe_zone_def)
    with Cons.IH [of "gm_set obs z s"] Cons.prems Inr show ?thesis
      by (auto simp: update_conv split: sum.splits)
  qed
qed simp

lemma gm_ok_Nil [simp]: "gm_ok []"
  by (simp add: gm_ok_def)

lemma observed_get: "gm_get (observed_by env p) z = seen env p z" and observed_ok: "gm_ok (observed_by env p)"
  using fold_observe [of "[]" env "po_states p" "po_zones p" False] by (auto simp: observed_by_def seen_def split: sum.splits)

lemma observed_empty: "observed_by env p \<noteq> [] \<longleftrightarrow> (\<exists>z. seen env p z \<noteq> None)"
  by (metis list.exhaust map_of.simps(1) map_of.simps(2) fun_upd_same observed_get option.distinct(1))

lemma seen_Some: "seen env p z = Some s \<longleftrightarrow> z \<in> set (po_zones p) \<and> se_serial env z = Inr s"
  by (auto simp: seen_def split: sum.splits)

lemma cycle_unfold:
  "cycle env (p, b) =
     (if \<not> due env p then (p, if \<exists>z. seen env p z \<noteq> None then noteConfirmed (se_now env) b else b)
      else case refresh env (observed_by env p) b of
        (Some _, b1) \<Rightarrow> (p, b1)
      | (None, b1) \<Rightarrow>
          (p\<lparr>po_states := fold (\<lambda>(z, s) m. gm_set m z \<lparr>ss_last = s, ss_fetched = True\<rparr>) (observed_by env p) (po_states p),
             po_last_full := Some (se_done env)\<rparr>,
           noteConfirmed (se_done env) b1))"
proof -
  obtain obs need where f: "fold (observe_zone env (po_states p)) (po_zones p) ([], False) = (obs, need)"
    by force
  have obs: "obs = observed_by env p"
    by (simp add: observed_by_def f)
  have need: "need \<longleftrightarrow> (\<exists>z s. seen env p z = Some s \<and> ShouldFetch (state_of (po_states p) z) s)"
    using fold_observe [of "[]" env "po_states p" "po_zones p" False] by (simp add: f seen_Some) blast
  have cond: "(\<not> need \<and> \<not> (case po_last_full p of None \<Rightarrow> False | Some t \<Rightarrow> se_now env - t \<ge> po_forced p) \<and>
      \<not> (po_last_full p = None \<and> obs \<noteq> [])) = (\<not> due env p)"
    unfolding due_def need obs observed_empty by (auto split: option.splits)
  show ?thesis
    unfolding cycle_def Let_def prod.case f cond unfolding obs observed_empty ..
qed

text \<open>The states after a refresh.\<close>

lemma refreshed_states:
  "state_of (fold (\<lambda>(z, s) m. gm_set m z \<lparr>ss_last = s, ss_fetched = True\<rparr>) (observed_by env p) (po_states p)) z =
     (case seen env p z of None \<Rightarrow> state_of (po_states p) z | Some s \<Rightarrow> \<lparr>ss_last = s, ss_fetched = True\<rparr>)"
  using gm_get_fold_set [OF observed_ok, of "\<lambda>s. \<lparr>ss_last = s, ss_fetched = True\<rparr>" env p "po_states p" z]
  by (simp add: state_of_def observed_get split: option.splits)

lemma serialLt_irrefl [simp]: "\<not> serialLt s s"
  by (simp add: serialLt_def)

text \<open>
  C34. What one cycle of the poller does, on every branch.  When nothing is due, nothing is
  published or written and the mirror counts as confirmed just when some serial was seen.
  When a refresh is due and the build fails, nothing changes at all, so the previous snapshot
  keeps being served and the next cycle tries again.  When the build succeeds, exactly one
  snapshot is published, the mirror is confirmed, and no serial seen in this cycle asks
  for another fetch.
\<close>

theorem poll_cycle_spec:
  "case cycle env (p, b) of (p', b') \<Rightarrow>
     if \<not> due env p then p' = p \<and> b' = b\<lparr>b_confirmed := if \<exists>z. seen env p z \<noteq> None then se_now env else b_confirmed b\<rparr>
     else case refresh_build env (observed_by env p) b of
       Inl _ \<Rightarrow> p' = p \<and> b' = b
     | Inr snap \<Rightarrow> b_published b' = snap\<lparr>s_ddr := se_ddr env\<rparr> # b_published b \<and> b_last b' = Some (snap\<lparr>s_ddr := se_ddr env\<rparr>) \<and>
         b_confirmed b' = se_done env \<and> po_last_full p' = Some (se_done env) \<and>
         (\<forall>z. case seen env p z of
            None \<Rightarrow> state_of (po_states p') z = state_of (po_states p) z
          | Some s \<Rightarrow> \<not> ShouldFetch (state_of (po_states p') z) s)"
proof (cases "due env p")
  case False
  then show ?thesis by (simp add: cycle_unfold noteConfirmed_def)
next
  case True
  show ?thesis
  proof (cases "refresh_build env (observed_by env p) b")
    case (Inl e)
    with True show ?thesis by (simp add: cycle_unfold refresh_def)
  next
    case (Inr snap)
    with True show ?thesis
      by (auto simp: cycle_unfold refresh_def refresh_publish_def show_snapshot_def noteConfirmed_def Let_def refreshed_states
          ShouldFetch_def split: option.splits)
  qed
qed

section \<open>The served serial\<close>

lemma wordy_append: "wordy a \<Longrightarrow> wordy b \<Longrightarrow> wordy (a @ b)"
  by (simp add: wordy_def)

lemma synthSOA_fields:
  assumes "wordy apex"
  shows "Fields (rr_content (synthSOA apex)) = [apex, ''hostmaster.'' @ apex, ''1'', ''7200'', ''3600'', ''1209600'', ''300'']"
proof -
  have "wordy ''hostmaster.'' \<and> wordy ''1'' \<and> wordy ''7200'' \<and> wordy ''3600'' \<and> wordy ''1209600'' \<and> wordy ''300''"
    by code_simp
  then have "list_all wordy [apex, ''hostmaster.'' @ apex, ''1'', ''7200'', ''3600'', ''1209600'', ''300'']"
    using assms wordy_append [of "''hostmaster.''" apex] by simp
  from Fields_Join [OF this] show ?thesis
    by (simp add: synthSOA_def)
qed

lemma stamped_soa:
  assumes "wordy apex"
  shows "rr_content (withSOASerial (synthSOA apex) n) =
    apex @ '' hostmaster.'' @ apex @ '' '' @ Itoa n @ '' 7200 3600 1209600 300''"
  using synthSOA_fields [OF assms] by (simp add: withSOASerial_def Let_def numeral_2_eq_2)

lemma snapshot_zone:
  assumes "BuildSnapshot newRR now (Some l) tr cfg revs = Inr snap" "gm_get (s_zones snap) apex = Some z"
  shows "s_cf_healthy snap \<and> (\<exists>zones. zl_zones l = Inr zones \<and>
    built_from newRR l tr (ResolvedTunnelSuffixes (cfg_cloudflare cfg)) (account_ids zones) (zc_local (cfg_zones cfg)) apex z)"
proof -
  obtain zones zs where "zl_zones l = Inr zones"
    "build_zones newRR l tr (ResolvedTunnelSuffixes (cfg_cloudflare cfg)) (account_ids zones) (zc_local (cfg_zones cfg)) [] = Inr zs"
    "snap = (BaseSnapshot now cfg revs)\<lparr>s_zones := zs, s_cf_healthy := True, s_built_at := Some now\<rparr>"
    using assms(1) by (auto simp: BuildSnapshot_def Let_def split: sum.splits)
  with assms(2) build_zones_sound show ?thesis by fastforce
qed

lemma BuildZone_head:
  "z_soa (BuildZone newRR apex zid recs tr sufs) = synthSOA (Fqdn (ToLower apex)) \<and>
   \<not> z_stale (BuildZone newRR apex zid recs tr sufs) \<and> z_serial (BuildZone newRR apex zid recs tr sufs) = 0"
proof -
  have add: "z_stale (fst (fold (add_record newRR a zid sufs) recs zt)) = z_stale (fst zt) \<and>
      z_serial (fst (fold (add_record newRR a zid sufs) recs zt)) = z_serial (fst zt)" for a zt
    by (induction recs arbitrary: zt) (auto simp: add_record_def Let_def split: prod.splits option.splits)
  have flat: "z_stale (fold (flatten_tunnel tr) owners z) = z_stale z \<and> z_serial (fold (flatten_tunnel tr) owners z) = z_serial z" for owners z
    by (induction owners arbitrary: z) (auto simp: flatten_tunnel_def Let_def split: option.splits)
  show ?thesis
    using add [of "Fqdn (ToLower apex)" "(empty_zone zid (Fqdn (ToLower apex)), [])"]
    by (simp add: BuildZone_def deriveENT_def flat empty_zone_def split_beta Let_def)
qed

lemma stamp_get:
  "gm_get (stamp_serials obs zs) apex =
     map_option (\<lambda>z. case gm_get obs (zone_name apex) of None \<Rightarrow> z
       | Some s \<Rightarrow> z\<lparr>z_serial := unat s, z_soa := withSOASerial (z_soa z) (unat s)\<rparr>) (gm_get zs apex)"
  by (induction zs) (auto simp: stamp_serials_def split: option.splits)

lemma refresh_build_Inr:
  assumes "BuildSnapshot (se_newrr env) (se_now env) (if b_lister b then Some (se_account env) else None) (se_tunnel env)
    (b_cfg b) (b_revs b) = Inr snap"
  shows "refresh_build env obs b = Inr (snap\<lparr>s_zones := stamp_serials obs (s_zones snap), s_vhosts := se_vhosts env\<rparr>)"
  using assms by (simp add: refresh_build_def)

text \<open>After a successful refresh, the same serials are quiet until the forced interval is over.\<close>

lemma quiet_after_refresh:
  assumes "due env p" "refresh_build env (observed_by env p) b = Inr snap"
    "se_serial env' = se_serial env" "se_now env' - se_done env < po_forced p"
  shows "\<not> due env' (fst (cycle env (p, b)))"
proof -
  let ?p = "fst (cycle env (p, b))"
  have p: "po_zones ?p = po_zones p" "po_last_full ?p = Some (se_done env)" "po_forced ?p = po_forced p"
    "state_of (po_states ?p) z = (case seen env p z of None \<Rightarrow> state_of (po_states p) z | Some s \<Rightarrow> \<lparr>ss_last = s, ss_fetched = True\<rparr>)" for z
    using assms(1,2) by (simp_all add: cycle_unfold refresh_def refreshed_states)
  have "seen env' ?p z = seen env p z" for z
    using p(1) assms(3) by (simp add: seen_def)
  then show ?thesis
    using assms(4) p(2-4) by (auto simp: due_def ShouldFetch_def)
qed

text \<open>
  C11. The mirror follows the zone.  When the poller sees a serial that is newer than the one it
  last fetched, and the account can be listed, one cycle later the published snapshot is
  healthy, holds the zone as it is listed now, not stale, and answers with that very serial in
  the start-of-authority record; and as long as the serials stay what they are, the cycles
  until the forced refresh publish nothing more.
\<close>

theorem mirror_follows_serials:
  assumes "z \<in> set (po_zones p)" "se_serial env z = Inr s" "ShouldFetch (state_of (po_states p) z) s"
    "b_lister b" "BuildSnapshot (se_newrr env) (se_now env) (Some (se_account env)) (se_tunnel env) (b_cfg b) (b_revs b) = Inr snap"
    "gm_get (s_zones snap) apex = Some zn" "zone_name apex = z" "wordy apex"
    "se_serial env' = se_serial env" "se_now env' - se_done env < po_forced p"
  shows "case cycle env (p, b) of (p', b') \<Rightarrow> \<exists>cur rest zn'. b_published b' = cur # rest \<and> s_cf_healthy cur \<and>
    gm_get (s_zones cur) apex = Some zn' \<and> z_records zn' = z_records zn \<and> z_wildcards zn' = z_wildcards zn \<and>
    z_tunnel zn' = z_tunnel zn \<and> \<not> z_stale zn' \<and> z_serial zn' = unat s \<and>
    rr_content (z_soa zn') = apex @ '' hostmaster.'' @ apex @ '' '' @ Itoa (unat s) @ '' 7200 3600 1209600 300'' \<and>
    b_published (snd (cycle env' (p', b'))) = b_published b'"
proof -
  let ?obs = "observed_by env p"
  let ?cur = "snap\<lparr>s_zones := stamp_serials ?obs (s_zones snap), s_vhosts := se_vhosts env, s_ddr := se_ddr env\<rparr>"
  let ?zn = "zn\<lparr>z_serial := unat s, z_soa := withSOASerial (z_soa zn) (unat s)\<rparr>"
  have seen: "seen env p z = Some s"
    using assms(1,2) by (simp add: seen_Some)
  have build: "refresh_build env ?obs b = Inr (snap\<lparr>s_zones := stamp_serials ?obs (s_zones snap), s_vhosts := se_vhosts env\<rparr>)"
    using assms(4,5) by (intro refresh_build_Inr) simp
  have due: "due env p"
    using seen assms(3) by (auto simp: due_def)
  obtain z0 zid recs sufs where zn: "apex = Fqdn (zone_key z0)" "zn = BuildZone (se_newrr env) (zone_key z0) zid recs (se_tunnel env) sufs"
    and healthy: "s_cf_healthy snap"
    using snapshot_zone [OF assms(5,6)] by (auto simp: built_from_def)
  have soa: "z_soa zn = synthSOA apex" "\<not> z_stale zn"
    using BuildZone_head zn by (simp_all add: ToLower_idem)
  have "gm_get (stamp_serials ?obs (s_zones snap)) apex = Some ?zn"
    using assms(6,7) seen by (simp add: stamp_get observed_get)
  moreover have "rr_content (z_soa ?zn) = apex @ '' hostmaster.'' @ apex @ '' '' @ Itoa (unat s) @ '' 7200 3600 1209600 300''"
    using stamped_soa [OF assms(8)] soa(1) by simp
  moreover have "b_published (snd (cycle env (p, b))) = ?cur # b_published b"
    using due build by (simp add: cycle_unfold refresh_def refresh_publish_def show_snapshot_def noteConfirmed_def Let_def)
  moreover have "b_published (snd (cycle env' (p', b'))) = b_published b'" if "cycle env (p, b) = (p', b')" for p' b'
    using quiet_after_refresh [OF due build assms(9,10)] that by (simp add: cycle_unfold noteConfirmed_def)
  ultimately show ?thesis
    using soa(2) healthy by (auto split: prod.splits)
qed

section \<open>Restarts\<close>

definition account_names_ok :: "zone_lister \<Rightarrow> bool" where
  "account_names_ok l \<longleftrightarrow> (case zl_zones l of Inl _ \<Rightarrow> True | Inr zones \<Rightarrow> list_all (\<lambda>(_, name). \<not> HasSuffix name ''.'') zones)"

lemma Fqdn_plain: "\<not> HasSuffix k ''.'' \<Longrightarrow> Fqdn k = k @ ''.''"
proof -
  assume a: "\<not> HasSuffix k ''.''"
  have "\<not> IsFqdn k"
  proof (cases k rule: rev_cases)
    case (snoc k' c)
    with a have "c \<noteq> CHR ''.''" by auto
    with snoc show ?thesis by (simp add: IsFqdn_def)
  qed (simp add: IsFqdn_def)
  then show ?thesis by (simp add: Fqdn_def)
qed

lemma Fqdn_key: "\<not> HasSuffix k ''.'' \<Longrightarrow> Fqdn (zone_name (Fqdn k)) = Fqdn k"
  by (simp add: Fqdn_plain)


lemma ascii_lower_dot: "ascii_lower c = CHR ''.'' \<longleftrightarrow> c = CHR ''.''"
proof (cases "CHR ''A'' \<le> c \<and> c \<le> CHR ''Z''")
  case True
  then have "(of_char c :: nat) \<in> {65 .. 90}"
    by (simp add: less_eq_char_def)
  then have "of_char (ascii_lower c) \<noteq> (46 :: nat)"
    using True by (simp add: ascii_lower_def)
  moreover have "c \<noteq> CHR ''.''"
    using True by auto
  ultimately show ?thesis by auto
qed (auto simp: ascii_lower_def)

lemma HasSuffix_snoc: "HasSuffix (s @ [c]) [d] \<longleftrightarrow> c = d"
  by (auto simp: HasSuffix_def suffix_def)

lemma ToLower_dot: "HasSuffix (ToLower s) ''.'' \<longleftrightarrow> HasSuffix s ''.''"
  by (cases s rule: rev_cases) (simp_all add: ToLower_def HasSuffix_snoc ascii_lower_dot)

lemma fold_keys:
  "gm_get (fold (\<lambda>(zid, name) m. gm_set m (ToLower name) zid) zones m) k = Some v \<Longrightarrow>
     gm_get m k = Some v \<or> (\<exists>name\<in>snd ` set zones. k = ToLower name)"
proof (induction zones arbitrary: m)
  case (Cons x zones)
  then show ?case
    by (cases x) (auto simp: update_conv split: if_splits dest!: Cons.IH)
qed simp

lemma build_zones_ok: "build_zones newRR l tr sufs ids names zs = Inr zs' \<Longrightarrow> gm_ok zs \<Longrightarrow> gm_ok zs'"
  by (induction names arbitrary: zs) (auto simp: build_zones_Cons simp del: build_zones.simps(2))

lemma snapshot_keys:
  assumes "BuildSnapshot newRR now (Some l) tr cfg revs = Inr snap" "account_names_ok l"
  shows "keys_ok (s_zones snap)"
proof -
  have "gm_ok (s_zones snap)"
    using assms(1) build_zones_ok by (fastforce simp: BuildSnapshot_def Let_def split: sum.splits)
  moreover have "Fqdn (zone_name apex) = apex" if apex: "(apex, z) \<in> set (s_zones snap)" for apex z
  proof -
    have "gm_get (s_zones snap) apex = Some z"
      using apex \<open>gm_ok (s_zones snap)\<close> by (simp add: gm_ok_def)
    from snapshot_zone [OF assms(1) this] obtain zones z0 zid where
      zones: "zl_zones l = Inr zones" "gm_get (account_ids zones) (zone_key z0) = Some zid" "apex = Fqdn (zone_key z0)"
      by (auto simp: built_from_def listed_def)
    then obtain name where "name \<in> snd ` set zones" "zone_key z0 = ToLower name"
      using fold_keys [OF zones(2)] by auto
    then have "\<not> HasSuffix (zone_key z0) ''.''"
      using assms(2) zones(1) by (auto simp: account_names_ok_def list_all_iff ToLower_dot)
    then show ?thesis
      unfolding zones(3) by (rule Fqdn_key)
  qed
  ultimately show ?thesis
    by (auto simp: keys_ok_def list_all_iff)
qed

lemma stamp_keys: "keys_ok (stamp_serials obs zs) \<longleftrightarrow> keys_ok zs"
  by (simp add: keys_ok_def stamp_serials_def gm_ok_def list_all_iff split_beta comp_def)

lemma refresh_keys:
  assumes "refresh_build env obs b = Inr snap" "b_lister b" "account_names_ok (se_account env)"
  shows "keys_ok (s_zones snap)"
proof -
  obtain snap0 where "BuildSnapshot (se_newrr env) (se_now env) (Some (se_account env)) (se_tunnel env) (b_cfg b) (b_revs b) = Inr snap0"
    "snap = snap0\<lparr>s_zones := stamp_serials obs (s_zones snap0), s_vhosts := se_vhosts env\<rparr>"
    using assms(1,2) by (auto simp: refresh_build_def split: sum.splits)
  with snapshot_keys [of "se_newrr env" _ "se_account env"] assms(3) show ?thesis
    by (simp add: stamp_keys)
qed

text \<open>
  The life of the mirror over any number of runs of the program: the snapshots its refreshes
  built and published, with their times, and the files they left; any save may meet faults,
  and the process may die in the middle of it.
\<close>

inductive mirror_life :: "json_codec \<Rightarrow> save_history \<Rightarrow> cache_fs \<Rightarrow> bool" for js :: json_codec where
  life_start: "mirror_life js [] []"
| life_refresh: "mirror_life js pubs fs \<Longrightarrow> b_lister b \<Longrightarrow> account_names_ok (se_account env) \<Longrightarrow>
    refresh_build env obs b = Inr snap \<Longrightarrow>
    cache_save js (se_mkdir env) (se_fault env) (s_zones snap) (se_done env) = (r, ops) \<Longrightarrow>
    mirror_life js (pubs @ [(se_done env, s_zones snap)]) (crash n part ops fs)"

lemma life_reach: "mirror_life js pubs fs \<Longrightarrow> cache_reach js pubs fs"
proof (induction rule: mirror_life.induct)
  case life_start
  show ?case by (rule reach_empty)
next
  case (life_refresh pubs fs b env obs snap r ops n part)
  then show ?case
    by (intro reach_save) (auto intro: refresh_keys)
qed

lemma seeds_get:
  assumes "keys_ok zones" "gm_get zones apex = Some z"
  shows "gm_get (map (\<lambda>(apex, z). (zone_name apex, seed_of z)) zones) (zone_name apex) = Some (seed_of z)"
proof -
  have "distinct (map fst (map (\<lambda>(apex, z). (zone_name apex, seed_of z)) zones))"
    using names_distinct [OF assms(1)] by (simp add: split_beta comp_def)
  moreover have "(zone_name apex, seed_of z) \<in> set (map (\<lambda>(apex, z). (zone_name apex, seed_of z)) zones)"
    using map_of_SomeD [OF assms(2)] by force
  ultimately show ?thesis
    by (simp only: map_of_eq_Some_iff)
qed

lemma warm_zone_stale [simp]: "z_stale (warm_zone ceil now t z)"
  by (simp add: warm_zone_def Let_def)

definition from_history :: "save_history \<Rightarrow> duration \<Rightarrow> time \<Rightarrow> (string, serial_state) gomap \<Rightarrow> string \<times> zone \<Rightarrow> bool" where
  "from_history pubs ceil now seeds = (\<lambda>(apex, z). z_stale z \<and> (\<exists>i j z1 z0. i \<le> j \<and> j < length pubs \<and>
     gm_get (snd (pubs ! i)) apex = Some z1 \<and> gm_get seeds (zone_name apex) = Some (seed_of z1) \<and>
     gm_get (snd (pubs ! j)) apex = Some z0 \<and> z = warm_zone ceil now (fst (pubs ! j)) z0))"

lemma loaded_from_history:
  assumes "cache_reach js pubs fs" "codec_ok js pubs"
  shows "\<exists>zones seeds. cache_load js ceil (fs_read fs) now = Inr (zones, seeds) \<and> list_all (from_history pubs ceil now seeds) zones"
  using warm_start_sound [OF assms, of ceil now]
proof
  assume "cache_load js ceil (fs_read fs) now = Inr ([], [])"
  then show ?thesis by simp
next
  assume "\<exists>i<length pubs. \<exists>zones. cache_load js ceil (fs_read fs) now =
      Inr (zones, map (\<lambda>(apex, z). (zone_name apex, seed_of z)) (snd (pubs ! i))) \<and> map fst zones = map fst (snd (pubs ! i)) \<and>
      list_all (\<lambda>(apex, z). \<exists>j z0. i \<le> j \<and> j < length pubs \<and> gm_get (snd (pubs ! j)) apex = Some z0 \<and>
        z = warm_zone ceil now (fst (pubs ! j)) z0) zones"
  then obtain i zones where i: "i < length pubs" and load: "cache_load js ceil (fs_read fs) now =
      Inr (zones, map (\<lambda>(apex, z). (zone_name apex, seed_of z)) (snd (pubs ! i)))" and
    names: "map fst zones = map fst (snd (pubs ! i))" and
    all: "list_all (\<lambda>(apex, z). \<exists>j z0. i \<le> j \<and> j < length pubs \<and> gm_get (snd (pubs ! j)) apex = Some z0 \<and>
        z = warm_zone ceil now (fst (pubs ! j)) z0) zones"
    by blast
  have keys: "keys_ok (snd (pubs ! i))"
    using reach_inv [OF assms(1)] i by (simp add: warm_inv_def)
  have "from_history pubs ceil now (map (\<lambda>(apex, z). (zone_name apex, seed_of z)) (snd (pubs ! i))) (apex, z)"
    if z: "(apex, z) \<in> set zones" for apex z
  proof -
    obtain j z0 where j: "i \<le> j" "j < length pubs" "gm_get (snd (pubs ! j)) apex = Some z0" "z = warm_zone ceil now (fst (pubs ! j)) z0"
      using all z by (auto simp: list_all_iff)
    have "apex \<in> set (map fst (snd (pubs ! i)))"
      using z unfolding names [symmetric] by force
    then obtain z1 where z1: "gm_get (snd (pubs ! i)) apex = Some z1"
      by (cases "gm_get (snd (pubs ! i)) apex") (auto simp: map_of_eq_None_iff)
    with j seeds_get [OF keys z1] show ?thesis
      unfolding from_history_def prod.case by (metis warm_zone_stale)
  qed
  with load show ?thesis
    by (auto simp: list_all_iff)
qed

text \<open>
  C10. A restart serves what was published.  Let the program run any number of times, each
  refresh publishing a snapshot and saving it, the saves meeting any faults and the process
  possibly dying in the middle of one.  A warm start after that publishes nothing, or a
  snapshot each of whose zones was published before under the same name and is marked stale;
  and the serial the poller starts from is that of the same or an earlier publication, so a
  change since then is still detected.
\<close>

theorem restart_serves_published:
  assumes "mirror_life js pubs fs" "codec_ok js pubs" "b_cache b = Some ceil" "b_files b = fs" "se_json env = js"
  shows "case warm_start env b of (seeds, b') \<Rightarrow> b' = b \<or>
    (\<exists>cur. b' = show_snapshot cur b \<and> list_all (from_history pubs ceil (se_now env) seeds) (s_zones cur))"
proof -
  obtain zones seeds where "cache_load js ceil (fs_read fs) (se_now env) = Inr (zones, seeds)"
    and all: "list_all (from_history pubs ceil (se_now env) seeds) zones"
    using loaded_from_history [OF life_reach [OF assms(1)] assms(2)] by blast
  then have "warm_start env b = (seeds, if zones = [] then b else show_snapshot ((BaseSnapshot (se_now env) (b_cfg b) (b_revs b))
      \<lparr>s_zones := zones, s_vhosts := se_vhosts env, s_ddr := se_ddr env\<rparr>) b)"
    using assms(3-5) by (simp add: warm_start_def)
  then show ?thesis
    using all by (auto intro!: exI [of _ "(BaseSnapshot (se_now env) (b_cfg b) (b_revs b))
      \<lparr>s_zones := zones, s_vhosts := se_vhosts env, s_ddr := se_ddr env\<rparr>"])
qed

section \<open>After a warm start\<close>

text \<open>
  The first cycle that sees a serial rebuilds even when no serial moved: a snapshot built
  from the account has no stale zone, and counts as healthy.
\<close>

lemma first_cycle_reconciles:
  assumes "po_last_full p = None" "seen env p z \<noteq> None" "b_lister b"
    "BuildSnapshot (se_newrr env) (se_now env) (Some (se_account env)) (se_tunnel env) (b_cfg b) (b_revs b) = Inr snap"
    "cycle env (p, b) = (p', b')"
  shows "\<exists>cur. b_published b' = cur # b_published b \<and> s_zones cur = stamp_serials (observed_by env p) (s_zones snap) \<and>
    (\<forall>apex zn. gm_get (s_zones cur) apex = Some zn \<longrightarrow> \<not> z_stale zn \<and> s_cf_healthy cur)"
proof -
  have "due env p"
    using assms(1,2) by (auto simp: due_def)
  moreover have "refresh_build env (observed_by env p) b =
      Inr (snap\<lparr>s_zones := stamp_serials (observed_by env p) (s_zones snap), s_vhosts := se_vhosts env\<rparr>)"
    using assms(3,4) by (intro refresh_build_Inr) simp
  ultimately have "b_published b' = snap\<lparr>s_zones := stamp_serials (observed_by env p) (s_zones snap),
      s_vhosts := se_vhosts env, s_ddr := se_ddr env\<rparr> # b_published b"
    using assms(5) by (auto simp: cycle_unfold refresh_def refresh_publish_def show_snapshot_def noteConfirmed_def Let_def)
  moreover have "\<not> z_stale zn \<and> s_cf_healthy snap" if zn: "gm_get (stamp_serials obs (s_zones snap)) apex = Some zn" for obs apex zn
  proof -
    obtain zn0 where zn0: "gm_get (s_zones snap) apex = Some zn0" "z_stale zn = z_stale zn0"
      using zn by (auto simp: stamp_get split: option.splits)
    from snapshot_zone [OF assms(4) zn0(1)] zn0(2) BuildZone_head show ?thesis
      by (auto simp: built_from_def)
  qed
  ultimately show ?thesis by simp
qed

section \<open>Findings\<close>

text \<open>
  The vhost set is read before the lock is taken.  A set published by the feed while a refresh
  is on its way is overwritten by the older set the refresh has read.
\<close>

theorem stale_vhosts_published:
  assumes "refresh_build env obs b = Inr snap" "b_last b = Some old"
  shows "s_vhosts (hd (b_published (republish later b))) = se_vhosts later \<and>
    s_vhosts (hd (b_published (refresh_publish later snap (republish later b)))) = se_vhosts env"
  using assms by (auto simp: refresh_build_def refresh_publish_def republish_def show_snapshot_def Let_def split: sum.splits)

text \<open>
  A refresh that one zone asks for rebuilds all of them, and a zone whose own serial query
  failed in that cycle falls back to the serial of the synthetic record.
\<close>

theorem unseen_zone_loses_serial:
  assumes "BuildSnapshot (se_newrr env) (se_now env) (Some (se_account env)) (se_tunnel env) (b_cfg b) (b_revs b) = Inr snap"
    "b_lister b" "gm_get (s_zones snap) apex = Some zn" "gm_get obs (zone_name apex) = None"
    "refresh_build env obs b = Inr snap'"
  shows "\<exists>zn'. gm_get (s_zones snap') apex = Some zn' \<and> z_serial zn' = 0 \<and>
    (\<exists>a. z_soa zn' = synthSOA a)"
proof -
  have "snap' = snap\<lparr>s_zones := stamp_serials obs (s_zones snap), s_vhosts := se_vhosts env\<rparr>"
    using assms(1,2,5) by (simp add: refresh_build_def)
  with assms(3,4) snapshot_zone [OF assms(1,3)] BuildZone_head show ?thesis
    by (auto simp: stamp_get built_from_def)
qed

section \<open>An example run\<close>

definition demo_sync :: "(string \<Rightarrow> serial_error + 32 word) \<Rightarrow> json_codec \<Rightarrow> sync_env" where
  "demo_sync serial js = \<lparr>se_newrr = accept_rr, se_account = demo_account, se_tunnel = tunnel_addrs, se_serial = serial, se_vhosts = [],
     se_ddr = None, se_now = 5, se_done = 7, se_json = js, se_mkdir = True, se_fault = (\<lambda>_. None)\<rparr>"

definition demo_builder :: builder where
  "demo_builder = NewBuilder demo_mirror_config [] True (Some 60) True []"

definition demo_serials :: "string \<Rightarrow> serial_error + 32 word" where
  "demo_serials z = (if z = ''example.com'' then Inr 2400000001 else Inl SerialNone)"

definition demo_poller :: poller where
  "demo_poller = NewPoller [''example.com'', ''other.org''] [(''example.com'', \<lparr>ss_last = 2400000000, ss_fetched = True\<rparr>)] 0 0"

lemma demo_build: "\<exists>snap zn. BuildSnapshot accept_rr 5 (Some demo_account) tunnel_addrs demo_mirror_config [] = Inr snap \<and>
    gm_get (s_zones snap) ''example.com.'' = Some zn"
proof -
  have "case BuildSnapshot accept_rr 5 (Some demo_account) tunnel_addrs demo_mirror_config [] of
      Inr snap \<Rightarrow> gm_get (s_zones snap) ''example.com.'' \<noteq> None | Inl _ \<Rightarrow> False"
    by code_simp
  then show ?thesis by (auto split: sum.splits)
qed

theorem mirror_follows_serials_witness:
  "case cycle (demo_sync demo_serials demo_json) (demo_poller, demo_builder) of (p', b') \<Rightarrow>
     \<exists>cur rest zn'. b_published b' = cur # rest \<and> gm_get (s_zones cur) ''example.com.'' = Some zn' \<and>
       rr_content (z_soa zn') = ''example.com. hostmaster.example.com. 2400000001 7200 3600 1209600 300''"
proof -
  let ?env = "demo_sync demo_serials demo_json"
  obtain snap zn where "BuildSnapshot accept_rr 5 (Some demo_account) tunnel_addrs demo_mirror_config [] = Inr snap"
    "gm_get (s_zones snap) ''example.com.'' = Some zn"
    using demo_build by blast
  moreover have "zone_name ''example.com.'' = ''example.com''" "wordy ''example.com.''" "Itoa 2400000001 = ''2400000001''"
    "ShouldFetch (state_of (po_states demo_poller) ''example.com'') 2400000001" "''example.com'' \<in> set (po_zones demo_poller)"
    "se_serial ?env ''example.com'' = Inr 2400000001" "se_now ?env - se_done ?env < po_forced demo_poller"
    "unat (2400000001 :: 32 word) = 2400000001"
    by code_simp+
  ultimately show ?thesis
    using mirror_follows_serials [of "''example.com''" demo_poller ?env 2400000001 demo_builder snap "''example.com.''" zn ?env]
    by (auto simp: demo_sync_def demo_builder_def NewBuilder_def split: prod.splits)
qed

definition demo_published :: "(string, zone) gomap" where
  "demo_published = (case refresh_build (demo_sync demo_serials demo_json) [] demo_builder of Inl _ \<Rightarrow> [] | Inr snap \<Rightarrow> s_zones snap)"

definition life_json :: json_codec where
  "life_json = \<lparr>js_zone = (\<lambda>_. ''zone''), js_unzone = (\<lambda>b. if b = ''zone'' then Some (zone_file_of 7 (snd (hd demo_published))) else None),
     js_index = (\<lambda>_. ''index''), js_unindex = (\<lambda>b. if b = ''index'' then Some (index_of demo_published) else None)\<rparr>"

definition life_files :: cache_fs where
  "life_files = crash 8 [] (snd (cache_save life_json True (\<lambda>_. None) demo_published 7)) []"

lemma demo_published_one: "map fst demo_published = [''example.com.'']"
  by code_simp

lemma demo_life: "mirror_life life_json [(7, demo_published)] life_files"
proof -
  let ?env = "demo_sync demo_serials life_json"
  have "case refresh_build (demo_sync demo_serials demo_json) [] demo_builder of Inl _ \<Rightarrow> False | Inr snap \<Rightarrow> True"
    "b_lister demo_builder" "account_names_ok (se_account ?env)" "se_mkdir ?env" "se_done ?env = 7"
    by code_simp+
  moreover have "refresh_build ?env [] demo_builder = refresh_build (demo_sync demo_serials demo_json) [] demo_builder"
    by (simp add: refresh_build_def demo_sync_def split: sum.split)
  ultimately obtain snap where "refresh_build ?env [] demo_builder = Inr snap" "s_zones snap = demo_published"
    by (auto simp: demo_published_def split: sum.splits)
  from life_refresh [OF life_start \<open>b_lister demo_builder\<close> \<open>account_names_ok (se_account ?env)\<close> this(1) prod.collapse [symmetric], where js = life_json and n = 8 and part = "[]"] this(2)
  show ?thesis
    by (simp add: life_files_def demo_sync_def)
qed

theorem restart_serves_published_witness:
  "\<exists>cur. snd (warm_start (demo_sync demo_serials life_json) (demo_builder\<lparr>b_files := life_files\<rparr>)) =
      show_snapshot cur (demo_builder\<lparr>b_files := life_files\<rparr>) \<and>
    list_all (from_history [(7, demo_published)] 60 5 (fst (warm_start (demo_sync demo_serials life_json) (demo_builder\<lparr>b_files := life_files\<rparr>)))) (s_zones cur)"
proof -
  let ?env = "demo_sync demo_serials life_json" and ?b = "demo_builder\<lparr>b_files := life_files\<rparr>"
  obtain z where z: "demo_published = [(''example.com.'', z)]"
    using demo_published_one by (auto simp: map_eq_Cons_conv)
  have "codec_ok life_json [(7, demo_published)]"
    by (simp add: codec_ok_def life_json_def z)
  moreover have "b_published (snd (warm_start ?env ?b)) \<noteq> []"
    by code_simp
  ultimately show ?thesis
    using restart_serves_published [OF demo_life, of ?b 60 ?env]
    by (auto simp: demo_builder_def NewBuilder_def demo_sync_def split: prod.splits)
qed

end
