(* ===== verification/Spec2Isabelle.thy ===== *)
theory Spec2Isabelle
  imports Server Mdns_Source Mirror_Sync
begin

text \<open>
  A verification library for splitdns, a split-horizon DNS server for a home or office
  network.  The server answers local names from what devices announce over multicast DNS,
  answers the zones it mirrors from Cloudflare authoritatively, forwards everything else to
  encrypted upstream resolvers, and writes the public addresses of authenticated hosts back to
  Cloudflare.

  \<^bold>\<open>Reading guide.\<close>  A theory models one package under \<^verbatim>\<open>src/internal\<close>, a definition one
  function or type of it, under the name the source uses where Isabelle allows it.  A
  byte string is a \<^typ>\<open>string\<close>.  A Go map is an association list with distinct keys, so that
  iteration has an order; results that depend on it are stated up to it.  A time or a
  duration counts nanoseconds in an \<^typ>\<open>int\<close>; the zero time is None; the clock is an
  argument.  Code under a mutex is one step.  A float64 is an exact rational (a real number
  where the source takes an exponential).  Errors are values of a sum or option type and a
  run-time panic is None.  What is not in the repository (the DNS library's reading of a
  zone line, the network, the Cloudflare account) is an argument.

  \<^descr> \<^bold>\<open>Prelude\<close>: the Go library functions on strings and numbers, maps with the locale of a
  finite map, and the locale of a machine whose operations keep an invariant.
  \<^descr> \<^bold>\<open>Netip\<close>, \<^bold>\<open>Dns\<close>, \<^bold>\<open>Model\<close>: addresses and prefixes at their bit width, DNS messages and
  names, and the records, zones, snapshot and view that answers are made from
  (\<^verbatim>\<open>model/rr.go\<close>, \<^verbatim>\<open>model/snapshot.go\<close>).
  \<^descr> \<^bold>\<open>Netmatch\<close> (\<^verbatim>\<open>netmatch/netmatch.go\<close>): access lists, the rebinding block list, which addresses
  may be published and which the server listens on.
  \<^descr> \<^bold>\<open>Zone\<close>, \<^bold>\<open>Resolver\<close> (\<^verbatim>\<open>resolver/\<close>): the whole pure resolver.  Zone answers, wildcards and the CNAME chase are
  compared with declarative descriptions, and denials with RFC 4592, from which they differ exactly where
  stated; local names are never forwarded, published names outside the local domain do not
  depend on announcements, and restricted names are answered from trusted data only.
  \<^descr> \<^bold>\<open>Anscache\<close> (\<^verbatim>\<open>anscache/anscache.go\<close>): the answer cache refines a bounded
  least-recently-used list; what it stores is safe to store, its time to live counts down, and it
  stays while fewer other keys are used than there is room for.
  \<^descr> \<^bold>\<open>Breaker\<close>, \<^bold>\<open>Forwarder\<close> (\<^verbatim>\<open>forwarder/\<close>): the circuit breaker as a reachable-state invariant,
  and the search over upstreams: an answer is found whenever an allowed upstream gives
  one, encrypted first.
  \<^descr> \<^bold>\<open>Server\<close> (\<^verbatim>\<open>server/server.go\<close>): the handler of one request, composed from the above: one
  reply per request, no slot of a limiter left behind, a rebinding filter on the answer section, and
  answers and failures that are remembered across any other requests.
  \<^descr> \<^bold>\<open>Qlog\<close> (\<^verbatim>\<open>qlog/qlog.go\<close>): query statistics; the ring refines the history.
  \<^descr> \<^bold>\<open>Mdns_Cache\<close>, \<^bold>\<open>Mdns_Ingest\<close>, \<^bold>\<open>Mdns_Source\<close> (\<^verbatim>\<open>mdns/\<close>): the two host stores and the view,
  packet parsing and signatures with replay protection, and the source whose goroutines are
  a step relation, in which a view is built, stored and announced in separate steps.  Trusted data comes from
  strongly authenticated announcements alone; solicitation is rate limited, never closes a channel
  twice, and wakes a caller only after the view is stored.
  \<^descr> \<^bold>\<open>Token_Bucket\<close>: the locale of a token bucket, interpreted on the buckets of
  \<^verbatim>\<open>mdns/resolve.go\<close> and used for that of \<^verbatim>\<open>ddns/ddns.go\<close>.
  \<^descr> \<^bold>\<open>Ddns_Audit\<close>, \<^bold>\<open>Ddns\<close> (\<^verbatim>\<open>ddns/\<close>): the hash-chained log, with SHA-256 written out, and the
  writer: policy, plan, rate limits and simulator.
  \<^descr> \<^bold>\<open>Revzone\<close> (\<^verbatim>\<open>revzone/\<close>): reverse zones cover exactly the aligned managed prefixes.
  \<^descr> \<^bold>\<open>Config\<close> (\<^verbatim>\<open>config/config.go\<close>): the sections, their defaults and derived values, loading and
  validation; a validated configuration starts, and its reverse zones cover the managed space.
  \<^descr> \<^bold>\<open>Cfapi\<close> (\<^verbatim>\<open>cfapi/cfapi.go\<close>): the API client over an argument that answers requests; listings
  are drained to the last page.
  \<^descr> \<^bold>\<open>Mirror\<close> (\<^verbatim>\<open>mirror/mirror.go\<close>, the adapters of \<^verbatim>\<open>mirror/builder.go\<close>): a built zone is exactly its
  listing, with tunnels flattened and empty non-terminals derived, and a snapshot is built whole or not at all.
  \<^descr> \<^bold>\<open>Mirror_Cache\<close> (\<^verbatim>\<open>mirror/serial.go\<close>, \<^verbatim>\<open>mirror/cache.go\<close>): serial arithmetic on 32-bit words, and the warm
  cache as a sequence of file operations that a crash may cut anywhere.
  \<^descr> \<^bold>\<open>Mirror_Sync\<close> (\<^verbatim>\<open>mirror/poller.go\<close>, \<^verbatim>\<open>mirror/builder.go\<close>): the poller and the publications of the builder; the
  mirror follows the serials of its zones, a failed refresh keeps what is served, and a restart after any
  history of crashes serves only zones that were published.

  \<^bold>\<open>Interfaces.\<close>  The locales are \<open>finite_map\<close> and \<open>op_machine\<close> (Prelude), \<open>longest_suffix\<close> (Zone)
  and \<open>token_bucket\<close> (Token_Bucket); each is interpreted on the definitions of the model.

  \<^bold>\<open>Bounds and fuel.\<close>  No model runs on fuel.  The CNAME chase stops after the number of links the
  source allows, and SHA-256 consumes one block per step.  A loop whose end the source does not
  show returns an option: \<open>advance_loop\<close> (Breaker), which is Some in every reachable state, and \<open>pager\<close>
  (Cfapi), which is Some for every service whose listing has a last page.

  \<^bold>\<open>Not modelled.\<close>  Sockets, TLS, HTTP and the file system as such; the decoding of wire
  messages and zone lines (miekg/dns); the diagnostics page (\<^verbatim>\<open>diag/\<close>, mostly embedded HTML);
  the command-line helper \<^verbatim>\<open>splitdns-notify\<close>, which runs other programs; the start-up wiring of
  \<^verbatim>\<open>cmd/splitdnsd\<close> apart from the construction of the mDNS source; the supervisor, the vhost feed, the log limiter and the vendor names; the test infrastructure.  Goroutine scheduling
  appears as the interleaving of whole critical sections.  Counters are unbounded.
\<close>

end
